(* ===== verification/Prelude.thy ===== *)
theory Prelude
  imports Main "HOL-Library.Monad_Syntax" "HOL-Library.Word" "HOL-Library.Multiset"
begin

text \<open>
  Shared vocabulary of the development: the machine types of the 32-bit target, the outcome
  type of kernel code, and the generic list lemmas the components use.

  Kernel code is modelled in the option monad. \<^const>\<open>None\<close> is the outcome "control does
  not return to the caller": a failed \<open>ASSERT\<close>, a \<open>PANIC\<close>, a fault on a null pointer
  or a loop that never ends. A theorem that an operation succeeds therefore states an equation
  with \<^const>\<open>Some\<close>.
\<close>

type_synonym u8 = "8 word"
type_synonym u32 = "32 word"
type_synonym u64 = "64 word"

text \<open>Addresses, with the null pointer as address 0.\<close>

type_synonym ptr = nat

definition NULL :: ptr where
  "NULL = 0"

text \<open>The macro \<open>ASSERT\<close> of \<open>lib/debug.h\<close>: the kernel panics unless the condition holds.\<close>

definition ASSERT :: "bool \<Rightarrow> unit option" where
  "ASSERT b = (if b then Some () else None)"

named_theorems kernel_simps \<open>rewrite rules that execute kernel code step by step\<close>
named_theorems heap_frame \<open>facts about heap cells an operation leaves alone\<close>

lemma ASSERT_simps [simp, kernel_simps]:
  "ASSERT True = Some ()"
  "ASSERT False = None"
  by (simp_all add: ASSERT_def)

lemma ASSERT_eq_Some [simp]: "ASSERT b = Some u \<longleftrightarrow> b"
  by (simp add: ASSERT_def)

lemma ASSERT_bind [kernel_simps]: "(ASSERT b \<bind> f) = (if b then f () else None)"
  by (simp add: ASSERT_def)

section \<open>Lists\<close>

lemma last_notin_butlast: "distinct xs \<Longrightarrow> xs \<noteq> [] \<Longrightarrow> last xs \<notin> set (butlast xs)"
  by (metis append_butlast_last_id distinct_butlast not_distinct_conv_prefix)

lemma hd_notin_tl: "distinct xs \<Longrightarrow> xs \<noteq> [] \<Longrightarrow> hd xs \<notin> set (tl xs)"
  by (cases xs) auto

lemma in_set_tlD: "x \<in> set (tl xs) \<Longrightarrow> x \<in> set xs"
  by (cases xs) auto

text \<open>The neighbours of a position in a list with a header on either side.\<close>

lemma last_Cons_in: "last (x # xs) \<in> insert x (set xs)"
  by (induction xs arbitrary: x) auto

lemma hd_snoc_in: "hd (xs @ [y]) \<in> insert y (set xs)"
  by (cases xs) auto

lemma notin_three:
  "x \<notin> A \<union> B \<union> C \<Longrightarrow> a \<in> A \<Longrightarrow> b \<in> B \<Longrightarrow> c \<in> C \<Longrightarrow> x \<notin> {a, b, c}"
  by blast

section \<open>Words\<close>

text \<open>Loops that count a word up to a bound.\<close>

lemma unat_Suc_less: "unat (i + 1) = Suc (unat i)" if "i < n" for i n :: "'a::len word"
proof -
  have "Suc (unat i) \<le> unat n" using that by (simp add: word_less_nat_alt Suc_le_eq)
  also have "unat n < 2 ^ LENGTH('a)" by (rule unsigned_less)
  finally show ?thesis by (simp add: unat_word_ariths)
qed

lemma loop_measure: "i < n \<Longrightarrow> unat (n - (i + 1)) < unat (n - i)" for i n :: "'a::len word"
  using unat_Suc_less [of i n] by (simp add: unat_sub_if' word_less_nat_alt)

lemma unat_add_small:
  "unat a + unat b < 2 ^ LENGTH('a) \<Longrightarrow> unat (a + b) = unat a + unat b" for a b :: "'a::len word"
  by (simp add: unat_word_ariths)

lemma sint_of_nat_small: "sint (of_nat n :: 'a::len word) = int n" if "n < 2 ^ (LENGTH('a) - 1)"
proof -
  have "int n < 2 ^ (LENGTH('a) - 1)" using that by (simp flip: of_nat_less_iff)
  moreover have "- (2 ^ (LENGTH('a) - 1)) \<le> int n"
    by (meson le_minus_iff neg_le_0_iff_le of_nat_0_le_iff order_trans zero_le_numeral zero_le_power)
  ultimately show ?thesis
    by (simp add: signed_of_nat signed_take_bit_int_eq_self)
qed

lemma sint_of_int_small:
  "\<lbrakk>- (2 ^ (LENGTH('a) - 1)) \<le> i; i < 2 ^ (LENGTH('a) - 1)\<rbrakk> \<Longrightarrow> sint (of_int i :: 'a::len word) = i"
  by (simp add: signed_of_int signed_take_bit_int_eq_self)

end
