(* ===== verification/Klist.thy ===== *)
theory Klist
  imports Prelude
begin

text \<open>
  The doubly linked list of \<open>lib/kernel/list.c\<close>: element links live in a heap, a
  \<open>struct list\<close> is an address with two embedded header elements, and every operation is the
  sequence of pointer assignments of the source. The predicate \<open>dlist h l xs\<close> relates the
  list at address \<open>l\<close> to the HOL list of its interior elements; the lemmas show what each
  operation does to that list and which heap cells it leaves alone.
\<close>

section \<open>The heap of list elements\<close>

text \<open>\<open>struct list_elem\<close>: one map per field, indexed by the element's address.\<close>

record lheap =
  lprev :: "ptr \<Rightarrow> ptr"
  lnext :: "ptr \<Rightarrow> ptr"

text \<open>\<open>struct list\<close>: the two header elements at offsets 0 and 8 of the list's address.\<close>

definition head_of :: "ptr \<Rightarrow> ptr" where
  "head_of l = l"

definition tail_of :: "ptr \<Rightarrow> ptr" where
  "tail_of l = l + 8"

text \<open>The address of a link field (\<open>&p->prev\<close>, \<open>&p->next\<close>), read and written through a
  pointer that must not be null.\<close>

datatype link_addr = Prev ptr | Next ptr

fun load :: "lheap \<Rightarrow> link_addr \<Rightarrow> ptr option" where
  "load h (Prev p) = (if p = NULL then None else Some (lprev h p))"
| "load h (Next p) = (if p = NULL then None else Some (lnext h p))"

fun store :: "lheap \<Rightarrow> link_addr \<Rightarrow> ptr \<Rightarrow> lheap option" where
  "store h (Prev p) v = (if p = NULL then None else Some (h\<lparr>lprev := (lprev h)(p := v)\<rparr>))"
| "store h (Next p) v = (if p = NULL then None else Some (h\<lparr>lnext := (lnext h)(p := v)\<rparr>))"

section \<open>Operations\<close>

definition is_head :: "lheap \<Rightarrow> ptr \<Rightarrow> bool" where
  "is_head h elem \<longleftrightarrow> elem \<noteq> NULL \<and> lprev h elem = NULL \<and> lnext h elem \<noteq> NULL"

definition is_interior :: "lheap \<Rightarrow> ptr \<Rightarrow> bool" where
  "is_interior h elem \<longleftrightarrow> elem \<noteq> NULL \<and> lprev h elem \<noteq> NULL \<and> lnext h elem \<noteq> NULL"

definition is_tail :: "lheap \<Rightarrow> ptr \<Rightarrow> bool" where
  "is_tail h elem \<longleftrightarrow> elem \<noteq> NULL \<and> lprev h elem \<noteq> NULL \<and> lnext h elem = NULL"

definition list_init :: "lheap \<Rightarrow> ptr \<Rightarrow> lheap option" where
  "list_init h l = do {
     ASSERT (l \<noteq> NULL);
     h \<leftarrow> store h (Prev (head_of l)) NULL;
     h \<leftarrow> store h (Next (head_of l)) (tail_of l);
     h \<leftarrow> store h (Prev (tail_of l)) (head_of l);
     store h (Next (tail_of l)) NULL
   }"

definition list_begin :: "lheap \<Rightarrow> ptr \<Rightarrow> ptr option" where
  "list_begin h l = do {
     ASSERT (l \<noteq> NULL);
     load h (Next (head_of l))
   }"

definition list_next :: "lheap \<Rightarrow> ptr \<Rightarrow> ptr option" where
  "list_next h elem = do {
     ASSERT (is_head h elem \<or> is_interior h elem);
     load h (Next elem)
   }"

definition list_end :: "ptr \<Rightarrow> ptr option" where
  "list_end l = do {
     ASSERT (l \<noteq> NULL);
     Some (tail_of l)
   }"

definition list_rbegin :: "lheap \<Rightarrow> ptr \<Rightarrow> ptr option" where
  "list_rbegin h l = do {
     ASSERT (l \<noteq> NULL);
     load h (Prev (tail_of l))
   }"

definition list_prev :: "lheap \<Rightarrow> ptr \<Rightarrow> ptr option" where
  "list_prev h elem = do {
     ASSERT (is_interior h elem \<or> is_tail h elem);
     load h (Prev elem)
   }"

definition list_rend :: "ptr \<Rightarrow> ptr option" where
  "list_rend l = do {
     ASSERT (l \<noteq> NULL);
     Some (head_of l)
   }"

definition list_head :: "ptr \<Rightarrow> ptr option" where
  "list_head l = do {
     ASSERT (l \<noteq> NULL);
     Some (head_of l)
   }"

definition list_tail :: "ptr \<Rightarrow> ptr option" where
  "list_tail l = do {
     ASSERT (l \<noteq> NULL);
     Some (tail_of l)
   }"

definition list_insert :: "lheap \<Rightarrow> ptr \<Rightarrow> ptr \<Rightarrow> lheap option" where
  "list_insert h before elem = do {
     ASSERT (is_interior h before \<or> is_tail h before);
     ASSERT (elem \<noteq> NULL);
     p \<leftarrow> load h (Prev before);
     h \<leftarrow> store h (Prev elem) p;
     h \<leftarrow> store h (Next elem) before;
     p \<leftarrow> load h (Prev before);
     h \<leftarrow> store h (Next p) elem;
     store h (Prev before) elem
   }"

definition list_splice :: "lheap \<Rightarrow> ptr \<Rightarrow> ptr \<Rightarrow> ptr \<Rightarrow> lheap option" where
  "list_splice h before first lst = do {
     ASSERT (is_interior h before \<or> is_tail h before);
     if first = lst then Some h
     else do {
       lst \<leftarrow> list_prev h lst;
       ASSERT (is_interior h first);
       ASSERT (is_interior h lst);
       p \<leftarrow> load h (Prev first);
       n \<leftarrow> load h (Next lst);
       h \<leftarrow> store h (Next p) n;
       n \<leftarrow> load h (Next lst);
       p \<leftarrow> load h (Prev first);
       h \<leftarrow> store h (Prev n) p;
       p \<leftarrow> load h (Prev before);
       h \<leftarrow> store h (Prev first) p;
       h \<leftarrow> store h (Next lst) before;
       p \<leftarrow> load h (Prev before);
       h \<leftarrow> store h (Next p) first;
       store h (Prev before) lst
     }
   }"

definition list_push_front :: "lheap \<Rightarrow> ptr \<Rightarrow> ptr \<Rightarrow> lheap option" where
  "list_push_front h l elem = do {
     b \<leftarrow> list_begin h l;
     list_insert h b elem
   }"

definition list_push_back :: "lheap \<Rightarrow> ptr \<Rightarrow> ptr \<Rightarrow> lheap option" where
  "list_push_back h l elem = do {
     e \<leftarrow> list_end l;
     list_insert h e elem
   }"

definition list_remove :: "lheap \<Rightarrow> ptr \<Rightarrow> (ptr \<times> lheap) option" where
  "list_remove h elem = do {
     ASSERT (is_interior h elem);
     p \<leftarrow> load h (Prev elem);
     n \<leftarrow> load h (Next elem);
     h \<leftarrow> store h (Next p) n;
     n \<leftarrow> load h (Next elem);
     p \<leftarrow> load h (Prev elem);
     h \<leftarrow> store h (Prev n) p;
     n \<leftarrow> load h (Next elem);
     Some (n, h)
   }"

definition list_empty :: "lheap \<Rightarrow> ptr \<Rightarrow> bool option" where
  "list_empty h l = do {
     b \<leftarrow> list_begin h l;
     e \<leftarrow> list_end l;
     Some (b = e)
   }"

definition list_front :: "lheap \<Rightarrow> ptr \<Rightarrow> ptr option" where
  "list_front h l = do {
     e \<leftarrow> list_empty h l;
     ASSERT (\<not> e);
     load h (Next (head_of l))
   }"

definition list_back :: "lheap \<Rightarrow> ptr \<Rightarrow> ptr option" where
  "list_back h l = do {
     e \<leftarrow> list_empty h l;
     ASSERT (\<not> e);
     load h (Prev (tail_of l))
   }"

definition list_pop_front :: "lheap \<Rightarrow> ptr \<Rightarrow> (ptr \<times> lheap) option" where
  "list_pop_front h l = do {
     front \<leftarrow> list_front h l;
     (_, h) \<leftarrow> list_remove h front;
     Some (front, h)
   }"

definition list_pop_back :: "lheap \<Rightarrow> ptr \<Rightarrow> (ptr \<times> lheap) option" where
  "list_pop_back h l = do {
     back \<leftarrow> list_back h l;
     (_, h) \<leftarrow> list_remove h back;
     Some (back, h)
   }"

text \<open>The loops of \<open>list_size\<close> and \<open>list_reverse\<close> follow the links until they meet the list
  tail; on a heap that is not a well-formed list they need not end.\<close>

partial_function (option) list_size_loop :: "lheap \<Rightarrow> ptr \<Rightarrow> ptr \<Rightarrow> u32 \<Rightarrow> u32 option" where
  "list_size_loop h l e cnt = do {
     t \<leftarrow> list_end l;
     if e \<noteq> t then do {
       e' \<leftarrow> list_next h e;
       list_size_loop h l e' (cnt + 1)
     } else Some cnt
   }"

definition list_size :: "lheap \<Rightarrow> ptr \<Rightarrow> u32 option" where
  "list_size h l = do {
     e \<leftarrow> list_begin h l;
     list_size_loop h l e 0
   }"

definition swap :: "lheap \<Rightarrow> link_addr \<Rightarrow> link_addr \<Rightarrow> lheap option" where
  "swap h a b = do {
     t \<leftarrow> load h a;
     u \<leftarrow> load h b;
     h \<leftarrow> store h a u;
     store h b t
   }"

partial_function (option) list_reverse_loop :: "lheap \<Rightarrow> ptr \<Rightarrow> ptr \<Rightarrow> lheap option" where
  "list_reverse_loop h l e = do {
     t \<leftarrow> list_end l;
     if e \<noteq> t then do {
       h \<leftarrow> swap h (Prev e) (Next e);
       e' \<leftarrow> load h (Prev e);
       list_reverse_loop h l e'
     } else Some h
   }"

definition list_reverse :: "lheap \<Rightarrow> ptr \<Rightarrow> lheap option" where
  "list_reverse h l = do {
     empty \<leftarrow> list_empty h l;
     if \<not> empty then do {
       e \<leftarrow> list_begin h l;
       h \<leftarrow> list_reverse_loop h l e;
       h \<leftarrow> swap h (Next (head_of l)) (Prev (tail_of l));
       n \<leftarrow> load h (Next (head_of l));
       p \<leftarrow> load h (Prev (tail_of l));
       swap h (Prev n) (Next p)
     } else Some h
   }"

declare list_size_loop.simps [code]
  list_reverse_loop.simps [code]

section \<open>The abstraction\<close>

text \<open>Consecutive elements point at each other.\<close>

fun linked :: "lheap \<Rightarrow> ptr list \<Rightarrow> bool" where
  "linked h [] = True"
| "linked h [p] = True"
| "linked h (p # q # ps) = (lnext h p = q \<and> lprev h q = p \<and> linked h (q # ps))"

definition nodes :: "ptr \<Rightarrow> ptr list \<Rightarrow> ptr list" where
  "nodes l xs = head_of l # xs @ [tail_of l]"

text \<open>The list at address \<open>l\<close> has exactly the interior elements \<open>xs\<close>, in this order.\<close>

definition dlist :: "lheap \<Rightarrow> ptr \<Rightarrow> ptr list \<Rightarrow> bool" where
  "dlist h l xs \<longleftrightarrow>
     l \<noteq> NULL \<and> lprev h (head_of l) = NULL \<and> lnext h (tail_of l) = NULL \<and>
     linked h (nodes l xs) \<and> distinct (nodes l xs) \<and> NULL \<notin> set xs"

text \<open>Two heaps that differ only on the elements of a set.\<close>

definition unchanged_outside :: "ptr set \<Rightarrow> lheap \<Rightarrow> lheap \<Rightarrow> bool" where
  "unchanged_outside S h h' \<longleftrightarrow>
     (\<forall>p. p \<notin> S \<longrightarrow> lprev h' p = lprev h p \<and> lnext h' p = lnext h p)"

subsection \<open>Links\<close>

lemma head_of_neq_tail_of [simp]: "head_of l \<noteq> tail_of l" "tail_of l \<noteq> head_of l"
  by (simp_all add: head_of_def tail_of_def)

lemma header_neq_NULL [simp]:
  "l \<noteq> NULL \<Longrightarrow> head_of l \<noteq> NULL" "tail_of l \<noteq> NULL" "NULL \<noteq> tail_of l"
  by (simp_all add: head_of_def tail_of_def NULL_def)

lemma linked_append:
  "linked h (xs @ ys) \<longleftrightarrow> linked h xs \<and> linked h ys \<and>
     (xs \<noteq> [] \<and> ys \<noteq> [] \<longrightarrow> lnext h (last xs) = hd ys \<and> lprev h (hd ys) = last xs)"
proof (induction h xs rule: linked.induct)
  case (2 h p)
  then show ?case by (cases ys) auto
qed auto

lemma linked_Cons:
  "linked h (p # ps) \<longleftrightarrow> linked h ps \<and> (ps \<noteq> [] \<longrightarrow> lnext h p = hd ps \<and> lprev h (hd ps) = p)"
  by (cases ps) auto

lemma linked_cong:
  assumes "\<And>p. p \<in> set (butlast xs) \<Longrightarrow> lnext h' p = lnext h p"
    and "\<And>p. p \<in> set (tl xs) \<Longrightarrow> lprev h' p = lprev h p"
  shows "linked h' xs = linked h xs"
  using assms
proof (induction h xs rule: linked.induct)
  case (3 h p q ps)
  have "linked h' (q # ps) = linked h (q # ps)"
    using "3.prems" by (intro "3.IH") (auto simp: list.set_sel(2))
  moreover have "lnext h' p = lnext h p" "lprev h' q = lprev h q"
    using "3.prems" by auto
  ultimately show ?case by simp
qed auto

lemma linked_unchanged:
  "unchanged_outside S h h' \<Longrightarrow> set xs \<inter> S = {} \<Longrightarrow> linked h' xs = linked h xs"
  by (rule linked_cong) (auto simp: unchanged_outside_def dest: in_set_butlastD in_set_tlD)

lemma unchanged_outside_refl [simp]: "unchanged_outside S h h"
  by (simp add: unchanged_outside_def)

lemma unchanged_outside_trans:
  "unchanged_outside S h h' \<Longrightarrow> unchanged_outside S h' h'' \<Longrightarrow> unchanged_outside S h h''"
  by (simp add: unchanged_outside_def)

lemma unchanged_outside_mono:
  "unchanged_outside S h h' \<Longrightarrow> S \<subseteq> T \<Longrightarrow> unchanged_outside T h h'"
  by (auto simp: unchanged_outside_def)

lemma set_nodes: "set (nodes l xs) = insert (head_of l) (insert (tail_of l) (set xs))"
  by (auto simp: nodes_def)

text \<open>A list none of whose elements changes stays the same list.\<close>

lemma dlist_unchanged [heap_frame]:
  assumes "dlist h l xs" and "unchanged_outside S h h'" and "set (nodes l xs) \<inter> S = {}"
  shows "dlist h' l xs"
  using assms linked_unchanged [OF assms(2,3)]
  by (auto simp: dlist_def unchanged_outside_def set_nodes)

subsection \<open>Stepping through a well-formed list\<close>

lemma dlistD:
  assumes "dlist h l xs"
  shows "l \<noteq> NULL" "lprev h (head_of l) = NULL" "lnext h (tail_of l) = NULL"
    "linked h (nodes l xs)" "distinct (nodes l xs)" "NULL \<notin> set xs"
  using assms by (simp_all add: dlist_def)

lemma dlist_begin: "dlist h l xs \<Longrightarrow> list_begin h l = Some (hd (xs @ [tail_of l]))"
  by (auto simp: list_begin_def dlist_def nodes_def linked_Cons)

lemma dlist_rbegin: "dlist h l xs \<Longrightarrow> list_rbegin h l = Some (last (head_of l # xs))"
  using linked_append [of h "head_of l # xs" "[tail_of l]"]
  by (auto simp: list_rbegin_def dlist_def nodes_def)

lemma dlist_end: "dlist h l xs \<Longrightarrow> list_end l = Some (tail_of l)"
  by (simp add: list_end_def dlist_def)

lemma dlist_NULL: "dlist h l xs \<Longrightarrow> NULL \<notin> set (nodes l xs)"
  by (auto simp: dlist_def nodes_def head_of_def)

text \<open>What the links of one element are, given its position in the list.\<close>

lemma dlist_split:
  assumes "dlist h l (xs @ e # ys)"
  shows "lnext h e = hd (ys @ [tail_of l])" "lprev h e = last (head_of l # xs)"
    "e \<noteq> NULL" "is_interior h e"
proof -
  have lk: "linked h ((head_of l # xs) @ [e] @ ys @ [tail_of l])"
    using assms by (simp add: dlist_def nodes_def)
  then show 1: "lnext h e = hd (ys @ [tail_of l])" and 2: "lprev h e = last (head_of l # xs)"
    unfolding linked_append by auto
  show "e \<noteq> NULL" using assms by (auto simp: dlist_def)
  have "NULL \<notin> set (nodes l (xs @ e # ys))" using assms by (rule dlist_NULL)
  then show "is_interior h e"
    using 1 2 last_Cons_in [of "head_of l" xs] hd_snoc_in [of ys "tail_of l"]
    by (auto simp: is_interior_def nodes_def simp del: last.simps)
qed

lemma dlist_tail_prev:
  assumes "dlist h l xs"
  shows "lprev h (tail_of l) = last (head_of l # xs)" "is_tail h (tail_of l)"
proof -
  have "linked h ((head_of l # xs) @ [tail_of l])"
    using assms by (simp add: dlist_def nodes_def)
  then show 1: "lprev h (tail_of l) = last (head_of l # xs)"
    unfolding linked_append by auto
  show "is_tail h (tail_of l)"
    using 1 assms dlist_NULL [OF assms] last_Cons_in [of "head_of l" xs]
    by (auto simp: is_tail_def dlist_def nodes_def simp del: last.simps)
qed

lemma dlist_next:
  "dlist h l (xs @ e # ys) \<Longrightarrow> list_next h e = Some (hd (ys @ [tail_of l]))"
  using dlist_split [of h l xs e ys] by (simp add: list_next_def)

lemma dlist_prev:
  "dlist h l (xs @ e # ys) \<Longrightarrow> list_prev h e = Some (last (head_of l # xs))"
  using dlist_split [of h l xs e ys] by (simp add: list_prev_def)

lemma dlist_prev_tail:
  "dlist h l xs \<Longrightarrow> list_prev h (tail_of l) = Some (last (head_of l # xs))"
  using dlist_tail_prev [of h l xs] by (simp add: list_prev_def)

lemma dlist_empty: "dlist h l xs \<Longrightarrow> list_empty h l = Some (xs = [])"
  using dlist_begin [of h l xs] dlist_end [of h l xs]
  by (cases xs) (auto simp: list_empty_def dlist_def nodes_def)

lemma dlist_front: "dlist h l (x # xs) \<Longrightarrow> list_front h l = Some x"
  using dlist_begin [of h l "x # xs"] dlist_empty [of h l "x # xs"]
  by (auto simp: list_front_def list_begin_def dlist_def)

lemma dlist_back: "dlist h l (xs @ [x]) \<Longrightarrow> list_back h l = Some x"
  using dlist_rbegin [of h l "xs @ [x]"] dlist_empty [of h l "xs @ [x]"]
  by (auto simp: list_back_def list_rbegin_def dlist_def)

subsection \<open>Insertion and removal\<close>

lemma dlist_list_init:
  assumes "l \<noteq> NULL"
  shows "\<exists>h'. list_init h l = Some h' \<and> dlist h' l [] \<and> unchanged_outside {head_of l, tail_of l} h h'"
  using assms by (auto simp: list_init_def dlist_def nodes_def unchanged_outside_def)

text \<open>Insertion between two non-empty linked segments.\<close>

lemma list_insert_linked:
  assumes lk: "linked h (A @ B)" and d: "distinct (A @ B)" and ne: "A \<noteq> []" "B \<noteq> []"
    and e: "e \<notin> set (A @ B)" "e \<noteq> NULL" and nn: "NULL \<notin> set (A @ B)"
  defines "h' \<equiv> h\<lparr>lprev := (lprev h)(e := last A, hd B := e),
                  lnext := (lnext h)(e := hd B, last A := e)\<rparr>"
  shows "list_insert h (hd B) e = Some h'" "linked h' (A @ e # B)"
proof -
  have hB: "hd B \<in> set B" "hd B \<notin> set A" "hd B \<noteq> NULL" 
    and lA: "last A \<in> set A" "last A \<notin> set B" "last A \<noteq> NULL"
    using d nn hd_in_set [OF ne(2)] last_in_set [OF ne(1)] by auto
  have j: "lprev h (hd B) = last A" using lk ne by (simp add: linked_append)
  then have "is_interior h (hd B) \<or> is_tail h (hd B)"
    using hB lA by (auto simp: is_interior_def is_tail_def)
  moreover have "e \<noteq> hd B" "e \<noteq> last A" using e hB lA by auto
  ultimately show "list_insert h (hd B) e = Some h'"
    using j e hB lA by (simp add: list_insert_def h'_def fun_upd_twist)
  have "linked h' A = linked h A"
    using d e last_notin_butlast [of A] ne hB
    by (intro linked_cong) (auto simp: h'_def dest: in_set_butlastD in_set_tlD)
  moreover have "linked h' B = linked h B"
    using d e hd_notin_tl [of B] ne lA
    by (intro linked_cong) (auto simp: h'_def dest: in_set_butlastD in_set_tlD)
  ultimately show "linked h' (A @ e # B)"
    using lk ne \<open>e \<noteq> hd B\<close> \<open>e \<noteq> last A\<close> e
    by (auto simp: linked_append linked_Cons h'_def)
qed

lemma dlist_list_insert:
  assumes dl: "dlist h l (xs @ ys)" and e: "e \<notin> set (nodes l (xs @ ys))" "e \<noteq> NULL"
  shows "\<exists>h'. list_insert h (hd (ys @ [tail_of l])) e = Some h' \<and> dlist h' l (xs @ e # ys) \<and>
    unchanged_outside (insert e (set (nodes l (xs @ ys)))) h h'"
proof -
  let ?A = "head_of l # xs" and ?B = "ys @ [tail_of l]"
  have AB: "nodes l (xs @ ys) = ?A @ ?B" by (simp add: nodes_def)
  have lk: "linked h (?A @ ?B)" "distinct (?A @ ?B)"
    using dl by (simp_all only: dlist_def AB)
  have nn: "NULL \<notin> set (?A @ ?B)" using dlist_NULL [OF dl] unfolding AB .
  have e': "e \<notin> set (?A @ ?B)" using e(1) unfolding AB .
  let ?h = "h\<lparr>lprev := (lprev h)(e := last ?A, hd ?B := e), lnext := (lnext h)(e := hd ?B, last ?A := e)\<rparr>"
  note ins = list_insert_linked [OF lk _ _ e' e(2) nn]
  have 1: "list_insert h (hd ?B) e = Some ?h" by (rule ins(1)) simp_all
  have 2: "linked ?h (?A @ e # ?B)" by (rule ins(2)) simp_all
  have hB: "hd ?B \<in> set ?B" by (rule hd_in_set) simp
  have lA: "last ?A \<in> set ?A" by (rule last_in_set) simp
  have ne: "head_of l \<noteq> hd ?B" "tail_of l \<noteq> last ?A" "e \<noteq> head_of l" "e \<noteq> tail_of l"
    using lk(2) e' hB lA by (auto simp del: last.simps)
  then have "lprev ?h (head_of l) = NULL" "lnext ?h (tail_of l) = NULL"
    using dl by (simp_all add: dlist_def del: last.simps)
  then have "dlist ?h l (xs @ e # ys)"
    using dl 2 e lk(2) e' by (auto simp: dlist_def nodes_def simp del: last.simps)
  moreover have "unchanged_outside (insert e (set (nodes l (xs @ ys)))) h ?h"
    using hB lA by (auto simp: unchanged_outside_def AB simp del: last.simps hd_append)
  ultimately show ?thesis using 1 by blast
qed

lemma list_remove_linked:
  assumes lk: "linked h (A @ e # B)" and d: "distinct (A @ e # B)" and ne: "A \<noteq> []" "B \<noteq> []"
    and nn: "NULL \<notin> set (A @ e # B)"
  defines "h' \<equiv> h\<lparr>lprev := (lprev h)(hd B := last A), lnext := (lnext h)(last A := hd B)\<rparr>"
  shows "list_remove h e = Some (hd B, h')" "linked h' (A @ B)"
proof -
  have hB: "hd B \<in> set B" "hd B \<notin> set A" "hd B \<noteq> NULL" "hd B \<noteq> e"
    and lA: "last A \<in> set A" "last A \<notin> set B" "last A \<noteq> NULL" "last A \<noteq> e"
    using d nn hd_in_set [OF ne(2)] last_in_set [OF ne(1)] by auto
  have j: "lprev h e = last A" "lnext h e = hd B"
    using lk ne by (auto simp: linked_append linked_Cons)
  then show "list_remove h e = Some (hd B, h')"
    using hB lA nn by (auto simp: list_remove_def is_interior_def h'_def)
  have "linked h' A = linked h A"
    using d last_notin_butlast [of A] ne hB
    by (intro linked_cong) (auto simp: h'_def dest: in_set_butlastD in_set_tlD)
  moreover have "linked h' B = linked h B"
    using d hd_notin_tl [of B] ne lA
    by (intro linked_cong) (auto simp: h'_def dest: in_set_butlastD in_set_tlD)
  ultimately show "linked h' (A @ B)"
    using lk ne by (auto simp: linked_append linked_Cons h'_def)
qed

lemma dlist_list_remove:
  assumes dl: "dlist h l (xs @ e # ys)"
  shows "\<exists>h'. list_remove h e = Some (hd (ys @ [tail_of l]), h') \<and> dlist h' l (xs @ ys) \<and>
    unchanged_outside (set (nodes l (xs @ ys))) h h'"
proof -
  let ?A = "head_of l # xs" and ?B = "ys @ [tail_of l]"
  have AB: "nodes l (xs @ e # ys) = ?A @ e # ?B" by (simp add: nodes_def)
  have lk: "linked h (?A @ e # ?B)" "distinct (?A @ e # ?B)"
    using dl by (simp_all only: dlist_def AB)
  have nn: "NULL \<notin> set (?A @ e # ?B)" using dlist_NULL [OF dl] unfolding AB .
  let ?h = "h\<lparr>lprev := (lprev h)(hd ?B := last ?A), lnext := (lnext h)(last ?A := hd ?B)\<rparr>"
  note rm = list_remove_linked [OF lk _ _ nn]
  have 1: "list_remove h e = Some (hd ?B, ?h)" by (rule rm(1)) simp_all
  have 2: "linked ?h (?A @ ?B)" by (rule rm(2)) simp_all
  have hB: "hd ?B \<in> set ?B" by (rule hd_in_set) simp
  have lA: "last ?A \<in> set ?A" by (rule last_in_set) simp
  have "head_of l \<noteq> hd ?B" "tail_of l \<noteq> last ?A"
    using lk(2) hB lA by (auto simp del: last.simps)
  then have "lprev ?h (head_of l) = NULL" "lnext ?h (tail_of l) = NULL"
    using dl by (simp_all add: dlist_def del: last.simps)
  then have "dlist ?h l (xs @ ys)"
    using dl 2 lk(2) by (auto simp: dlist_def nodes_def simp del: last.simps)
  moreover have "unchanged_outside (set (nodes l (xs @ ys))) h ?h"
    using hB lA by (auto simp: unchanged_outside_def nodes_def simp del: last.simps hd_append)
  ultimately show ?thesis using 1 by blast
qed

lemma dlist_push_front:
  assumes "dlist h l xs" and "e \<notin> set (nodes l xs)" and "e \<noteq> NULL"
  shows "\<exists>h'. list_push_front h l e = Some h' \<and> dlist h' l (e # xs) \<and>
    unchanged_outside (insert e (set (nodes l xs))) h h'"
  using dlist_list_insert [of h l "[]" xs e] dlist_begin [of h l xs] assms
  by (simp add: list_push_front_def)

lemma dlist_push_back:
  assumes "dlist h l xs" and "e \<notin> set (nodes l xs)" and "e \<noteq> NULL"
  shows "\<exists>h'. list_push_back h l e = Some h' \<and> dlist h' l (xs @ [e]) \<and>
    unchanged_outside (insert e (set (nodes l xs))) h h'"
  using dlist_list_insert [of h l xs "[]" e] dlist_end [of h l xs] assms
  by (simp add: list_push_back_def)

lemma dlist_pop_front:
  assumes "dlist h l (x # xs)"
  shows "\<exists>h'. list_pop_front h l = Some (x, h') \<and> dlist h' l xs \<and>
    unchanged_outside (set (nodes l xs)) h h'"
  using dlist_list_remove [of h l "[]" x xs] dlist_front [of h l x xs] assms
  by (auto simp: list_pop_front_def)

lemma dlist_pop_back:
  assumes "dlist h l (xs @ [x])"
  shows "\<exists>h'. list_pop_back h l = Some (x, h') \<and> dlist h' l xs \<and>
    unchanged_outside (set (nodes l xs)) h h'"
  using dlist_list_remove [of h l xs x "[]"] dlist_back [of h l xs x] assms
  by (auto simp: list_pop_back_def)

text \<open>Popping an empty list fails the assertion of \<open>list_front\<close> or \<open>list_back\<close>.\<close>

lemma dlist_pop_empty:
  "dlist h l [] \<Longrightarrow> list_pop_front h l = None \<and> list_pop_back h l = None"
  using dlist_empty [of h l "[]"]
  by (simp add: list_pop_front_def list_pop_back_def list_front_def list_back_def)

subsection \<open>Size\<close>

lemma list_size_loop_dlist:
  assumes "dlist h l (xs @ ys)"
  shows "list_size_loop h l (hd (ys @ [tail_of l])) cnt = Some (cnt + of_nat (length ys))"
  using assms
proof (induction ys arbitrary: xs cnt)
  case Nil
  then show ?case by (subst list_size_loop.simps) (simp add: dlist_end)
next
  case (Cons y ys)
  have "y \<noteq> tail_of l" using Cons.prems by (auto simp: dlist_def nodes_def)
  moreover have "list_size_loop h l (hd (ys @ [tail_of l])) (cnt + 1) =
      Some (cnt + 1 + of_nat (length ys))"
    using Cons.IH [of "xs @ [y]"] Cons.prems by simp
  ultimately show ?case
    using Cons.prems
    by (subst list_size_loop.simps) (simp add: dlist_end dlist_next algebra_simps)
qed

lemma dlist_size: "dlist h l xs \<Longrightarrow> list_size h l = Some (of_nat (length xs))"
  using list_size_loop_dlist [of h l "[]" xs 0] by (simp add: list_size_def dlist_begin)

subsection \<open>Reversal\<close>

text \<open>The heap with the two links of every element of a set exchanged.\<close>

definition flip_links :: "ptr set \<Rightarrow> lheap \<Rightarrow> lheap" where
  "flip_links S h = h\<lparr>lprev := (\<lambda>p. if p \<in> S then lnext h p else lprev h p),
                      lnext := (\<lambda>p. if p \<in> S then lprev h p else lnext h p)\<rparr>"

lemma flip_links_empty [simp]: "flip_links {} h = h"
  by (simp add: flip_links_def)

lemma flip_links_insert:
  assumes "e \<notin> S" and "e \<noteq> NULL"
  shows "swap (flip_links S h) (Prev e) (Next e) = Some (flip_links (insert e S) h)"
proof -
  have "(\<lambda>p. if p \<in> S then f p else g p)(e := f e) = (\<lambda>p. if p \<in> insert e S then f p else g p)"
    for f g :: "ptr \<Rightarrow> ptr"
    by auto
  with assms show ?thesis by (simp add: swap_def flip_links_def)
qed

lemma linked_rev: "linked h ps \<Longrightarrow> linked (flip_links UNIV h) (rev ps)"
proof (induction h ps rule: linked.induct)
  case (3 h p q ps)
  then show ?case by (auto simp: linked_append flip_links_def)
qed auto

lemma list_reverse_loop_dlist:
  assumes "dlist h l (xs @ ys)"
  shows "list_reverse_loop (flip_links (set xs) h) l (hd (ys @ [tail_of l])) =
    Some (flip_links (set (xs @ ys)) h)"
  using assms
proof (induction ys arbitrary: xs)
  case Nil
  then show ?case by (subst list_reverse_loop.simps) (simp add: dlist_end)
next
  case (Cons y ys)
  have y: "y \<noteq> tail_of l" "y \<notin> set xs" "y \<noteq> NULL" "lnext h y = hd (ys @ [tail_of l])"
    using Cons.prems dlist_split [OF Cons.prems] by (auto simp: dlist_def nodes_def)
  have "load (flip_links (insert y (set xs)) h) (Prev y) = Some (hd (ys @ [tail_of l]))"
    using y by (simp add: flip_links_def)
  moreover have "list_reverse_loop (flip_links (insert y (set xs)) h) l (hd (ys @ [tail_of l])) =
      Some (flip_links (set (xs @ y # ys)) h)"
    using Cons.IH [of "xs @ [y]"] Cons.prems by simp
  ultimately show ?case
    using Cons.prems y
    by (subst list_reverse_loop.simps) (simp add: dlist_end flip_links_insert del: load.simps)
qed

lemma dlist_ends:
  assumes "dlist h l xs" and "xs \<noteq> []"
  shows "lnext h (head_of l) = hd xs" "lprev h (tail_of l) = last xs"
    "lprev h (hd xs) = head_of l" "lnext h (last xs) = tail_of l" "linked h xs"
  using assms linked_append [of h "[head_of l]" "xs @ [tail_of l]"]
    linked_append [of h "xs" "[tail_of l]"]
  by (auto simp: dlist_def nodes_def)

lemma dlist_reverse:
  assumes dl: "dlist h l xs"
  shows "\<exists>h'. list_reverse h l = Some h' \<and> dlist h' l (rev xs) \<and>
    unchanged_outside (set (nodes l xs)) h h'"
proof (cases "xs = []")
  case True
  then show ?thesis using dl by (auto simp: list_reverse_def dlist_empty)
next
  case ne: False
  let ?H = "head_of l" and ?T = "tail_of l" and ?f = "flip_links (set xs) h"
  let ?a = "hd xs" and ?z = "last xs"
  note ends = dlist_ends [OF dl ne]
  have d: "distinct xs" "?H \<notin> set xs" "?T \<notin> set xs" and n: "l \<noteq> NULL" "NULL \<notin> set xs"
    using dl by (auto simp: dlist_def nodes_def)
  have az: "?a \<in> set xs" "?z \<in> set xs" using ne by simp_all
  then have neq: "?a \<noteq> ?H" "?a \<noteq> ?T" "?z \<noteq> ?H" "?z \<noteq> ?T" "?a \<noteq> NULL" "?z \<noteq> NULL"
    using d n by metis+
  have loop: "list_reverse_loop h l ?a = Some ?f"
    using list_reverse_loop_dlist [of h l "[]" xs] dl ne by simp
  define h' where "h' = ?f\<lparr>lprev := (lprev ?f)(?T := ?a, ?z := ?H), lnext := (lnext ?f)(?H := ?z, ?a := ?T)\<rparr>"
  have ff: "lnext ?f ?H = ?a" "lprev ?f ?T = ?z" "lprev ?f ?z = ?T" "lnext ?f ?a = ?H"
    using ends d az by (simp_all add: flip_links_def)
  have 1: "list_reverse h l = Some h'"
    using dl ne n neq ff loop
    by (simp add: list_reverse_def dlist_empty dlist_begin swap_def h'_def)
  have seg: "linked h' (rev xs) = linked (flip_links UNIV h) (rev xs)"
    using d n hd_notin_tl [of "rev xs"] last_notin_butlast [of "rev xs"] ne
    by (intro linked_cong)
      (auto simp: h'_def flip_links_def hd_rev last_rev dest: in_set_butlastD in_set_tlD)
  have hp: "lprev h' ?H = NULL" "lnext h' ?T = NULL" "lnext h' ?H = ?z" "lprev h' ?T = ?a"
      "lprev h' ?z = ?H" "lnext h' ?a = ?T"
    using dl d neq by (auto simp: h'_def flip_links_def dlist_def)
  then have "linked h' (nodes l (rev xs))"
    using seg linked_rev [OF ends(5)] ne
    by (simp add: nodes_def linked_append linked_Cons hd_rev last_rev hd_append)
  then have "dlist h' l (rev xs)"
    using dl hp by (auto simp: dlist_def nodes_def)
  moreover have "unchanged_outside (set (nodes l xs)) h h'"
    using az by (auto simp: unchanged_outside_def nodes_def h'_def flip_links_def)
  ultimately show ?thesis using 1 by blast
qed

subsection \<open>Splicing\<close>

lemma linked_segment:
  assumes "distinct xs"
    and "\<And>p. p \<in> set xs \<Longrightarrow> p \<noteq> last xs \<Longrightarrow> lnext h' p = lnext h p"
    and "\<And>p. p \<in> set xs \<Longrightarrow> p \<noteq> hd xs \<Longrightarrow> lprev h' p = lprev h p"
  shows "linked h' xs = linked h xs"
proof (cases "xs = []")
  case False
  with assms(1) have "last xs \<notin> set (butlast xs)" "hd xs \<notin> set (tl xs)"
    by (simp_all add: last_notin_butlast hd_notin_tl)
  then show ?thesis
    using assms(2,3) by (intro linked_cong) (metis in_set_butlastD, metis in_set_tlD)
qed simp

lemma linked_interior:
  assumes "linked h (A @ S @ C)" and "A \<noteq> []" "C \<noteq> []" and "NULL \<notin> set (A @ S @ C)" and "p \<in> set S"
  shows "is_interior h p"
proof -
  obtain u v where S: "S = u @ p # v" using \<open>p \<in> set S\<close> by (meson split_list)
  have "linked h ((A @ u) @ [p] @ (v @ C))" using assms(1) S by simp
  then have "lprev h p = last (A @ u)" "lnext h p = hd (v @ C)"
    unfolding linked_append using assms by auto
  moreover have "last (A @ u) \<in> set (A @ S @ C)" "hd (v @ C) \<in> set (A @ S @ C)"
    using last_in_set [of "A @ u"] hd_in_set [of "v @ C"] assms(2,3) unfolding S by auto
  ultimately show ?thesis
    using assms(4,5) by (metis UnCI is_interior_def set_append)
qed

text \<open>Moving a segment to the left, to the right, and from one list into another.\<close>

lemma list_splice_left:
  assumes lk: "linked h (A @ B @ S @ C)" and d: "distinct (A @ B @ S @ C)"
    and ne: "A \<noteq> []" "B \<noteq> []" "S \<noteq> []" "C \<noteq> []" and nn: "NULL \<notin> set (A @ B @ S @ C)"
  defines "h' \<equiv> h\<lparr>lprev := (lprev h)(hd C := last B, hd S := last A, hd B := last S),
                  lnext := (lnext h)(last B := hd C, last S := hd B, last A := hd S)\<rparr>"
  shows "list_splice h (hd B) (hd S) (hd C) = Some h'" "linked h' (A @ S @ B @ C)"
proof -
  have m: "last A \<in> set A" "hd B \<in> set B" "last B \<in> set B" "hd S \<in> set S" "last S \<in> set S"
    "hd C \<in> set C" using ne by simp_all
  then have nn': "last A \<noteq> NULL" "hd B \<noteq> NULL" "last B \<noteq> NULL" "hd S \<noteq> NULL" "last S \<noteq> NULL" "hd C \<noteq> NULL"
    using nn by auto
  have neq: "hd B \<noteq> hd S" "hd B \<noteq> hd C" "hd S \<noteq> hd C" "last A \<noteq> last B" "last A \<noteq> last S" "last B \<noteq> last S"
    using m d by auto
  have j: "lnext h (last A) = hd B" "lprev h (hd B) = last A" "lnext h (last B) = hd S"
      "lprev h (hd S) = last B" "lnext h (last S) = hd C" "lprev h (hd C) = last S"
    and seg: "linked h A" "linked h B" "linked h S" "linked h C"
    using lk ne by (auto simp: linked_append)
  have "is_interior h (hd S)" "is_interior h (last S)"
    using linked_interior [of h "A @ B" S C] lk ne nn m by auto
  moreover have "is_interior h (hd B) \<or> is_tail h (hd B)" "is_interior h (hd C) \<or> is_tail h (hd C)"
    using j nn' by (auto simp: is_interior_def is_tail_def)
  ultimately show "list_splice h (hd B) (hd S) (hd C) = Some h'"
    using j nn' neq by (simp add: list_splice_def list_prev_def h'_def fun_upd_twist)
  have "linked h' A = linked h A" "linked h' B = linked h B" "linked h' S = linked h S" "linked h' C = linked h C"
    using d m by (intro linked_segment; auto simp: h'_def)+
  then show "linked h' (A @ S @ B @ C)"
    using ne neq seg by (auto simp: linked_append h'_def)
qed

lemma list_splice_right:
  assumes lk: "linked h (A @ S @ B @ C)" and d: "distinct (A @ S @ B @ C)"
    and ne: "A \<noteq> []" "B \<noteq> []" "S \<noteq> []" "C \<noteq> []" and nn: "NULL \<notin> set (A @ S @ B @ C)"
  defines "h' \<equiv> h\<lparr>lprev := (lprev h)(hd B := last A, hd S := last B, hd C := last S),
                  lnext := (lnext h)(last A := hd B, last S := hd C, last B := hd S)\<rparr>"
  shows "list_splice h (hd C) (hd S) (hd B) = Some h'" "linked h' (A @ B @ S @ C)"
proof -
  have m: "last A \<in> set A" "hd B \<in> set B" "last B \<in> set B" "hd S \<in> set S" "last S \<in> set S"
    "hd C \<in> set C" using ne by simp_all
  then have nn': "last A \<noteq> NULL" "hd B \<noteq> NULL" "last B \<noteq> NULL" "hd S \<noteq> NULL" "last S \<noteq> NULL" "hd C \<noteq> NULL"
    using nn by auto
  have neq: "hd B \<noteq> hd S" "hd B \<noteq> hd C" "hd S \<noteq> hd C" "last A \<noteq> last B" "last A \<noteq> last S" "last B \<noteq> last S"
    using m d by auto
  have j: "lnext h (last A) = hd S" "lprev h (hd S) = last A" "lnext h (last S) = hd B"
      "lprev h (hd B) = last S" "lnext h (last B) = hd C" "lprev h (hd C) = last B"
    and seg: "linked h A" "linked h B" "linked h S" "linked h C"
    using lk ne by (auto simp: linked_append)
  have "is_interior h (hd S)" "is_interior h (last S)"
    using linked_interior [of h A S "B @ C"] lk ne nn m by auto
  moreover have "is_interior h (hd B) \<or> is_tail h (hd B)" "is_interior h (hd C) \<or> is_tail h (hd C)"
    using j nn' by (auto simp: is_interior_def is_tail_def)
  ultimately show "list_splice h (hd C) (hd S) (hd B) = Some h'"
    using j nn' neq by (simp add: list_splice_def list_prev_def h'_def fun_upd_twist)
  have "linked h' A = linked h A" "linked h' B = linked h B" "linked h' S = linked h S" "linked h' C = linked h C"
    using d m by (intro linked_segment; auto simp: h'_def)+
  then show "linked h' (A @ B @ S @ C)"
    using ne neq seg by (auto simp: linked_append h'_def)
qed

lemma list_splice_other:
  assumes lk: "linked h (A @ S @ C)" "linked h (D @ E)" and d: "distinct (A @ S @ C @ D @ E)"
    and ne: "A \<noteq> []" "S \<noteq> []" "C \<noteq> []" "D \<noteq> []" "E \<noteq> []" and nn: "NULL \<notin> set (A @ S @ C @ D @ E)"
  defines "h' \<equiv> h\<lparr>lprev := (lprev h)(hd C := last A, hd S := last D, hd E := last S),
                  lnext := (lnext h)(last A := hd C, last S := hd E, last D := hd S)\<rparr>"
  shows "list_splice h (hd E) (hd S) (hd C) = Some h'" "linked h' (A @ C)" "linked h' (D @ S @ E)"
proof -
  have m: "last A \<in> set A" "hd S \<in> set S" "last S \<in> set S" "hd C \<in> set C" "last D \<in> set D" "hd E \<in> set E"
    using ne by simp_all
  then have nn': "last A \<noteq> NULL" "last D \<noteq> NULL" "hd E \<noteq> NULL" "hd S \<noteq> NULL" "last S \<noteq> NULL" "hd C \<noteq> NULL"
    using nn by auto
  have neq: "hd C \<noteq> hd S" "hd E \<noteq> hd S" "hd E \<noteq> hd C" "last A \<noteq> last D" "last A \<noteq> last S" "last D \<noteq> last S"
    using m d by auto
  have j: "lnext h (last A) = hd S" "lprev h (hd S) = last A" "lnext h (last S) = hd C"
      "lprev h (hd C) = last S" "lnext h (last D) = hd E" "lprev h (hd E) = last D"
    and seg: "linked h A" "linked h C" "linked h S" "linked h D" "linked h E"
    using lk ne by (auto simp: linked_append)
  have "is_interior h (hd S)" "is_interior h (last S)"
    using linked_interior [of h A S C] lk ne nn m by auto
  moreover have "is_interior h (hd C) \<or> is_tail h (hd C)" "is_interior h (hd E) \<or> is_tail h (hd E)"
    using j nn' by (auto simp: is_interior_def is_tail_def)
  ultimately show "list_splice h (hd E) (hd S) (hd C) = Some h'"
    using j nn' neq by (simp add: list_splice_def list_prev_def h'_def fun_upd_twist)
  have "linked h' A = linked h A" "linked h' C = linked h C" "linked h' S = linked h S"
    "linked h' D = linked h D" "linked h' E = linked h E"
    using d m by (intro linked_segment; auto simp: h'_def)+
  then show "linked h' (A @ C)" "linked h' (D @ S @ E)"
    using ne neq seg by (auto simp: linked_append h'_def)
qed

lemma dlist_splice_left:
  assumes dl: "dlist h l (P @ Q @ S @ R)" and ne: "Q \<noteq> []" "S \<noteq> []"
  shows "\<exists>h'. list_splice h (hd Q) (hd S) (hd (R @ [tail_of l])) = Some h' \<and>
    dlist h' l (P @ S @ Q @ R) \<and> unchanged_outside (set (nodes l (P @ Q @ S @ R))) h h'"
proof -
  let ?A = "head_of l # P" and ?C = "R @ [tail_of l]"
  have N: "nodes l (P @ Q @ S @ R) = ?A @ Q @ S @ ?C" by (simp add: nodes_def)
  define h' where "h' = h\<lparr>lprev := (lprev h)(hd ?C := last Q, hd S := last ?A, hd Q := last S),
              lnext := (lnext h)(last Q := hd ?C, last S := hd Q, last ?A := hd S)\<rparr>"
  have lk: "linked h (?A @ Q @ S @ ?C)" "distinct (?A @ Q @ S @ ?C)"
    using dl by (simp_all only: dlist_def N)
  have nn: "NULL \<notin> set (?A @ Q @ S @ ?C)" using dlist_NULL [OF dl] unfolding N .
  note sp = list_splice_left [OF lk _ ne _ nn, folded h'_def]
  have 1: "list_splice h (hd Q) (hd S) (hd ?C) = Some h'" by (rule sp(1)) simp_all
  have 2: "linked h' (?A @ S @ Q @ ?C)" by (rule sp(2)) simp_all
  have m: "last ?A \<in> set ?A" "last Q \<in> set Q" "last S \<in> set S"
      "hd ?C \<in> set ?C" "hd Q \<in> set Q" "hd S \<in> set S"
    by (rule last_in_set hd_in_set, use ne in simp)+
  have out: "head_of l \<notin> set ?C \<union> set S \<union> set Q" "tail_of l \<notin> set Q \<union> set S \<union> set ?A"
    using lk(2) by simp_all
  have "head_of l \<notin> {hd ?C, hd S, hd Q}" "tail_of l \<notin> {last Q, last S, last ?A}"
    using out m by (simp_all only: notin_three simp_thms)
  then have hp: "lprev h' (head_of l) = NULL" "lnext h' (tail_of l) = NULL"
    using dl by (simp_all add: dlist_def h'_def del: last.simps)
  have "distinct (nodes l (P @ S @ Q @ R))" using lk(2) by (auto simp: nodes_def)
  then have "dlist h' l (P @ S @ Q @ R)"
    using dl 2 hp by (simp add: dlist_def nodes_def)
  moreover have "unchanged_outside (set (nodes l (P @ Q @ S @ R))) h h'"
    unfolding unchanged_outside_def N
  proof (intro allI impI)
    fix p assume "p \<notin> set (?A @ Q @ S @ ?C)"
    with m have "p \<notin> {hd ?C, hd S, hd Q, last ?A, last S, last Q}"
      unfolding set_append by blast
    then show "lprev h' p = lprev h p \<and> lnext h' p = lnext h p"
      by (simp add: h'_def del: last.simps)
  qed
  ultimately show ?thesis using 1 by blast
qed

lemma dlist_splice_other:
  assumes dl: "dlist h l (P @ S @ R)" "dlist h k (U @ V)" and ne: "S \<noteq> []"
    and disj: "set (nodes l (P @ S @ R)) \<inter> set (nodes k (U @ V)) = {}"
  shows "\<exists>h'. list_splice h (hd (V @ [tail_of k])) (hd S) (hd (R @ [tail_of l])) = Some h' \<and>
    dlist h' l (P @ R) \<and> dlist h' k (U @ S @ V) \<and>
    unchanged_outside (set (nodes l (P @ S @ R)) \<union> set (nodes k (U @ V))) h h'"
proof -
  let ?A = "head_of l # P" and ?C = "R @ [tail_of l]" and ?D = "head_of k # U" and ?E = "V @ [tail_of k]"
  have N: "nodes l (P @ S @ R) = ?A @ S @ ?C" "nodes k (U @ V) = ?D @ ?E" by (simp_all add: nodes_def)
  define h' where "h' = h\<lparr>lprev := (lprev h)(hd ?C := last ?A, hd S := last ?D, hd ?E := last S),
              lnext := (lnext h)(last ?A := hd ?C, last S := hd ?E, last ?D := hd S)\<rparr>"
  have lk: "linked h (?A @ S @ ?C)" "linked h (?D @ ?E)"
    using dl by (simp_all only: dlist_def N)
  have d: "distinct (?A @ S @ ?C)" "distinct (?D @ ?E)"
    using dl by (simp_all only: dlist_def N)
  have dj: "set (?A @ S @ ?C) \<inter> set (?D @ ?E) = {}" using disj by (simp only: N)
  have "distinct ((?A @ S @ ?C) @ ?D @ ?E)"
    unfolding distinct_append [of "?A @ S @ ?C"] using d dj by blast
  then have dd: "distinct (?A @ S @ ?C @ ?D @ ?E)" by (simp only: append_assoc)
  have nn: "NULL \<notin> set (?A @ S @ ?C @ ?D @ ?E)"
    using dlist_NULL [OF dl(1)] dlist_NULL [OF dl(2)] by (simp add: nodes_def)
  note sp = list_splice_other [OF lk dd _ ne _ _ _ nn, folded h'_def]
  have 1: "list_splice h (hd ?E) (hd S) (hd ?C) = Some h'" by (rule sp(1)) simp_all
  have 2: "linked h' (?A @ ?C)" by (rule sp(2)) simp_all
  have 3: "linked h' (?D @ S @ ?E)" by (rule sp(3)) simp_all
  have m: "last ?A \<in> set ?A" "last ?D \<in> set ?D" "last S \<in> set S"
      "hd ?C \<in> set ?C" "hd ?E \<in> set ?E" "hd S \<in> set S"
    by (rule last_in_set hd_in_set, use ne in simp)+
  have out: "head_of l \<notin> set ?C \<union> set S \<union> set ?E" "head_of k \<notin> set ?C \<union> set S \<union> set ?E"
      "tail_of l \<notin> set ?A \<union> set S \<union> set ?D" "tail_of k \<notin> set ?A \<union> set S \<union> set ?D"
    using dd by simp_all
  have "head_of l \<notin> {hd ?C, hd S, hd ?E}" "head_of k \<notin> {hd ?C, hd S, hd ?E}"
      "tail_of l \<notin> {last ?A, last S, last ?D}" "tail_of k \<notin> {last ?A, last S, last ?D}"
    using out m by (simp_all only: notin_three simp_thms)
  then have hp: "lprev h' (head_of l) = NULL" "lprev h' (head_of k) = NULL"
      "lnext h' (tail_of l) = NULL" "lnext h' (tail_of k) = NULL"
    using dl by (simp_all add: dlist_def h'_def del: last.simps)
  have "distinct (nodes l (P @ R))" using d(1) by (auto simp: nodes_def)
  moreover have "distinct (nodes k (U @ S @ V))"
    using d dj unfolding nodes_def by (simp; blast)
  ultimately have "dlist h' l (P @ R)" "dlist h' k (U @ S @ V)"
    using dl 2 3 hp by (simp_all add: dlist_def nodes_def)
  moreover have "unchanged_outside (set (nodes l (P @ S @ R)) \<union> set (nodes k (U @ V))) h h'"
    unfolding unchanged_outside_def N
  proof (intro allI impI)
    fix p assume "p \<notin> set (?A @ S @ ?C) \<union> set (?D @ ?E)"
    with m have "p \<notin> {hd ?C, hd S, hd ?E, last ?A, last S, last ?D}"
      unfolding set_append by blast
    then show "lprev h' p = lprev h p \<and> lnext h' p = lnext h p"
      by (simp add: h'_def del: last.simps)
  qed
  ultimately show ?thesis using 1 by blast
qed

text \<open>The next element of a position is the same element exactly if nothing lies between.\<close>

lemma dlist_position_eq:
  assumes "dlist h l (P @ xs @ ys)"
  shows "hd (xs @ ys @ [tail_of l]) = hd (ys @ [tail_of l]) \<longleftrightarrow> xs = []"
proof (cases xs)
  case (Cons x xs')
  then have "x \<notin> set (ys @ [tail_of l])" using assms by (auto simp: dlist_def nodes_def)
  moreover have "hd (ys @ [tail_of l]) \<in> set (ys @ [tail_of l])" by (rule hd_in_set) simp
  ultimately show ?thesis using Cons by auto
qed simp

lemma dlist_prev_of:
  assumes "dlist h l (P @ x # ys)"
  shows "list_prev h (hd (ys @ [tail_of l])) = Some x"
proof (cases ys)
  case Nil
  then show ?thesis using assms dlist_prev_tail [of h l "P @ [x]"] by simp
next
  case (Cons y zs)
  then show ?thesis using assms dlist_prev [of h l "P @ [x]" y zs] by simp
qed

section \<open>Properties\<close>

text \<open>The list at address 100 that holds the elements at addresses 1, 2, 3, and an empty list at
  address 200.\<close>

definition sample_heap :: lheap where
  "sample_heap = \<lparr>lprev = (\<lambda>_. 0)(1 := 100, 2 := 1, 3 := 2, 108 := 3, 208 := 200),
                  lnext = (\<lambda>_. 0)(100 := 1, 1 := 2, 2 := 3, 3 := 108, 200 := 208)\<rparr>"

lemma sample_dlist: "dlist sample_heap 100 [1, 2, 3]" "dlist sample_heap 200 []"
  by (simp_all add: dlist_def nodes_def sample_heap_def head_of_def tail_of_def NULL_def)

text \<open>C17: inserting a fresh element before any position of a list puts it exactly there, removing
  it again returns the position it was inserted at and restores the sequence, and no cell outside
  the list and the element is written.\<close>

theorem list_insert_remove:
  assumes "dlist h l (xs @ ys)" "e \<notin> set (nodes l (xs @ ys))" "e \<noteq> NULL"
  shows "\<exists>h1 h2. list_insert h (hd (ys @ [tail_of l])) e = Some h1 \<and> dlist h1 l (xs @ e # ys) \<and>
    unchanged_outside (insert e (set (nodes l (xs @ ys)))) h h1 \<and>
    list_remove h1 e = Some (hd (ys @ [tail_of l]), h2) \<and> dlist h2 l (xs @ ys) \<and>
    unchanged_outside (set (nodes l (xs @ ys))) h1 h2"
  using dlist_list_insert [OF assms] dlist_list_remove by blast

theorem list_insert_remove_witness:
  "\<exists>h1 h2. list_insert sample_heap 2 5 = Some h1 \<and> dlist h1 100 [1, 5, 2, 3] \<and>
     list_remove h1 5 = Some (2, h2) \<and> dlist h2 100 [1, 2, 3]"
  using list_insert_remove [of sample_heap 100 "[1]" "[2, 3]" 5] sample_dlist(1)
  by (auto simp: nodes_def head_of_def tail_of_def NULL_def)

text \<open>C24: splicing a non-empty run of elements out of one list and into another, disjoint list
  moves exactly that run, in order, to the given position of the other list.\<close>

theorem list_splice_moves:
  assumes "dlist h l (P @ S @ R)" "dlist h k (U @ V)" "S \<noteq> []"
    and "set (nodes l (P @ S @ R)) \<inter> set (nodes k (U @ V)) = {}"
  shows "\<exists>h'. list_splice h (hd (V @ [tail_of k])) (hd S) (hd (R @ [tail_of l])) = Some h' \<and>
    dlist h' l (P @ R) \<and> dlist h' k (U @ S @ V) \<and>
    unchanged_outside (set (nodes l (P @ S @ R)) \<union> set (nodes k (U @ V))) h h'"
  by (rule dlist_splice_other [OF assms])

theorem list_splice_moves_witness:
  "\<exists>h'. list_splice sample_heap 208 2 108 = Some h' \<and> dlist h' 100 [1] \<and> dlist h' 200 [2, 3]"
  using list_splice_moves [of sample_heap 100 "[1]" "[2, 3]" "[]" 200 "[]" "[]"] sample_dlist
  by (auto simp: nodes_def head_of_def tail_of_def)

text \<open>C37: \<open>list_reverse\<close> terminates on every well-formed list and leaves the same elements in the
  opposite order, writing only the cells of the list.\<close>

theorem list_reverse_rev:
  assumes "dlist h l xs"
  shows "\<exists>h'. list_reverse h l = Some h' \<and> dlist h' l (rev xs) \<and>
    unchanged_outside (set (nodes l xs)) h h'"
  by (rule dlist_reverse [OF assms])

theorem list_reverse_rev_witness:
  "\<exists>h'. list_reverse sample_heap 100 = Some h' \<and> dlist h' 100 [3, 2, 1]"
  using list_reverse_rev [OF sample_dlist(1)] by auto

end
