(* ===== verification/Klist_Sort.thy ===== *)
theory Klist_Sort
  imports Klist
begin

text \<open>
  The ordered operations of \<open>lib/kernel/list.c\<close>: the natural merge sort \<open>list_sort\<close> with its
  helpers, \<open>list_insert_ordered\<close>, \<open>list_unique\<close>, \<open>list_max\<close> and \<open>list_min\<close>. The comparison
  function of the caller, with its auxiliary data, is the parameter \<open>lt\<close> (\<open>less\<close> in the source); the locale
  \<open>list_less\<close> states what \<open>list.h\<close> asks of it.
\<close>

type_synonym list_less_func = "ptr \<Rightarrow> ptr \<Rightarrow> bool"

section \<open>Operations\<close>

partial_function (option) is_sorted_loop ::
  "lheap \<Rightarrow> list_less_func \<Rightarrow> ptr \<Rightarrow> ptr \<Rightarrow> bool option" where
  "is_sorted_loop h lt a b = do {
     a \<leftarrow> list_next h a;
     if a \<noteq> b then do {
       p \<leftarrow> list_prev h a;
       if lt a p then Some False else is_sorted_loop h lt a b
     } else Some True
   }"

definition is_sorted :: "lheap \<Rightarrow> list_less_func \<Rightarrow> ptr \<Rightarrow> ptr \<Rightarrow> bool option" where
  "is_sorted h lt a b = (if a \<noteq> b then is_sorted_loop h lt a b else Some True)"

partial_function (option) find_end_of_run_loop ::
  "lheap \<Rightarrow> list_less_func \<Rightarrow> ptr \<Rightarrow> ptr \<Rightarrow> ptr option" where
  "find_end_of_run_loop h lt a b = do {
     a \<leftarrow> list_next h a;
     if a \<noteq> b then do {
       p \<leftarrow> list_prev h a;
       if \<not> lt a p then find_end_of_run_loop h lt a b else Some a
     } else Some a
   }"

definition find_end_of_run :: "lheap \<Rightarrow> list_less_func \<Rightarrow> ptr \<Rightarrow> ptr \<Rightarrow> ptr option" where
  "find_end_of_run h lt a b = do {
     ASSERT (a \<noteq> NULL);
     ASSERT (b \<noteq> NULL);
     ASSERT (a \<noteq> b);
     find_end_of_run_loop h lt a b
   }"

partial_function (option) inplace_merge_loop ::
  "lheap \<Rightarrow> list_less_func \<Rightarrow> ptr \<Rightarrow> ptr \<Rightarrow> ptr \<Rightarrow> lheap option" where
  "inplace_merge_loop h lt a0 a1b0 b1 =
     (if a0 \<noteq> a1b0 \<and> a1b0 \<noteq> b1 then
        if \<not> lt a1b0 a0 then do {
          a0 \<leftarrow> list_next h a0;
          inplace_merge_loop h lt a0 a1b0 b1
        } else do {
          a1b0 \<leftarrow> list_next h a1b0;
          p \<leftarrow> list_prev h a1b0;
          h \<leftarrow> list_splice h a0 p a1b0;
          inplace_merge_loop h lt a0 a1b0 b1
        }
      else Some h)"

definition inplace_merge ::
  "lheap \<Rightarrow> list_less_func \<Rightarrow> ptr \<Rightarrow> ptr \<Rightarrow> ptr \<Rightarrow> lheap option" where
  "inplace_merge h lt a0 a1b0 b1 = do {
     ASSERT (a0 \<noteq> NULL);
     ASSERT (a1b0 \<noteq> NULL);
     ASSERT (b1 \<noteq> NULL);
     s \<leftarrow> is_sorted h lt a0 a1b0;
     ASSERT s;
     s \<leftarrow> is_sorted h lt a1b0 b1;
     ASSERT s;
     inplace_merge_loop h lt a0 a1b0 b1
   }"

text \<open>One pass of the outer loop of \<open>list_sort\<close>, with the number of output runs so far.\<close>

partial_function (option) list_sort_pass ::
  "lheap \<Rightarrow> ptr \<Rightarrow> list_less_func \<Rightarrow> ptr \<Rightarrow> u32 \<Rightarrow> (lheap \<times> u32) option" where
  "list_sort_pass h l lt a0 output_run_cnt = do {
     e \<leftarrow> list_end l;
     if a0 \<noteq> e then do {
       a1b0 \<leftarrow> find_end_of_run h lt a0 e;
       if a1b0 = e then Some (h, output_run_cnt + 1)
       else do {
         b1 \<leftarrow> find_end_of_run h lt a1b0 e;
         h \<leftarrow> inplace_merge h lt a0 a1b0 b1;
         list_sort_pass h l lt b1 (output_run_cnt + 1)
       }
     } else Some (h, output_run_cnt)
   }"

partial_function (option) list_sort_loop ::
  "lheap \<Rightarrow> ptr \<Rightarrow> list_less_func \<Rightarrow> lheap option" where
  "list_sort_loop h l lt = do {
     a0 \<leftarrow> list_begin h l;
     (h, output_run_cnt) \<leftarrow> list_sort_pass h l lt a0 0;
     if output_run_cnt > 1 then list_sort_loop h l lt else Some h
   }"

definition list_sort :: "lheap \<Rightarrow> ptr \<Rightarrow> list_less_func \<Rightarrow> lheap option" where
  "list_sort h l lt = do {
     ASSERT (l \<noteq> NULL);
     h \<leftarrow> list_sort_loop h l lt;
     b \<leftarrow> list_begin h l;
     e \<leftarrow> list_end l;
     s \<leftarrow> is_sorted h lt b e;
     ASSERT s;
     Some h
   }"

partial_function (option) insert_ordered_loop ::
  "lheap \<Rightarrow> ptr \<Rightarrow> list_less_func \<Rightarrow> ptr \<Rightarrow> ptr \<Rightarrow> ptr option" where
  "insert_ordered_loop h l lt elem e = do {
     t \<leftarrow> list_end l;
     if e \<noteq> t then
       if lt elem e then Some e
       else do {
         e \<leftarrow> list_next h e;
         insert_ordered_loop h l lt elem e
       }
     else Some e
   }"

definition list_insert_ordered :: "lheap \<Rightarrow> ptr \<Rightarrow> ptr \<Rightarrow> list_less_func \<Rightarrow> lheap option" where
  "list_insert_ordered h l elem lt = do {
     ASSERT (l \<noteq> NULL);
     ASSERT (elem \<noteq> NULL);
     e \<leftarrow> list_begin h l;
     e \<leftarrow> insert_ordered_loop h l lt elem e;
     list_insert h e elem
   }"

partial_function (option) list_unique_loop ::
  "lheap \<Rightarrow> ptr \<Rightarrow> ptr \<Rightarrow> list_less_func \<Rightarrow> ptr \<Rightarrow> lheap option" where
  "list_unique_loop h l duplicates lt elem = do {
     nxt \<leftarrow> list_next h elem;
     e \<leftarrow> list_end l;
     if nxt \<noteq> e then
       if \<not> lt elem nxt \<and> \<not> lt nxt elem then do {
         (_, h) \<leftarrow> list_remove h nxt;
         h \<leftarrow> (if duplicates \<noteq> NULL then list_push_back h duplicates nxt else Some h);
         list_unique_loop h l duplicates lt elem
       } else list_unique_loop h l duplicates lt nxt
     else Some h
   }"

definition list_unique :: "lheap \<Rightarrow> ptr \<Rightarrow> ptr \<Rightarrow> list_less_func \<Rightarrow> lheap option" where
  "list_unique h l duplicates lt = do {
     ASSERT (l \<noteq> NULL);
     empty \<leftarrow> list_empty h l;
     if empty then Some h
     else do {
       elem \<leftarrow> list_begin h l;
       list_unique_loop h l duplicates lt elem
     }
   }"

partial_function (option) list_max_loop ::
  "lheap \<Rightarrow> ptr \<Rightarrow> list_less_func \<Rightarrow> ptr \<Rightarrow> ptr \<Rightarrow> ptr option" where
  "list_max_loop h l lt mx e = do {
     t \<leftarrow> list_end l;
     if e \<noteq> t then do {
       e' \<leftarrow> list_next h e;
       list_max_loop h l lt (if lt mx e then e else mx) e'
     } else Some mx
   }"

definition list_max :: "lheap \<Rightarrow> ptr \<Rightarrow> list_less_func \<Rightarrow> ptr option" where
  "list_max h l lt = do {
     mx \<leftarrow> list_begin h l;
     t \<leftarrow> list_end l;
     if mx \<noteq> t then do {
       e \<leftarrow> list_next h mx;
       list_max_loop h l lt mx e
     } else Some mx
   }"

partial_function (option) list_min_loop ::
  "lheap \<Rightarrow> ptr \<Rightarrow> list_less_func \<Rightarrow> ptr \<Rightarrow> ptr \<Rightarrow> ptr option" where
  "list_min_loop h l lt mn e = do {
     t \<leftarrow> list_end l;
     if e \<noteq> t then do {
       e' \<leftarrow> list_next h e;
       list_min_loop h l lt (if lt e mn then e else mn) e'
     } else Some mn
   }"

definition list_min :: "lheap \<Rightarrow> ptr \<Rightarrow> list_less_func \<Rightarrow> ptr option" where
  "list_min h l lt = do {
     mn \<leftarrow> list_begin h l;
     t \<leftarrow> list_end l;
     if mn \<noteq> t then do {
       e \<leftarrow> list_next h mn;
       list_min_loop h l lt mn e
     } else Some mn
   }"

declare is_sorted_loop.simps [code]
  find_end_of_run_loop.simps [code]
  inplace_merge_loop.simps [code]
  list_sort_pass.simps [code]
  list_sort_loop.simps [code]
  insert_ordered_loop.simps [code]
  list_unique_loop.simps [code]
  list_max_loop.simps [code]
  list_min_loop.simps [code]

section \<open>Runs and merging on HOL lists\<close>

text \<open>The list split after its first run, the merge of two runs that prefers the first one, the
  number of runs, and one pass of the sort.\<close>

fun in_order :: "('a \<Rightarrow> 'a \<Rightarrow> bool) \<Rightarrow> 'a list \<Rightarrow> bool" where
  "in_order lt [] = True"
| "in_order lt [x] = True"
| "in_order lt (x # y # ys) = (\<not> lt y x \<and> in_order lt (y # ys))"

fun split_run :: "('a \<Rightarrow> 'a \<Rightarrow> bool) \<Rightarrow> 'a list \<Rightarrow> 'a list \<times> 'a list" where
  "split_run lt [] = ([], [])"
| "split_run lt [x] = ([x], [])"
| "split_run lt (x # y # ys) =
     (if lt y x then ([x], y # ys) else apfst ((#) x) (split_run lt (y # ys)))"

fun merge_runs :: "('a \<Rightarrow> 'a \<Rightarrow> bool) \<Rightarrow> 'a list \<Rightarrow> 'a list \<Rightarrow> 'a list" where
  "merge_runs lt [] ys = ys"
| "merge_runs lt xs [] = xs"
| "merge_runs lt (x # xs) (y # ys) =
     (if lt y x then y # merge_runs lt (x # xs) ys else x # merge_runs lt xs (y # ys))"

fun run_count :: "('a \<Rightarrow> 'a \<Rightarrow> bool) \<Rightarrow> 'a list \<Rightarrow> nat" where
  "run_count lt [] = 0"
| "run_count lt [x] = 1"
| "run_count lt (x # y # ys) = (if lt y x then 1 else 0) + run_count lt (y # ys)"

lemma split_run_concat: "fst (split_run lt xs) @ snd (split_run lt xs) = xs"
  by (induction lt xs rule: split_run.induct) auto

lemma split_run_ne [simp]: "fst (split_run lt xs) = [] \<longleftrightarrow> xs = []"
  by (induction lt xs rule: split_run.induct) auto

lemma split_run_shorter: "xs \<noteq> [] \<Longrightarrow> length (snd (split_run lt xs)) < length xs"
  by (induction lt xs rule: split_run.induct) auto

lemma split_run_shorter_twice:
  "\<lbrakk>xs \<noteq> []; snd (split_run lt xs) \<noteq> []\<rbrakk>
   \<Longrightarrow> length (snd (split_run lt (snd (split_run lt xs)))) < length xs"
  by (meson split_run_shorter less_trans)

function sort_pass :: "('a \<Rightarrow> 'a \<Rightarrow> bool) \<Rightarrow> 'a list \<Rightarrow> 'a list \<times> nat" where
  "sort_pass lt xs =
     (if xs = [] then ([], 0)
      else if snd (split_run lt xs) = [] then (xs, 1)
      else (merge_runs lt (fst (split_run lt xs)) (fst (split_run lt (snd (split_run lt xs))))
              @ fst (sort_pass lt (snd (split_run lt (snd (split_run lt xs))))),
            Suc (snd (sort_pass lt (snd (split_run lt (snd (split_run lt xs))))))))"
  by pat_completeness auto
termination
  by (relation "measure (\<lambda>(lt, xs). length xs)")
    (simp_all add: split_run_shorter_twice)

declare sort_pass.simps [simp del]

lemma sort_pass_Nil [simp]: "sort_pass lt [] = ([], 0)"
  by (simp add: sort_pass.simps)

lemma sort_pass_One: "split_run lt r = (r, []) \<Longrightarrow> r \<noteq> [] \<Longrightarrow> sort_pass lt r = (r, 1)"
  by (simp add: sort_pass.simps)

lemma sort_pass_Two:
  "\<lbrakk>split_run lt (r1 @ r2 @ s) = (r1, r2 @ s); split_run lt (r2 @ s) = (r2, s); r1 \<noteq> []; r2 \<noteq> []\<rbrakk>
   \<Longrightarrow> sort_pass lt (r1 @ r2 @ s) =
        (merge_runs lt r1 r2 @ fst (sort_pass lt s), Suc (snd (sort_pass lt s)))"
  by (subst sort_pass.simps) simp

text \<open>Induction over the runs of a list, two at a time, as the sort consumes them.\<close>

lemma runs_induct [case_names Nil One Two]:
  assumes "P []"
    and "\<And>r. \<lbrakk>split_run lt r = (r, []); r \<noteq> []\<rbrakk> \<Longrightarrow> P r"
    and "\<And>r1 r2 s. \<lbrakk>split_run lt (r1 @ r2 @ s) = (r1, r2 @ s); split_run lt (r2 @ s) = (r2, s);
           r1 \<noteq> []; r2 \<noteq> []; P s\<rbrakk> \<Longrightarrow> P (r1 @ r2 @ s)"
  shows "P xs"
proof (induction "length xs" arbitrary: xs rule: less_induct)
  case less
  obtain r1 s1 where 1: "split_run lt xs = (r1, s1)" by force
  obtain r2 s where 2: "split_run lt s1 = (r2, s)" by force
  have xs: "xs = r1 @ s1" and s1: "s1 = r2 @ s"
    using split_run_concat [of lt xs] split_run_concat [of lt s1] 1 2 by auto
  consider "xs = []" | "xs \<noteq> []" "s1 = []" | "s1 \<noteq> []" by blast
  then show ?case
  proof cases
    case 3
    then have ne: "r1 \<noteq> []" "r2 \<noteq> []"
      using split_run_ne [of lt xs] split_run_ne [of lt s1] 1 2 xs by auto
    then have "P s" using less xs s1 by simp
    then show ?thesis using assms(3) [of r1 r2 s] 1 2 ne xs s1 by simp
  qed (use assms(1,2) 1 xs in auto)
qed

lemma split_run_hd: "\<exists>r. fst (split_run lt (x # xs)) = x # r"
  by (cases xs) auto

lemma in_order_split_run: "in_order lt (fst (split_run lt xs))"
proof (induction lt xs rule: split_run.induct)
  case (3 lt x y ys)
  then show ?case using split_run_hd [of lt y ys] by auto
qed auto

lemma set_merge_runs: "set (merge_runs lt xs ys) = set xs \<union> set ys"
  by (induction lt xs ys rule: merge_runs.induct) auto

lemma mset_merge_runs: "mset (merge_runs lt xs ys) = mset xs + mset ys"
  by (induction lt xs ys rule: merge_runs.induct) auto

lemma run_count_append: "run_count lt (xs @ ys) \<le> run_count lt xs + run_count lt ys"
proof (induction lt xs rule: run_count.induct)
  case (2 lt x)
  then show ?case by (cases ys) auto
qed auto

lemma run_count_in_order: "in_order lt xs \<Longrightarrow> run_count lt xs \<le> 1"
  by (induction lt xs rule: in_order.induct) auto

lemma in_order_run_count: "run_count lt xs \<le> 1 \<Longrightarrow> in_order lt xs"
proof (induction lt xs rule: in_order.induct)
  case (3 lt x y ys)
  have "run_count lt (y # ys) > 0"
    by (induction lt "y # ys" arbitrary: y ys rule: run_count.induct) auto
  then show ?case using 3 by (auto split: if_splits)
qed auto

lemma run_count_split_run:
  "xs \<noteq> [] \<Longrightarrow> run_count lt xs = Suc (run_count lt (snd (split_run lt xs)))"
  by (induction lt xs rule: split_run.induct) auto

lemma mset_sort_pass: "mset (fst (sort_pass lt xs)) = mset xs"
  by (induction xs rule: runs_induct [of _ lt])
    (simp_all add: sort_pass_One sort_pass_Two mset_merge_runs)

lemma run_count_Two:
  assumes "split_run lt (r1 @ r2 @ s) = (r1, r2 @ s)" "split_run lt (r2 @ s) = (r2, s)"
    "r1 \<noteq> []" "r2 \<noteq> []"
  shows "run_count lt (r1 @ r2 @ s) = Suc (Suc (run_count lt s))"
  using assms run_count_split_run [of "r1 @ r2 @ s" lt] run_count_split_run [of "r2 @ s" lt] by simp

lemma run_count_One:
  "split_run lt r = (r, []) \<Longrightarrow> r \<noteq> [] \<Longrightarrow> run_count lt r = 1"
  using run_count_split_run [of r lt] by simp

lemma sort_pass_count: "2 * snd (sort_pass lt xs) \<le> Suc (run_count lt xs)"
  by (induction xs rule: runs_induct [of _ lt])
    (simp_all add: sort_pass_One sort_pass_Two run_count_One run_count_Two)

section \<open>The heap operations refine the list functions\<close>

lemma dlist_hd_neq_tail: "dlist h l (P @ x # ys) \<Longrightarrow> x \<noteq> tail_of l"
  by (auto simp: dlist_def nodes_def)

lemma is_sorted_loop_dlist:
  "dlist h l (P @ x # xs @ R) \<Longrightarrow>
   is_sorted_loop h lt x (hd (R @ [tail_of l])) = Some (in_order lt (x # xs))"
proof (induction xs arbitrary: P x)
  case Nil
  then show ?case using dlist_next [of h l P x R] by (subst is_sorted_loop.simps) simp
next
  case (Cons y ys)
  have "y \<noteq> hd (R @ [tail_of l])"
    using dlist_position_eq [of h l "P @ [x]" "y # ys" R] Cons.prems by simp
  then show ?case
    using Cons.IH [of "P @ [x]" y] Cons.prems dlist_next [of h l P x "y # ys @ R"]
      dlist_prev_of [of h l P x "y # ys @ R"]
    by (subst is_sorted_loop.simps) simp
qed

lemma is_sorted_dlist:
  assumes "dlist h l (P @ xs @ R)"
  shows "is_sorted h lt (hd (xs @ R @ [tail_of l])) (hd (R @ [tail_of l])) = Some (in_order lt xs)"
proof (cases xs)
  case (Cons x zs)
  then show ?thesis
    using assms dlist_position_eq [OF assms] is_sorted_loop_dlist [of h l P x zs R lt]
    by (simp add: is_sorted_def)
qed (simp add: is_sorted_def)

lemma find_end_of_run_loop_dlist:
  "dlist h l (P @ x # ys) \<Longrightarrow>
   find_end_of_run_loop h lt x (tail_of l) = Some (hd (snd (split_run lt (x # ys)) @ [tail_of l]))"
proof (induction ys arbitrary: P x)
  case Nil
  then show ?case using dlist_next [of h l P x "[]"] by (subst find_end_of_run_loop.simps) simp
next
  case (Cons y ys)
  have "y \<noteq> tail_of l" using dlist_hd_neq_tail [of h l "P @ [x]" y ys] Cons.prems by simp
  then show ?case
    using Cons.IH [of "P @ [x]" y] Cons.prems dlist_next [of h l P x "y # ys"]
      dlist_prev_of [of h l P x "y # ys"]
    by (subst find_end_of_run_loop.simps) simp
qed

lemma find_end_of_run_dlist:
  assumes "dlist h l (P @ xs)" "xs \<noteq> []"
  shows "find_end_of_run h lt (hd (xs @ [tail_of l])) (tail_of l) =
    Some (hd (snd (split_run lt xs) @ [tail_of l]))"
proof (cases xs)
  case (Cons x ys)
  then show ?thesis
    using assms find_end_of_run_loop_dlist [of h l P x ys lt] dlist_hd_neq_tail [of h l P x ys]
      dlist_split(3) [of h l P x ys]
    by (simp add: find_end_of_run_def)
qed (use assms in simp)

lemma inplace_merge_loop_dlist:
  "dlist h l (P @ as @ bs @ R) \<Longrightarrow>
   \<exists>h'. inplace_merge_loop h lt (hd (as @ bs @ R @ [tail_of l])) (hd (bs @ R @ [tail_of l]))
           (hd (R @ [tail_of l])) = Some h' \<and>
     dlist h' l (P @ merge_runs lt as bs @ R) \<and>
     unchanged_outside (set (nodes l (P @ as @ bs @ R))) h h'"
proof (induction lt as bs arbitrary: h P rule: merge_runs.induct)
  case (1 lt ys)
  then show ?case by (subst inplace_merge_loop.simps) simp
next
  case (2 lt v va)
  then show ?case by (subst inplace_merge_loop.simps) simp
next
  case (3 lt x xs y ys)
  have ne: "x \<noteq> y" "y \<noteq> hd (R @ [tail_of l])"
    using 3 dlist_position_eq [of h l P "x # xs" "y # ys @ R"]
      dlist_position_eq [of h l "P @ x # xs" "y # ys" R] by simp_all
  show ?case
  proof (cases "lt y x")
    case False
    have "dlist h l ((P @ [x]) @ xs @ (y # ys) @ R)" using 3 by simp
    from "3.IH"(2) [OF False this] show ?thesis
      using dlist_next [of h l P x "xs @ (y # ys) @ R"] "3.prems" ne False
      by (subst inplace_merge_loop.simps) simp
  next
    case True
    from "3.prems" have dl: "dlist h l (P @ (x # xs) @ [y] @ ys @ R)" by simp
    from dlist_splice_left [OF dl] obtain h1
      where h1: "list_splice h x y (hd (ys @ R @ [tail_of l])) = Some h1"
        "dlist h1 l ((P @ [y]) @ (x # xs) @ ys @ R)"
        "unchanged_outside (set (nodes l (P @ (x # xs) @ [y] @ ys @ R))) h h1" by auto
    have nx: "list_next h y = Some (hd (ys @ R @ [tail_of l]))"
      "list_prev h (hd (ys @ R @ [tail_of l])) = Some y"
      using dlist_next [of h l "P @ x # xs" y "ys @ R"]
        dlist_prev_of [of h l "P @ x # xs" y "ys @ R"] dl by simp_all
    have eq: "set (nodes l ((P @ [y]) @ (x # xs) @ ys @ R)) = set (nodes l (P @ (x # xs) @ (y # ys) @ R))"
      by (auto simp: set_nodes)
    from "3.IH"(1) [OF True h1(2)] obtain h2
      where h2: "inplace_merge_loop h1 lt x (hd (ys @ R @ [tail_of l])) (hd (R @ [tail_of l])) = Some h2"
        "dlist h2 l (P @ merge_runs lt (x # xs) (y # ys) @ R)"
        "unchanged_outside (set (nodes l (P @ (x # xs) @ (y # ys) @ R))) h1 h2"
      unfolding eq using True by auto
    have "inplace_merge_loop h lt x y (hd (R @ [tail_of l])) = Some h2"
      using h1(1) h2(1) nx ne True by (subst inplace_merge_loop.simps) simp
    moreover have "unchanged_outside (set (nodes l (P @ (x # xs) @ (y # ys) @ R))) h h2"
      using unchanged_outside_trans [OF h1(3)] h2(3) by simp
    ultimately show ?thesis using h2(2) by simp
  qed
qed

lemma inplace_merge_dlist:
  assumes "dlist h l (P @ as @ bs @ R)" "in_order lt as" "in_order lt bs"
  shows "\<exists>h'. inplace_merge h lt (hd (as @ bs @ R @ [tail_of l])) (hd (bs @ R @ [tail_of l]))
           (hd (R @ [tail_of l])) = Some h' \<and>
     dlist h' l (P @ merge_runs lt as bs @ R) \<and>
     unchanged_outside (set (nodes l (P @ as @ bs @ R))) h h'"
proof -
  have "hd (as @ bs @ R @ [tail_of l]) \<in> set (nodes l (P @ as @ bs @ R))"
    "hd (bs @ R @ [tail_of l]) \<in> set (nodes l (P @ as @ bs @ R))"
    "hd (R @ [tail_of l]) \<in> set (nodes l (P @ as @ bs @ R))"
    using hd_snoc_in [of "as @ bs @ R" "tail_of l"] hd_snoc_in [of "bs @ R" "tail_of l"]
      hd_snoc_in [of R "tail_of l"] by (auto simp: set_nodes)
  then have "hd (as @ bs @ R @ [tail_of l]) \<noteq> NULL" "hd (bs @ R @ [tail_of l]) \<noteq> NULL"
    "hd (R @ [tail_of l]) \<noteq> NULL"
    using dlist_NULL [OF assms(1)] by metis+
  then show ?thesis
    using inplace_merge_loop_dlist [OF assms(1), of lt] is_sorted_dlist [of h l P as "bs @ R" lt]
      is_sorted_dlist [of h l "P @ as" bs R lt] assms
    by (simp add: inplace_merge_def)
qed

lemma list_sort_pass_dlist:
  "dlist h l (P @ xs) \<Longrightarrow>
   \<exists>h'. list_sort_pass h l lt (hd (xs @ [tail_of l])) c =
          Some (h', c + of_nat (snd (sort_pass lt xs))) \<and>
     dlist h' l (P @ fst (sort_pass lt xs)) \<and>
     unchanged_outside (set (nodes l (P @ xs))) h h'"
proof (induction xs arbitrary: h P c rule: runs_induct [of _ lt])
  case Nil
  then show ?case using dlist_end [OF Nil] by (subst list_sort_pass.simps) simp
next
  case (One r)
  then have "hd (r @ [tail_of l]) \<noteq> tail_of l"
    using dlist_position_eq [of h l P r "[]"] by simp
  then show ?case
    using One dlist_end [OF One.prems] find_end_of_run_dlist [of h l P r lt]
    by (subst list_sort_pass.simps) (simp add: sort_pass_One)
next
  case (Two r1 r2 s)
  have ord: "in_order lt r1" "in_order lt r2"
    using in_order_split_run [of lt "r1 @ r2 @ s"] in_order_split_run [of lt "r2 @ s"] Two.hyps
    by simp_all
  have ne: "hd ((r1 @ r2 @ s) @ [tail_of l]) \<noteq> tail_of l" "hd (r2 @ s @ [tail_of l]) \<noteq> tail_of l"
    using dlist_position_eq [of h l P "r1 @ r2 @ s" "[]"]
      dlist_position_eq [of h l "P @ r1" "r2 @ s" "[]"] Two by simp_all
  have ends: "find_end_of_run h lt (hd ((r1 @ r2 @ s) @ [tail_of l])) (tail_of l)
      = Some (hd (r2 @ s @ [tail_of l]))"
    "find_end_of_run h lt (hd (r2 @ s @ [tail_of l])) (tail_of l) = Some (hd (s @ [tail_of l]))"
    using find_end_of_run_dlist [of h l P "r1 @ r2 @ s" lt]
      find_end_of_run_dlist [of h l "P @ r1" "r2 @ s" lt] Two by simp_all
  obtain h1 where h1: "inplace_merge h lt (hd (r1 @ r2 @ s @ [tail_of l])) (hd (r2 @ s @ [tail_of l]))
        (hd (s @ [tail_of l])) = Some h1"
      "dlist h1 l ((P @ merge_runs lt r1 r2) @ s)"
      "unchanged_outside (set (nodes l (P @ r1 @ r2 @ s))) h h1"
    using inplace_merge_dlist [OF Two.prems ord] by auto
  have eq: "set (nodes l ((P @ merge_runs lt r1 r2) @ s)) = set (nodes l (P @ r1 @ r2 @ s))"
    by (auto simp: set_nodes set_merge_runs)
  from Two.IH [OF h1(2), of "c + 1"] obtain h2
    where h2: "list_sort_pass h1 l lt (hd (s @ [tail_of l])) (c + 1) =
          Some (h2, c + 1 + of_nat (snd (sort_pass lt s)))"
      "dlist h2 l ((P @ merge_runs lt r1 r2) @ fst (sort_pass lt s))"
      "unchanged_outside (set (nodes l (P @ r1 @ r2 @ s))) h1 h2"
    unfolding eq by auto
  have "list_sort_pass h l lt (hd ((r1 @ r2 @ s) @ [tail_of l])) c =
      Some (h2, c + 1 + of_nat (snd (sort_pass lt s)))"
    using ne ends h1(1) h2(1) dlist_end [OF Two.prems] by (subst list_sort_pass.simps) simp
  then show ?case
    using h2 unchanged_outside_trans [OF h1(3) h2(3)] sort_pass_Two [OF Two.hyps]
    by (simp add: ac_simps)
qed

section \<open>What the comparison function promises\<close>

text \<open>A strict weak order: the contract of a \<open>list_less_func\<close>.\<close>

locale list_less =
  fixes lt :: "'a \<Rightarrow> 'a \<Rightarrow> bool"
  assumes lt_asym: "lt a b \<Longrightarrow> \<not> lt b a"
    and not_lt_trans: "\<not> lt b a \<Longrightarrow> \<not> lt c b \<Longrightarrow> \<not> lt c a"
begin

lemma not_lt_refl [simp]: "\<not> lt a a"
  using lt_asym by blast

lemma in_order_Cons: "in_order lt (x # xs) \<longleftrightarrow> (\<forall>y\<in>set xs. \<not> lt y x) \<and> in_order lt xs"
proof (induction xs arbitrary: x)
  case (Cons y ys)
  have "\<not> lt y x \<Longrightarrow> \<forall>z\<in>set ys. \<not> lt z y \<Longrightarrow> \<forall>z\<in>set ys. \<not> lt z x"
    using not_lt_trans by blast
  then show ?case using Cons.IH [of y] by auto
qed simp

lemma in_order_sorted: "in_order lt xs \<longleftrightarrow> sorted_wrt (\<lambda>a b. \<not> lt b a) xs"
  by (induction xs) (auto simp: in_order_Cons simp del: in_order.simps(3))

lemma in_order_merge_runs:
  "in_order lt xs \<Longrightarrow> in_order lt ys \<Longrightarrow> in_order lt (merge_runs lt xs ys)"
proof (induction xs arbitrary: ys)
  case (Cons x xs)
  note outer_IH = Cons.IH and outer_ord = Cons.prems(1)
  from Cons.prems show ?case
  proof (induction ys)
    case (Cons y ys)
    show ?case
    proof (cases "lt y x")
      case True
      then have "\<forall>z\<in>set xs. \<not> lt z y"
        using outer_ord lt_asym not_lt_trans unfolding in_order_Cons by blast
      then show ?thesis
        using Cons True lt_asym [OF True] by (simp add: in_order_Cons set_merge_runs del: in_order.simps(3)) blast
    next
      case False
      then have "\<forall>z\<in>set ys. \<not> lt z x"
        using Cons.prems(2) not_lt_trans unfolding in_order_Cons by blast
      then show ?thesis
        using Cons.prems False outer_IH [of "y # ys"]
        by (auto simp: in_order_Cons set_merge_runs simp del: in_order.simps(3))
    qed
  qed simp
qed simp

lemma run_count_sort_pass: "run_count lt (fst (sort_pass lt xs)) \<le> snd (sort_pass lt xs)"
proof (induction xs rule: runs_induct [of _ lt])
  case (One r)
  then show ?case by (simp add: sort_pass_One run_count_One)
next
  case (Two r1 r2 s)
  have "in_order lt r1" "in_order lt r2"
    using in_order_split_run [of lt "r1 @ r2 @ s"] in_order_split_run [of lt "r2 @ s"] Two.hyps
    by simp_all
  then have "run_count lt (merge_runs lt r1 r2) \<le> 1"
    by (intro run_count_in_order in_order_merge_runs)
  then show ?case
    using Two sort_pass_Two [OF Two.hyps]
      run_count_append [of lt "merge_runs lt r1 r2" "fst (sort_pass lt s)"] by simp
qed simp

text \<open>Merging keeps the elements of an equivalence class in their order, so the sort is stable.\<close>

lemma same_class_le:
  "\<lbrakk>\<not> lt x y; \<not> lt y x; \<not> lt x z; \<not> lt z x\<rbrakk> \<Longrightarrow> \<not> lt y z"
  using not_lt_trans by blast

lemma class_below:
  assumes "in_order lt (a # xs)" "lt b a" "\<not> lt x b" "\<not> lt b x"
  shows "filter (\<lambda>y. \<not> lt x y \<and> \<not> lt y x) (a # xs) = []"
proof -
  have "\<not> (\<not> lt x c \<and> \<not> lt c x)" if "c \<in> set (a # xs)" for c
  proof
    assume "\<not> lt x c \<and> \<not> lt c x"
    then have "\<not> lt b c" using assms(3,4) same_class_le by blast
    moreover have "\<not> lt c a" using that assms(1) by (auto simp: in_order_Cons)
    ultimately show False using assms(2) not_lt_trans by blast
  qed
  then show ?thesis unfolding filter_empty_conv by blast
qed

lemma filter_merge_runs:
  assumes "in_order lt xs" "in_order lt ys"
  shows "filter (\<lambda>y. \<not> lt x y \<and> \<not> lt y x) (merge_runs lt xs ys) =
    filter (\<lambda>y. \<not> lt x y \<and> \<not> lt y x) xs @ filter (\<lambda>y. \<not> lt x y \<and> \<not> lt y x) ys"
  using assms
proof (induction xs arbitrary: ys)
  case (Cons a xs)
  note outer_IH = Cons.IH and outer_ord = Cons.prems(1)
  from Cons.prems show ?case
  proof (induction ys)
    case (Cons b ys)
    have "in_order lt xs" "in_order lt ys" using Cons.prems by (simp_all add: in_order_Cons)
    then show ?case
      using outer_IH [of "b # ys"] Cons.IH [OF outer_ord] Cons.prems class_below [OF outer_ord, of b x]
      by (cases "lt b a"; cases "\<not> lt x b \<and> \<not> lt b x") (simp_all, blast?)
  qed simp
qed simp

lemma filter_sort_pass:
  "filter (\<lambda>y. \<not> lt x y \<and> \<not> lt y x) (fst (sort_pass lt xs)) =
   filter (\<lambda>y. \<not> lt x y \<and> \<not> lt y x) xs"
proof (induction xs rule: runs_induct [of _ lt])
  case (Two r1 r2 s)
  then show ?case
    using in_order_split_run [of lt "r1 @ r2 @ s"] in_order_split_run [of lt "r2 @ s"]
    by (simp add: sort_pass_Two filter_merge_runs)
qed (simp_all add: sort_pass_One)

end

lemma run_count_le_length: "run_count lt xs \<le> length xs"
  by (induction lt xs rule: run_count.induct) auto

lemma sort_pass_count_le: "snd (sort_pass lt xs) \<le> length xs"
  using sort_pass_count [of lt xs] run_count_le_length [of lt xs] by (cases xs) auto

section \<open>Sorting\<close>

definition same_key :: "('a \<Rightarrow> 'a \<Rightarrow> bool) \<Rightarrow> 'a \<Rightarrow> 'a \<Rightarrow> bool" where
  "same_key lt x y \<longleftrightarrow> \<not> lt x y \<and> \<not> lt y x"

lemma list_sort_loop_dlist:
  assumes lt: "list_less lt" and "dlist h l xs" "length xs < 2 ^ 32"
  shows "\<exists>h' ys. list_sort_loop h l lt = Some h' \<and> dlist h' l ys \<and> mset ys = mset xs \<and>
    in_order lt ys \<and> unchanged_outside (set (nodes l xs)) h h' \<and>
    (\<forall>x. filter (same_key lt x) ys = filter (same_key lt x) xs)"
  using assms(2,3)
proof (induction "run_count lt xs" arbitrary: h xs rule: less_induct)
  case less
  let ?n = "snd (sort_pass lt xs)" and ?zs = "fst (sort_pass lt xs)"
  from list_sort_pass_dlist [of h l "[]" xs lt 0] less.prems obtain h1
    where h1: "list_sort_pass h l lt (hd (xs @ [tail_of l])) 0 = Some (h1, of_nat ?n)"
      "dlist h1 l ?zs" "unchanged_outside (set (nodes l xs)) h h1" by auto
  have ms: "mset ?zs = mset xs" by (rule mset_sort_pass)
  then have len: "length ?zs = length xs" and st: "set (nodes l ?zs) = set (nodes l xs)"
    by (metis mset_eq_length, metis mset_eq_setD set_nodes)
  have flt: "filter (same_key lt x) ?zs = filter (same_key lt x) xs" for x
    using list_less.filter_sort_pass [OF lt, of x xs] by (simp add: same_key_def [abs_def])
  have rc: "run_count lt ?zs \<le> ?n" by (rule list_less.run_count_sort_pass [OF lt])
  have "?n < 2 ^ 32" using sort_pass_count_le [of lt xs] less.prems(2) by simp
  then have cmp: "(1 :: u32) < of_nat ?n \<longleftrightarrow> 1 < ?n"
    by (simp add: word_less_nat_alt unat_of_nat take_bit_nat_eq_self)
  have loop: "list_sort_loop h l lt = (if 1 < ?n then list_sort_loop h1 l lt else Some h1)"
    using dlist_begin [OF less.prems(1)] h1(1) cmp by (subst list_sort_loop.simps) simp
  show ?case
  proof (cases "1 < ?n")
    case True
    then have "run_count lt ?zs < run_count lt xs" using rc sort_pass_count [of lt xs] by simp
    from less.hyps [OF this h1(2)] len less.prems(2) obtain h' ys
      where "list_sort_loop h1 l lt = Some h'" "dlist h' l ys" "mset ys = mset xs" "in_order lt ys"
        "unchanged_outside (set (nodes l xs)) h1 h'"
        "\<forall>x. filter (same_key lt x) ys = filter (same_key lt x) xs"
      unfolding ms st flt by auto
    then show ?thesis using loop True unchanged_outside_trans [OF h1(3)] by auto
  next
    case False
    then have "in_order lt ?zs" using rc by (intro in_order_run_count) simp
    then show ?thesis using loop False h1 ms flt by auto
  qed
qed

lemma list_sort_dlist:
  assumes lt: "list_less lt" and dl: "dlist h l xs" and len: "length xs < 2 ^ 32"
  shows "\<exists>h' ys. list_sort h l lt = Some h' \<and> dlist h' l ys \<and> mset ys = mset xs \<and>
    sorted_wrt (\<lambda>a b. \<not> lt b a) ys \<and> unchanged_outside (set (nodes l xs)) h h' \<and>
    (\<forall>x. filter (same_key lt x) ys = filter (same_key lt x) xs)"
proof -
  from list_sort_loop_dlist [OF assms] obtain h' ys where
    *: "list_sort_loop h l lt = Some h'" "dlist h' l ys" "mset ys = mset xs" "in_order lt ys"
      "unchanged_outside (set (nodes l xs)) h h'"
      "\<forall>x. filter (same_key lt x) ys = filter (same_key lt x) xs" by blast
  have "list_sort h l lt = Some h'"
    using * dl dlist_begin [OF *(2)] dlist_end [OF *(2)] is_sorted_dlist [of h' l "[]" ys "[]" lt]
    by (simp add: list_sort_def dlist_def)
  then show ?thesis using * list_less.in_order_sorted [OF lt] by auto
qed

section \<open>Ordered insertion, extrema and duplicates\<close>

lemma insert_ordered_loop_dlist:
  "dlist h l (P @ xs) \<Longrightarrow>
   insert_ordered_loop h l lt elem (hd (xs @ [tail_of l])) =
     Some (hd (dropWhile (\<lambda>e. \<not> lt elem e) xs @ [tail_of l]))"
proof (induction xs arbitrary: P)
  case Nil
  then show ?case using dlist_end [OF Nil] by (subst insert_ordered_loop.simps) simp
next
  case (Cons x xs)
  then show ?case
    using dlist_end [OF Cons.prems] dlist_hd_neq_tail [of h l P x xs] dlist_next [of h l P x xs]
      Cons.IH [of "P @ [x]"]
    by (subst insert_ordered_loop.simps) simp
qed

lemma dlist_insert_ordered:
  assumes "dlist h l xs" "elem \<noteq> NULL" "elem \<notin> set (nodes l xs)"
  shows "\<exists>h'. list_insert_ordered h l elem lt = Some h' \<and>
    dlist h' l (takeWhile (\<lambda>e. \<not> lt elem e) xs @ elem # dropWhile (\<lambda>e. \<not> lt elem e) xs) \<and>
    unchanged_outside (insert elem (set (nodes l xs))) h h'"
proof -
  have "l \<noteq> NULL" using assms(1) by (simp add: dlist_def)
  then show ?thesis
    using insert_ordered_loop_dlist [of h l "[]" xs lt elem] dlist_begin [OF assms(1)] assms
      dlist_list_insert [of h l "takeWhile (\<lambda>e. \<not> lt elem e) xs" "dropWhile (\<lambda>e. \<not> lt elem e) xs" elem]
    by (simp add: list_insert_ordered_def)
qed

lemma list_max_loop_dlist:
  "dlist h l (P @ xs) \<Longrightarrow>
   list_max_loop h l lt m (hd (xs @ [tail_of l])) = Some (fold (\<lambda>e m. if lt m e then e else m) xs m)"
proof (induction xs arbitrary: P m)
  case Nil
  then show ?case using dlist_end [OF Nil] by (subst list_max_loop.simps) simp
next
  case (Cons x xs)
  then show ?case
    using dlist_end [OF Cons.prems] dlist_hd_neq_tail [of h l P x xs] dlist_next [of h l P x xs]
      Cons.IH [of "P @ [x]"]
    by (subst list_max_loop.simps) simp
qed

lemma list_min_loop_dlist:
  "dlist h l (P @ xs) \<Longrightarrow>
   list_min_loop h l lt m (hd (xs @ [tail_of l])) = Some (fold (\<lambda>e m. if lt e m then e else m) xs m)"
proof (induction xs arbitrary: P m)
  case Nil
  then show ?case using dlist_end [OF Nil] by (subst list_min_loop.simps) simp
next
  case (Cons x xs)
  then show ?case
    using dlist_end [OF Cons.prems] dlist_hd_neq_tail [of h l P x xs] dlist_next [of h l P x xs]
      Cons.IH [of "P @ [x]"]
    by (subst list_min_loop.simps) simp
qed

lemma dlist_max:
  assumes "dlist h l xs"
  shows "list_max h l lt = Some (case xs of [] \<Rightarrow> tail_of l
    | x # ys \<Rightarrow> fold (\<lambda>e m. if lt m e then e else m) ys x)"
  using assms dlist_begin [OF assms] dlist_end [OF assms]
    dlist_hd_neq_tail [of h l "[]"] dlist_next [of h l "[]"] list_max_loop_dlist [of h l "[hd xs]" "tl xs"]
  by (cases xs) (simp_all add: list_max_def)

lemma dlist_min:
  assumes "dlist h l xs"
  shows "list_min h l lt = Some (case xs of [] \<Rightarrow> tail_of l
    | x # ys \<Rightarrow> fold (\<lambda>e m. if lt e m then e else m) ys x)"
  using assms dlist_begin [OF assms] dlist_end [OF assms]
    dlist_hd_neq_tail [of h l "[]"] dlist_next [of h l "[]"] list_min_loop_dlist [of h l "[hd xs]" "tl xs"]
  by (cases xs) (simp_all add: list_min_def)

text \<open>The elements \<open>list_unique\<close> keeps and those it moves to the list of duplicates.\<close>

fun unique_adj :: "('a \<Rightarrow> 'a \<Rightarrow> bool) \<Rightarrow> 'a list \<Rightarrow> 'a list \<times> 'a list" where
  "unique_adj lt (x # y # ys) =
     (if \<not> lt x y \<and> \<not> lt y x then apsnd ((#) y) (unique_adj lt (x # ys))
      else apfst ((#) x) (unique_adj lt (y # ys)))"
| "unique_adj lt [x] = ([x], [])"
| "unique_adj lt [] = ([], [])"

lemma list_unique_loop_dlist:
  "\<lbrakk>dlist h l (P @ x # ys); dlist h d ds; set (nodes l (P @ x # ys)) \<inter> set (nodes d ds) = {}\<rbrakk> \<Longrightarrow>
   \<exists>h'. list_unique_loop h l d lt x = Some h' \<and>
     dlist h' l (P @ fst (unique_adj lt (x # ys))) \<and> dlist h' d (ds @ snd (unique_adj lt (x # ys))) \<and>
     unchanged_outside (set (nodes l (P @ x # ys)) \<union> set (nodes d ds)) h h'"
proof (induction lt "x # ys" arbitrary: h P x ys ds rule: unique_adj.induct)
  case (1 lt x y ys)
  have dn: "d \<noteq> NULL" using 1(4) by (simp add: dlist_def)
  have nx: "list_next h x = Some y" "y \<noteq> tail_of l" "list_end l = Some (tail_of l)"
    using 1(3) dlist_next [of h l P x "y # ys"] dlist_hd_neq_tail [of h l "P @ [x]" y ys]
      dlist_end by auto
  show ?case
  proof (cases "\<not> lt x y \<and> \<not> lt y x")
    case True
    have "dlist h l ((P @ [x]) @ y # ys)" using 1(3) by simp
    from dlist_list_remove [OF this] obtain h1 where h1:
      "list_remove h y = Some (hd (ys @ [tail_of l]), h1)" "dlist h1 l (P @ x # ys)"
      "unchanged_outside (set (nodes l (P @ x # ys))) h h1" by auto
    have d1: "dlist h1 d ds"
      by (rule dlist_unchanged [OF 1(4) h1(3)]) (use 1(5) in \<open>auto simp: set_nodes\<close>)
    have y: "y \<notin> set (nodes d ds)" "y \<noteq> NULL" "y \<notin> set (nodes l (P @ x # ys))"
      using 1(3,5) by (auto simp: dlist_def nodes_def)
    from dlist_push_back [OF d1 y(1,2)] obtain h2 where h2:
      "list_push_back h1 d y = Some h2" "dlist h2 d (ds @ [y])"
      "unchanged_outside (insert y (set (nodes d ds))) h1 h2" by auto
    have l2: "dlist h2 l (P @ x # ys)"
      by (rule dlist_unchanged [OF h1(2) h2(3)]) (use 1(5) y in \<open>auto simp: set_nodes\<close>)
    have dj: "set (nodes l (P @ x # ys)) \<inter> set (nodes d (ds @ [y])) = {}"
      using 1(5) y(3) by (auto simp: set_nodes)
    from 1(1) [OF True l2 h2(2) dj] obtain h3 where h3:
      "list_unique_loop h2 l d lt x = Some h3"
      "dlist h3 l (P @ fst (unique_adj lt (x # ys)))"
      "dlist h3 d (ds @ y # snd (unique_adj lt (x # ys)))"
      "unchanged_outside (set (nodes l (P @ x # ys)) \<union> set (nodes d (ds @ [y]))) h2 h3" by auto
    have "list_unique_loop h l d lt x = Some h3"
      using nx True h1(1) h2(1) h3(1) dn by (subst list_unique_loop.simps) simp
    moreover have "unchanged_outside (set (nodes l (P @ x # y # ys)) \<union> set (nodes d ds)) h h3"
      by (intro unchanged_outside_trans [OF unchanged_outside_mono [OF h1(3)]
            unchanged_outside_trans [OF unchanged_outside_mono [OF h2(3)] unchanged_outside_mono [OF h3(4)]]])
        (auto simp: set_nodes)
    ultimately show ?thesis using True h3(2,3) by auto
  next
    case False
    have "dlist h l ((P @ [x]) @ y # ys)" using 1(3) by simp
    from 1(2) [OF False this 1(4)] 1(5) show ?thesis
      using nx False by (subst list_unique_loop.simps) auto
  qed
next
  case (2 lt x)
  then show ?case
    using dlist_next [of h l P x "[]"] dlist_end [of h l] by (subst list_unique_loop.simps) auto
qed

lemma list_unique_loop_NULL:
  "dlist h l (P @ x # ys) \<Longrightarrow>
   \<exists>h'. list_unique_loop h l NULL lt x = Some h' \<and>
     dlist h' l (P @ fst (unique_adj lt (x # ys))) \<and>
     unchanged_outside (set (nodes l (P @ x # ys))) h h'"
proof (induction lt "x # ys" arbitrary: h P x ys rule: unique_adj.induct)
  case (1 lt x y ys)
  have nx: "list_next h x = Some y" "y \<noteq> tail_of l" "list_end l = Some (tail_of l)"
    using 1(3) dlist_next [of h l P x "y # ys"] dlist_hd_neq_tail [of h l "P @ [x]" y ys]
      dlist_end by auto
  have l1: "dlist h l ((P @ [x]) @ y # ys)" using 1(3) by simp
  show ?case
  proof (cases "\<not> lt x y \<and> \<not> lt y x")
    case True
    from dlist_list_remove [OF l1] obtain h1 where h1:
      "list_remove h y = Some (hd (ys @ [tail_of l]), h1)" "dlist h1 l (P @ x # ys)"
      "unchanged_outside (set (nodes l (P @ x # ys))) h h1" by auto
    from 1(1) [OF True h1(2)] obtain h3 where h3:
      "list_unique_loop h1 l NULL lt x = Some h3"
      "dlist h3 l (P @ fst (unique_adj lt (x # ys)))"
      "unchanged_outside (set (nodes l (P @ x # ys))) h1 h3" by auto
    have "list_unique_loop h l NULL lt x = Some h3"
      using nx True h1(1) h3(1) by (subst list_unique_loop.simps) simp
    moreover have "unchanged_outside (set (nodes l (P @ x # y # ys))) h h3"
      by (rule unchanged_outside_mono [OF unchanged_outside_trans [OF h1(3) h3(3)]])
        (auto simp: set_nodes)
    ultimately show ?thesis using True h3(2) by auto
  next
    case False
    from 1(2) [OF False l1] show ?thesis
      using nx False by (subst list_unique_loop.simps) auto
  qed
next
  case (2 lt x)
  then show ?case
    using dlist_next [of h l P x "[]"] dlist_end [of h l] by (subst list_unique_loop.simps) auto
qed

lemma dlist_unique:
  assumes "dlist h l xs" "dlist h d ds" "set (nodes l xs) \<inter> set (nodes d ds) = {}"
  shows "\<exists>h'. list_unique h l d lt = Some h' \<and> dlist h' l (fst (unique_adj lt xs)) \<and>
    dlist h' d (ds @ snd (unique_adj lt xs)) \<and>
    unchanged_outside (set (nodes l xs) \<union> set (nodes d ds)) h h'"
proof (cases xs)
  case Nil
  then show ?thesis using assms dlist_empty [OF assms(1)] by (simp add: list_unique_def dlist_def)
next
  case (Cons x ys)
  then show ?thesis
    using list_unique_loop_dlist [of h l "[]" x ys d ds lt] assms dlist_empty [OF assms(1)]
      dlist_begin [OF assms(1)] dlistD(1) [OF assms(1)] by (simp add: list_unique_def)
qed

lemma mset_unique_adj: "mset (fst (unique_adj lt xs)) + mset (snd (unique_adj lt xs)) = mset xs"
  by (induction lt xs rule: unique_adj.induct) auto

lemma set_unique_adj: "set (fst (unique_adj lt xs)) \<subseteq> set xs"
  by (induction lt xs rule: unique_adj.induct) auto

context list_less
begin

lemma lt_trans: "lt a b \<Longrightarrow> lt b c \<Longrightarrow> lt a c"
  using lt_asym [of b c] not_lt_trans [of c b a] by blast

lemma lt_le_trans: "lt a b \<Longrightarrow> \<not> lt c b \<Longrightarrow> lt a c"
  using not_lt_trans [of c b a] by blast

lemma sorted_insert_ordered:
  assumes "sorted_wrt (\<lambda>a b. \<not> lt b a) xs"
  shows "sorted_wrt (\<lambda>a b. \<not> lt b a)
    (takeWhile (\<lambda>e. \<not> lt x e) xs @ x # dropWhile (\<lambda>e. \<not> lt x e) xs)"
  using assms
proof (induction xs)
  case (Cons y ys)
  have "\<forall>z\<in>set ys. lt x y \<longrightarrow> \<not> lt z x"
  proof (intro ballI impI)
    fix z assume "z \<in> set ys" "lt x y"
    then have "lt x z" using Cons.prems lt_le_trans [of x y z] by auto
    then show "\<not> lt z x" by (rule lt_asym)
  qed
  moreover have "set (takeWhile (\<lambda>e. \<not> lt x e) ys) \<union> set (dropWhile (\<lambda>e. \<not> lt x e) ys) = set ys"
    by (metis set_append takeWhile_dropWhile_id)
  moreover have "lt x y \<Longrightarrow> \<not> lt y x" by (rule lt_asym)
  ultimately show ?case using Cons by (cases "lt x y") auto
qed simp

lemma above_insert_ordered:
  "sorted_wrt (\<lambda>a b. \<not> lt b a) xs \<Longrightarrow> \<forall>z\<in>set (dropWhile (\<lambda>e. \<not> lt x e) xs). lt x z"
proof (induction xs)
  case (Cons y ys)
  have 1: "\<forall>z\<in>set ys. \<not> lt z y" and 2: "sorted_wrt (\<lambda>a b. \<not> lt b a) ys"
    using Cons.prems by simp_all
  have "dropWhile (\<lambda>e. \<not> lt x e) (y # ys) = (if lt x y then y # ys else dropWhile (\<lambda>e. \<not> lt x e) ys)"
    by simp
  moreover have "lt x z" if "lt x y" "z \<in> set (y # ys)" for z
    using that 1 lt_le_trans [of x y z] by (metis set_ConsD)
  ultimately show ?case using Cons.IH [OF 2] by metis
qed simp

lemma unique_adj_strict:
  "sorted_wrt (\<lambda>a b. \<not> lt b a) xs \<Longrightarrow> sorted_wrt lt (fst (unique_adj lt xs))"
proof (induction xs rule: length_induct)
  case (1 xs)
  show ?case
  proof (cases "(lt, xs)" rule: unique_adj.cases)
    case (1 lt' x y ys)
    have s: "sorted_wrt (\<lambda>a b. \<not> lt b a) (x # ys)" "sorted_wrt (\<lambda>a b. \<not> lt b a) (y # ys)" "\<not> lt y x"
      using "1.prems" 1 by auto
    have "lt x z" if "z \<in> set (fst (unique_adj lt (y # ys)))" "lt x y" for z
      using that set_unique_adj [of lt "y # ys"] s(2) lt_le_trans [of x y z] by auto
    then show ?thesis using "1.IH" 1 s by auto
  qed auto
qed

lemma same_key_trans: "same_key lt a b \<Longrightarrow> same_key lt a c \<Longrightarrow> same_key lt b c"
  unfolding same_key_def using not_lt_trans [of a c b] not_lt_trans [of a b c] by blast

lemma unique_adj_class:
  "\<forall>x\<in>set xs. \<exists>y\<in>set (fst (unique_adj lt xs)). same_key lt x y"
proof (induction xs rule: length_induct)
  case (1 xs)
  show ?case
  proof (cases "(lt, xs)" rule: unique_adj.cases)
    case (1 lt' a b ys)
    have "\<forall>c\<in>set (a # ys). \<exists>y\<in>set (fst (unique_adj lt (a # ys))). same_key lt c y"
        "\<forall>c\<in>set (b # ys). \<exists>y\<in>set (fst (unique_adj lt (b # ys))). same_key lt c y"
      using "1.IH" 1 by (simp_all del: unique_adj.simps)
    moreover have "same_key lt a b \<Longrightarrow> same_key lt a y \<Longrightarrow> same_key lt b y" for y
      by (rule same_key_trans)
    moreover have "same_key lt a a" by (simp add: same_key_def)
    ultimately show ?thesis using 1
      by (cases "same_key lt a b") (auto simp: same_key_def [of lt a b])
  qed (auto simp: same_key_def)
qed

lemma fold_max:
  fixes m xs
  defines "r \<equiv> fold (\<lambda>e m. if lt m e then e else m) xs m"
  shows "r \<in> set (m # xs)" "\<forall>x\<in>set (m # xs). \<not> lt r x"
  unfolding r_def
proof (induction xs arbitrary: m)
  case (Cons x xs)
  { case 1 show ?case using Cons.IH(1) by auto
  next
    case 2
    have "\<not> lt r x \<Longrightarrow> lt m x \<Longrightarrow> \<not> lt r m" for r using lt_trans [of r m x] by blast
    moreover have "\<not> lt r m \<Longrightarrow> \<not> lt m x \<Longrightarrow> \<not> lt r x" for r using not_lt_trans [of m x r] by blast
    ultimately show ?case using Cons.IH(2) [of "if lt m x then x else m"] by auto }
qed simp_all

lemma fold_min:
  fixes m xs
  defines "r \<equiv> fold (\<lambda>e m. if lt e m then e else m) xs m"
  shows "r \<in> set (m # xs)" "\<forall>x\<in>set (m # xs). \<not> lt x r"
  unfolding r_def
proof (induction xs arbitrary: m)
  case (Cons x xs)
  { case 1 show ?case using Cons.IH(1) by auto
  next
    case 2
    have "\<not> lt x r \<Longrightarrow> lt x m \<Longrightarrow> \<not> lt m r" for r using lt_trans [of x m r] by blast
    moreover have "\<not> lt m r \<Longrightarrow> \<not> lt x m \<Longrightarrow> \<not> lt x r" for r using not_lt_trans [of m r x] by blast
    ultimately show ?case using Cons.IH(2) [of "if lt x m then x else m"] by auto }
qed simp_all

end

section \<open>A comparison function\<close>

text \<open>The comparison of \<open>tests/internal/list.c\<close>, on the \<open>value\<close> member of the element: a signed
  comparison of 32-bit integers.\<close>

definition value_less :: "(ptr \<Rightarrow> u32) \<Rightarrow> list_less_func" where
  "value_less val a b \<longleftrightarrow> sint (val a) < sint (val b)"

interpretation value_less: list_less "value_less val" for val
  by unfold_locales (auto simp: value_less_def)

section \<open>Properties\<close>

text \<open>C3: for every comparison function that is a strict weak order, \<open>list_sort\<close> terminates on
  every list the kernel can count, keeps the elements, puts them in nondecreasing order, keeps equal
  elements in their original order, and writes only the cells of the list.\<close>

theorem list_sort_correct:
  assumes "list_less lt" "dlist h l xs" "length xs < 2 ^ 32"
  shows "\<exists>h' ys. list_sort h l lt = Some h' \<and> dlist h' l ys \<and> mset ys = mset xs \<and>
    sorted_wrt (\<lambda>a b. \<not> lt b a) ys \<and> unchanged_outside (set (nodes l xs)) h h' \<and>
    (\<forall>x. filter (same_key lt x) ys = filter (same_key lt x) xs)"
  by (rule list_sort_dlist [OF assms])

theorem list_sort_correct_witness:
  "\<exists>h' ys. list_sort sample_heap 100 (value_less ((\<lambda>_. 0)(1 := 7, 3 := -1))) = Some h' \<and>
     dlist h' 100 ys \<and> mset ys = {#1, 2, 3#}"
  using list_sort_correct [OF value_less.list_less_axioms sample_dlist(1),
      of "(\<lambda>_. 0)(1 := 7, 3 := -1)"] by (auto simp: add_mset_commute)

text \<open>C29: inserting a fresh element with \<open>list_insert_ordered\<close> into a sorted list puts it behind
  every element that is not greater and keeps the list sorted.\<close>

theorem list_insert_ordered_correct:
  assumes "list_less lt" "dlist h l xs" "sorted_wrt (\<lambda>a b. \<not> lt b a) xs"
    and "elem \<noteq> NULL" "elem \<notin> set (nodes l xs)"
  shows "\<exists>h' ys zs. list_insert_ordered h l elem lt = Some h' \<and> dlist h' l (ys @ elem # zs) \<and>
    xs = ys @ zs \<and> (\<forall>y\<in>set ys. \<not> lt elem y) \<and> (\<forall>z\<in>set zs. lt elem z) \<and>
    sorted_wrt (\<lambda>a b. \<not> lt b a) (ys @ elem # zs) \<and>
    unchanged_outside (insert elem (set (nodes l xs))) h h'"
proof -
  let ?ys = "takeWhile (\<lambda>e. \<not> lt elem e) xs" and ?zs = "dropWhile (\<lambda>e. \<not> lt elem e) xs"
  have "\<forall>z\<in>set ?zs. lt elem z"
    by (rule list_less.above_insert_ordered [OF assms(1,3)])
  then show ?thesis
    using dlist_insert_ordered [OF assms(2,4,5), of lt] list_less.sorted_insert_ordered [OF assms(1,3), of elem]
    by (metis set_takeWhileD takeWhile_dropWhile_id)
qed

theorem list_insert_ordered_correct_witness:
  "\<exists>h' ys zs. list_insert_ordered sample_heap 100 5 (value_less (\<lambda>p. of_nat p)) = Some h' \<and>
     dlist h' 100 (ys @ 5 # zs) \<and> [1, 2, 3] = ys @ zs"
proof -
  have "sorted_wrt (\<lambda>a b. \<not> value_less (\<lambda>p. of_nat p) b a) [1, 2, 3]"
    by (simp add: value_less_def)
  from list_insert_ordered_correct [OF value_less.list_less_axioms sample_dlist(1) this, of 5]
  show ?thesis by (auto simp: NULL_def nodes_def head_of_def tail_of_def)
qed

text \<open>C26: on a sorted list, \<open>list_unique\<close> leaves a strictly increasing list that still has an
  element of every key, and appends exactly the removed elements to the list of duplicates.\<close>

theorem list_unique_correct:
  assumes "list_less lt" "dlist h l xs" "sorted_wrt (\<lambda>a b. \<not> lt b a) xs"
    and "dlist h d ds" "set (nodes l xs) \<inter> set (nodes d ds) = {}"
  shows "\<exists>h' ys zs. list_unique h l d lt = Some h' \<and> dlist h' l ys \<and> dlist h' d (ds @ zs) \<and>
    mset ys + mset zs = mset xs \<and> sorted_wrt lt ys \<and>
    (\<forall>x\<in>set xs. \<exists>y\<in>set ys. same_key lt x y) \<and>
    unchanged_outside (set (nodes l xs) \<union> set (nodes d ds)) h h'"
  using dlist_unique [OF assms(2,4,5), of lt] mset_unique_adj [of lt xs]
    list_less.unique_adj_strict [OF assms(1,3)] list_less.unique_adj_class [OF assms(1), of xs]
  by blast

theorem list_unique_correct_witness:
  "\<exists>h' ys zs. list_unique sample_heap 100 200 (value_less (\<lambda>p. if p = 3 then 1 else 0)) = Some h' \<and>
     dlist h' 100 ys \<and> dlist h' 200 zs \<and> mset ys + mset zs = mset [1, 2, 3]"
proof -
  have "sorted_wrt (\<lambda>a b. \<not> value_less (\<lambda>p. if p = 3 then 1 else 0) b a) [1, 2, 3]"
    by (simp add: value_less_def)
  from list_unique_correct [OF value_less.list_less_axioms sample_dlist(1) this sample_dlist(2)]
  show ?thesis by (auto simp: nodes_def head_of_def tail_of_def)
qed

text \<open>C39: \<open>list_max\<close> and \<open>list_min\<close> return an element of the list that no element exceeds and an
  element that exceeds no other.\<close>

theorem list_max_min_correct:
  assumes "list_less lt" "dlist h l xs" "xs \<noteq> []"
  shows "\<exists>mx mn. list_max h l lt = Some mx \<and> list_min h l lt = Some mn \<and>
    mx \<in> set xs \<and> mn \<in> set xs \<and> (\<forall>x\<in>set xs. \<not> lt mx x \<and> \<not> lt x mn)"
proof -
  obtain x ys where xs: "xs = x # ys" using assms(3) by (cases xs) auto
  show ?thesis
    using dlist_max [OF assms(2), of lt] dlist_min [OF assms(2), of lt] xs
      list_less.fold_max [OF assms(1), where m = x and xs = ys]
      list_less.fold_min [OF assms(1), where m = x and xs = ys] by simp
qed

theorem list_max_min_correct_witness:
  "\<exists>mx mn. list_max sample_heap 100 (value_less of_nat) = Some mx \<and>
     list_min sample_heap 100 (value_less of_nat) = Some mn \<and>
     mx \<in> {1, 2, 3} \<and> \<not> value_less of_nat mx 3 \<and> \<not> value_less of_nat 1 mn"
  using list_max_min_correct [OF value_less.list_less_axioms sample_dlist(1), of of_nat] by auto

end
