(* ===== verification/Bitmap.thy ===== *)
theory Bitmap
  imports Prelude
begin

text \<open>
  The bit map of \<open>lib/kernel/bitmap.c\<close>: an array of 32-bit elements that simulates an array of bits.
  Indices and counts are machine words, so the range checks of the source wrap as they do there.
  An access outside the element array has the outcome \<^const>\<open>None\<close>. The abstraction
  \<open>bm_bits\<close> is the array of bits a client sees.
\<close>

unbundle bit_operations_syntax

section \<open>Operations\<close>

type_synonym elem_type = u32

record bitmap =
  bit_cnt :: u32
  bits :: "elem_type list"

definition ELEM_BITS :: u32 where
  "ELEM_BITS = 32"

definition BITMAP_ERROR :: u32 where
  "BITMAP_ERROR = 0xFFFFFFFF"

definition DIV_ROUND_UP :: "u32 \<Rightarrow> u32 \<Rightarrow> u32" where
  "DIV_ROUND_UP x step = (x + step - 1) div step"

definition elem_idx :: "u32 \<Rightarrow> u32" where
  "elem_idx bit_idx = bit_idx div ELEM_BITS"

definition bit_mask :: "u32 \<Rightarrow> elem_type" where
  "bit_mask bit_idx = push_bit (unat (bit_idx mod ELEM_BITS)) 1"

definition elem_cnt :: "u32 \<Rightarrow> u32" where
  "elem_cnt n = DIV_ROUND_UP n ELEM_BITS"

definition byte_cnt :: "u32 \<Rightarrow> u32" where
  "byte_cnt n = 4 * elem_cnt n"

definition last_mask :: "bitmap \<Rightarrow> elem_type" where
  "last_mask b = (let last_bits = bit_cnt b mod ELEM_BITS
     in if last_bits \<noteq> 0 then push_bit (unat last_bits) 1 - 1 else - 1)"

text \<open>A read and a read-modify-write of one element of the array.\<close>

definition get_elem :: "bitmap \<Rightarrow> u32 \<Rightarrow> elem_type option" where
  "get_elem b idx = (if unat idx < length (bits b) then Some (bits b ! unat idx) else None)"

definition update_elem :: "bitmap \<Rightarrow> u32 \<Rightarrow> (elem_type \<Rightarrow> elem_type) \<Rightarrow> bitmap option" where
  "update_elem b idx f = do {
     e \<leftarrow> get_elem b idx;
     Some (b\<lparr>bits := (bits b)[unat idx := f e]\<rparr>)
   }"

definition bitmap_size :: "bitmap \<Rightarrow> u32" where
  "bitmap_size b = bit_cnt b"

definition bitmap_mark :: "bitmap \<Rightarrow> u32 \<Rightarrow> bitmap option" where
  "bitmap_mark b bit_idx = update_elem b (elem_idx bit_idx) (\<lambda>e. e OR bit_mask bit_idx)"

definition bitmap_reset :: "bitmap \<Rightarrow> u32 \<Rightarrow> bitmap option" where
  "bitmap_reset b bit_idx = update_elem b (elem_idx bit_idx) (\<lambda>e. e AND NOT (bit_mask bit_idx))"

definition bitmap_flip :: "bitmap \<Rightarrow> u32 \<Rightarrow> bitmap option" where
  "bitmap_flip b bit_idx = update_elem b (elem_idx bit_idx) (\<lambda>e. e XOR bit_mask bit_idx)"

definition bitmap_set :: "bitmap \<Rightarrow> u32 \<Rightarrow> bool \<Rightarrow> bitmap option" where
  "bitmap_set b idx val = do {
     ASSERT (idx < bit_cnt b);
     if val then bitmap_mark b idx else bitmap_reset b idx
   }"

definition bitmap_test :: "bitmap \<Rightarrow> u32 \<Rightarrow> bool option" where
  "bitmap_test b idx = do {
     ASSERT (idx < bit_cnt b);
     e \<leftarrow> get_elem b (elem_idx idx);
     Some (e AND bit_mask idx \<noteq> 0)
   }"

text \<open>The loops count up to a word, so they end.\<close>

function set_multiple_loop :: "bitmap \<Rightarrow> u32 \<Rightarrow> u32 \<Rightarrow> bool \<Rightarrow> u32 \<Rightarrow> bitmap option" where
  "set_multiple_loop b start cnt val i =
     (if i < cnt then do {
        b \<leftarrow> bitmap_set b (start + i) val;
        set_multiple_loop b start cnt val (i + 1)
      } else Some b)"
  by pat_completeness auto
termination by (relation "measure (\<lambda>(b, start, cnt, val, i). unat (cnt - i))") (simp_all add: loop_measure)

definition bitmap_set_multiple :: "bitmap \<Rightarrow> u32 \<Rightarrow> u32 \<Rightarrow> bool \<Rightarrow> bitmap option" where
  "bitmap_set_multiple b start cnt val = do {
     ASSERT (start \<le> bit_cnt b);
     ASSERT (start + cnt \<le> bit_cnt b);
     set_multiple_loop b start cnt val 0
   }"

definition bitmap_set_all :: "bitmap \<Rightarrow> bool \<Rightarrow> bitmap option" where
  "bitmap_set_all b val = bitmap_set_multiple b 0 (bitmap_size b) val"

function count_loop :: "bitmap \<Rightarrow> u32 \<Rightarrow> u32 \<Rightarrow> bool \<Rightarrow> u32 \<Rightarrow> u32 \<Rightarrow> u32 option" where
  "count_loop b start cnt val i value_cnt =
     (if i < cnt then do {
        t \<leftarrow> bitmap_test b (start + i);
        count_loop b start cnt val (i + 1) (if t = val then value_cnt + 1 else value_cnt)
      } else Some value_cnt)"
  by pat_completeness auto
termination by (relation "measure (\<lambda>(b, start, cnt, val, i, c). unat (cnt - i))") (simp_all add: loop_measure)

definition bitmap_count :: "bitmap \<Rightarrow> u32 \<Rightarrow> u32 \<Rightarrow> bool \<Rightarrow> u32 option" where
  "bitmap_count b start cnt val = do {
     ASSERT (start \<le> bit_cnt b);
     ASSERT (start + cnt \<le> bit_cnt b);
     count_loop b start cnt val 0 0
   }"

function contains_loop :: "bitmap \<Rightarrow> u32 \<Rightarrow> u32 \<Rightarrow> bool \<Rightarrow> u32 \<Rightarrow> bool option" where
  "contains_loop b start cnt val i =
     (if i < cnt then do {
        t \<leftarrow> bitmap_test b (start + i);
        if t = val then Some True else contains_loop b start cnt val (i + 1)
      } else Some False)"
  by pat_completeness auto
termination by (relation "measure (\<lambda>(b, start, cnt, val, i). unat (cnt - i))") (simp_all add: loop_measure)

definition bitmap_contains :: "bitmap \<Rightarrow> u32 \<Rightarrow> u32 \<Rightarrow> bool \<Rightarrow> bool option" where
  "bitmap_contains b start cnt val = do {
     ASSERT (start \<le> bit_cnt b);
     ASSERT (start + cnt \<le> bit_cnt b);
     contains_loop b start cnt val 0
   }"

definition bitmap_any :: "bitmap \<Rightarrow> u32 \<Rightarrow> u32 \<Rightarrow> bool option" where
  "bitmap_any b start cnt = bitmap_contains b start cnt True"

definition bitmap_none :: "bitmap \<Rightarrow> u32 \<Rightarrow> u32 \<Rightarrow> bool option" where
  "bitmap_none b start cnt = do { c \<leftarrow> bitmap_contains b start cnt True; Some (\<not> c) }"

definition bitmap_all :: "bitmap \<Rightarrow> u32 \<Rightarrow> u32 \<Rightarrow> bool option" where
  "bitmap_all b start cnt = do { c \<leftarrow> bitmap_contains b start cnt False; Some (\<not> c) }"

partial_function (option) scan_loop :: "bitmap \<Rightarrow> u32 \<Rightarrow> bool \<Rightarrow> u32 \<Rightarrow> u32 \<Rightarrow> u32 option" where
  "scan_loop b cnt val lst i =
     (if i \<le> lst then do {
        c \<leftarrow> bitmap_contains b i cnt (\<not> val);
        if \<not> c then Some i else scan_loop b cnt val lst (i + 1)
      } else Some BITMAP_ERROR)"

definition bitmap_scan :: "bitmap \<Rightarrow> u32 \<Rightarrow> u32 \<Rightarrow> bool \<Rightarrow> u32 option" where
  "bitmap_scan b start cnt val = do {
     ASSERT (start \<le> bit_cnt b);
     if cnt \<le> bit_cnt b then scan_loop b cnt val (bit_cnt b - cnt) start else Some BITMAP_ERROR
   }"

definition bitmap_scan_and_flip :: "bitmap \<Rightarrow> u32 \<Rightarrow> u32 \<Rightarrow> bool \<Rightarrow> (u32 \<times> bitmap) option" where
  "bitmap_scan_and_flip b start cnt val = do {
     idx \<leftarrow> bitmap_scan b start cnt val;
     b \<leftarrow> (if idx \<noteq> BITMAP_ERROR then bitmap_set_multiple b idx cnt (\<not> val) else Some b);
     Some (idx, b)
   }"

definition bitmap_buf_size :: "u32 \<Rightarrow> u32" where
  "bitmap_buf_size n = 8 + byte_cnt n"

text \<open>The two allocations of \<open>bitmap_create\<close> are arguments: whether the structure was allocated, and
  the contents of the element array. The inner option is the null pointer.\<close>

definition bitmap_create :: "bool \<Rightarrow> elem_type list option \<Rightarrow> u32 \<Rightarrow> bitmap option option" where
  "bitmap_create struct_ok block n =
     (if struct_ok \<and> (block \<noteq> None \<or> n = 0) then do {
        b \<leftarrow> bitmap_set_all \<lparr>bit_cnt = n, bits = (case block of Some es \<Rightarrow> es | None \<Rightarrow> [])\<rparr> False;
        Some (Some b)
      } else Some None)"

text \<open>The elements of the buffer behind the structure are an argument.\<close>

definition bitmap_create_in_buf :: "u32 \<Rightarrow> elem_type list \<Rightarrow> u32 \<Rightarrow> bitmap option" where
  "bitmap_create_in_buf n block block_size = do {
     ASSERT (block_size \<ge> bitmap_buf_size n);
     bitmap_set_all \<lparr>bit_cnt = n, bits = block\<rparr> False
   }"

section \<open>The array of bits\<close>

declare scan_loop.simps [code]

declare set_multiple_loop.simps [simp del] count_loop.simps [simp del] contains_loop.simps [simp del]

definition bm_get :: "bitmap \<Rightarrow> nat \<Rightarrow> bool" where
  "bm_get b i = bit (bits b ! (i div 32)) (i mod 32)"

definition bm_bits :: "bitmap \<Rightarrow> bool list" where
  "bm_bits b = map (bm_get b) [0..<unat (bit_cnt b)]"

definition bm_wf :: "bitmap \<Rightarrow> bool" where
  "bm_wf b \<longleftrightarrow> unat (bit_cnt b) \<le> 32 * length (bits b)"

lemma length_bm_bits [simp]: "length (bm_bits b) = unat (bit_cnt b)"
  by (simp add: bm_bits_def)

lemma nth_bm_bits [simp]: "i < unat (bit_cnt b) \<Longrightarrow> bm_bits b ! i = bm_get b i"
  by (simp add: bm_bits_def)

lemma unat_elem_idx: "unat (elem_idx i) = unat i div 32"
  by (simp add: elem_idx_def ELEM_BITS_def unat_div)

lemma unat_bit_pos: "unat (i mod ELEM_BITS) = unat i mod 32"
  by (simp add: ELEM_BITS_def unat_mod)

lemma elem_in_array: "bm_wf b \<Longrightarrow> i < bit_cnt b \<Longrightarrow> unat (elem_idx i) < length (bits b)"
  by (simp add: bm_wf_def unat_elem_idx word_less_nat_alt)

lemma bitmap_test_bits:
  "bm_wf b \<Longrightarrow> i < bit_cnt b \<Longrightarrow> bitmap_test b i = Some (bm_bits b ! unat i)"
  using elem_in_array [of b i]
  by (simp add: bitmap_test_def get_elem_def bm_get_def word_less_nat_alt unat_elem_idx bit_mask_def
      unat_bit_pos bit_iff_and_push_bit_not_eq_0)

lemma update_elem_bits:
  assumes "bm_wf b" "i < bit_cnt b"
    and f: "\<And>e n. n < 32 \<Longrightarrow> bit (f e) n = (if n = unat i mod 32 then g (bit e n) else bit e n)"
  shows "\<exists>b'. update_elem b (elem_idx i) f = Some b' \<and> bm_wf b' \<and> bit_cnt b' = bit_cnt b \<and>
    bm_bits b' = (bm_bits b)[unat i := g (bm_bits b ! unat i)]"
proof -
  let ?b = "b\<lparr>bits := (bits b)[unat i div 32 := f (bits b ! (unat i div 32))]\<rparr>"
  have i: "unat i div 32 < length (bits b)" using elem_in_array [OF assms(1,2)] by (simp add: unat_elem_idx)
  have lt: "unat i < unat (bit_cnt b)" using assms(2) by (simp add: word_less_nat_alt)
  have "bm_get ?b k = (if k = unat i then g (bm_get b k) else bm_get b k)" for k
  proof -
    have "k = unat i \<longleftrightarrow> k div 32 = unat i div 32 \<and> k mod 32 = unat i mod 32"
      by (metis div_mult_mod_eq)
    then show ?thesis using i f by (auto simp: bm_get_def nth_list_update)
  qed
  then have "bm_bits ?b = (bm_bits b)[unat i := g (bm_bits b ! unat i)]"
    using lt by (auto intro!: nth_equalityI simp: nth_list_update)
  then show ?thesis
    using i assms(1) by (simp add: update_elem_def get_elem_def unat_elem_idx bm_wf_def)
qed

lemma bitmap_set_bits:
  assumes "bm_wf b" "i < bit_cnt b"
  shows "\<exists>b'. bitmap_set b i v = Some b' \<and> bm_wf b' \<and> bit_cnt b' = bit_cnt b \<and>
    bm_bits b' = (bm_bits b)[unat i := v]"
  using update_elem_bits [OF assms, of "\<lambda>e. e OR bit_mask i" "\<lambda>_. True"]
    update_elem_bits [OF assms, of "\<lambda>e. e AND NOT (bit_mask i)" "\<lambda>_. False"] assms(2)
  by (cases v) (auto simp: bitmap_set_def bitmap_mark_def bitmap_reset_def bit_mask_def unat_bit_pos
      bit_simps)

lemma bitmap_flip_bits:
  assumes "bm_wf b" "i < bit_cnt b"
  shows "\<exists>b'. bitmap_flip b i = Some b' \<and> bm_wf b' \<and> bit_cnt b' = bit_cnt b \<and>
    bm_bits b' = (bm_bits b)[unat i := \<not> bm_bits b ! unat i]"
  using update_elem_bits [OF assms, of "\<lambda>e. e XOR bit_mask i" Not]
  by (auto simp: bitmap_flip_def bit_mask_def unat_bit_pos bit_simps)

subsection \<open>Ranges of bits\<close>

definition set_range :: "nat \<Rightarrow> nat \<Rightarrow> 'a \<Rightarrow> 'a list \<Rightarrow> 'a list" where
  "set_range s c v xs = map (\<lambda>i. if s \<le> i \<and> i < s + c then v else xs ! i) [0..<length xs]"

definition all_range :: "nat \<Rightarrow> nat \<Rightarrow> 'a \<Rightarrow> 'a list \<Rightarrow> bool" where
  "all_range s c v xs \<longleftrightarrow> s + c \<le> length xs \<and> (\<forall>j<c. xs ! (s + j) = v)"

definition first_group :: "nat \<Rightarrow> nat \<Rightarrow> 'a \<Rightarrow> 'a list \<Rightarrow> nat option" where
  "first_group s c v xs = List.find (\<lambda>k. \<forall>j<c. xs ! (k + j) = v) [s..<Suc (length xs) - c]"

lemma length_set_range [simp]: "length (set_range s c v xs) = length xs"
  by (simp add: set_range_def)

lemma nth_set_range:
  "i < length xs \<Longrightarrow> set_range s c v xs ! i = (if s \<le> i \<and> i < s + c then v else xs ! i)"
  by (simp add: set_range_def)

lemma set_range_0 [simp]: "set_range s 0 v xs = xs"
  by (rule nth_equalityI) (auto simp: nth_set_range)

lemma set_range_Suc: "set_range (Suc s) c v (xs[s := v]) = set_range s (Suc c) v xs"
  by (rule nth_equalityI) (auto simp: nth_set_range nth_list_update)

lemma all_range_nth: "\<lbrakk>all_range s c v xs; s \<le> i; i < s + c\<rbrakk> \<Longrightarrow> xs ! i = v"
  by (metis add_less_cancel_left all_range_def le_add_diff_inverse)

lemma first_group_Some:
  assumes "first_group s c v xs = Some k" "c \<le> length xs"
  shows "s \<le> k" "all_range k c v xs" "\<And>m. s \<le> m \<Longrightarrow> m < k \<Longrightarrow> \<not> all_range m c v xs"
proof -
  from assms(1) obtain i where i: "i < Suc (length xs) - c - s" "k = s + i"
      "\<forall>j<c. xs ! (k + j) = v" "\<And>i'. i' < i \<Longrightarrow> \<not> (\<forall>j<c. xs ! (s + i' + j) = v)"
    by (auto simp: first_group_def find_Some_iff)
  show "s \<le> k" "all_range k c v xs" using i assms(2) by (auto simp: all_range_def)
  show "\<not> all_range m c v xs" if "s \<le> m" "m < k" for m
    using i(4) [of "m - s"] that i(2) by (auto simp: all_range_def)
qed

lemma first_group_None:
  assumes "first_group s c v xs = None" "s \<le> m"
  shows "\<not> all_range m c v xs"
proof
  assume "all_range m c v xs"
  then have "m \<in> set [s..<Suc (length xs) - c]" using assms(2) by (auto simp: all_range_def)
  with assms(1) have "\<not> (\<forall>j<c. xs ! (m + j) = v)"
    unfolding first_group_def find_None_iff by blast
  with \<open>all_range m c v xs\<close> show False by (simp add: all_range_def)
qed

lemma range_start:
  fixes start cnt :: u32
  assumes "unat start + unat cnt \<le> unat (bit_cnt b)"
  shows "start \<le> bit_cnt b" "start + cnt \<le> bit_cnt b" "i < cnt \<Longrightarrow> start + i < bit_cnt b"
    "i < cnt \<Longrightarrow> unat (start + i) = unat start + unat i"
proof -
  have B: "unat (bit_cnt b) < 2 ^ 32" using unsigned_less [of "bit_cnt b", where ?'a = nat] by simp
  have "unat (start + cnt) = unat start + unat cnt"
    using assms B by (intro unat_add_small) simp
  then show "start \<le> bit_cnt b" "start + cnt \<le> bit_cnt b" using assms by (simp_all add: word_le_nat_alt)
  assume i: "i < cnt"
  then show *: "unat (start + i) = unat start + unat i"
    using assms B by (intro unat_add_small) (simp add: word_less_nat_alt)
  show "start + i < bit_cnt b" using i * assms by (simp add: word_less_nat_alt)
qed

lemma set_multiple_loop_bits:
  "\<lbrakk>bm_wf b; unat start + unat cnt \<le> unat (bit_cnt b); i \<le> cnt\<rbrakk> \<Longrightarrow>
   \<exists>b'. set_multiple_loop b start cnt v i = Some b' \<and> bm_wf b' \<and> bit_cnt b' = bit_cnt b \<and>
     bm_bits b' = set_range (unat start + unat i) (unat cnt - unat i) v (bm_bits b)"
proof (induction b start cnt v i rule: set_multiple_loop.induct)
  case (1 b start cnt v i)
  show ?case
  proof (cases "i < cnt")
    case True
    note r = range_start [OF "1.prems"(2)]
    from bitmap_set_bits [OF "1.prems"(1) r(3) [OF True], of v] obtain b1 where b1:
      "bitmap_set b (start + i) v = Some b1" "bm_wf b1" "bit_cnt b1 = bit_cnt b"
      "bm_bits b1 = (bm_bits b)[unat start + unat i := v]" using r(4) [OF True] by auto
    have i: "unat (i + 1) = Suc (unat i)" "i + 1 \<le> cnt" "unat i < unat cnt"
      using True unat_Suc_less [OF True] by (simp_all add: word_less_nat_alt word_le_nat_alt)
    then have "unat cnt - unat i = Suc (unat cnt - unat (i + 1))" by simp
    with "1.IH" [OF True b1(1,2)] b1 "1.prems" i True show ?thesis
      by (subst set_multiple_loop.simps) (simp add: set_range_Suc)
  next
    case False
    then have "i = cnt" using "1.prems" by simp
    then show ?thesis using "1.prems" by (subst set_multiple_loop.simps) simp
  qed
qed

lemma bitmap_set_multiple_bits:
  assumes "bm_wf b" "unat start + unat cnt \<le> unat (bit_cnt b)"
  shows "\<exists>b'. bitmap_set_multiple b start cnt v = Some b' \<and> bm_wf b' \<and> bit_cnt b' = bit_cnt b \<and>
    bm_bits b' = set_range (unat start) (unat cnt) v (bm_bits b)"
  using set_multiple_loop_bits [OF assms, of 0 v] range_start(1,2) [OF assms(2)]
  by (simp add: bitmap_set_multiple_def)

lemma contains_loop_bits:
  "\<lbrakk>bm_wf b; unat start + unat cnt \<le> unat (bit_cnt b); i \<le> cnt\<rbrakk> \<Longrightarrow>
   contains_loop b start cnt v i =
     Some (\<exists>j. unat i \<le> j \<and> j < unat cnt \<and> bm_bits b ! (unat start + j) = v)"
proof (induction b start cnt v i rule: contains_loop.induct)
  case (1 b start cnt v i)
  show ?case
  proof (cases "i < cnt")
    case True
    note r = range_start [OF "1.prems"(2)]
    have t: "bitmap_test b (start + i) = Some (bm_bits b ! (unat start + unat i))"
      using bitmap_test_bits [OF "1.prems"(1) r(3) [OF True]] r(4) [OF True] by simp
    have i: "unat (i + 1) = Suc (unat i)" "i + 1 \<le> cnt" "unat i < unat cnt"
      using True unat_Suc_less [OF True] by (simp_all add: word_less_nat_alt word_le_nat_alt)
    show ?thesis
    proof (cases "bm_bits b ! (unat start + unat i) = v")
      case True': True
      then show ?thesis using True t i by (subst contains_loop.simps) auto
    next
      case False
      then have "(\<exists>j. unat i \<le> j \<and> j < unat cnt \<and> bm_bits b ! (unat start + j) = v) \<longleftrightarrow>
        (\<exists>j. Suc (unat i) \<le> j \<and> j < unat cnt \<and> bm_bits b ! (unat start + j) = v)"
        by (metis Suc_leD Suc_le_eq le_neq_implies_less)
      then show ?thesis
        using "1.IH" [OF True t False] "1.prems" i True False t by (subst contains_loop.simps) simp
    qed
  next
    case False
    then have "i = cnt" using "1.prems" by simp
    then show ?thesis by (subst contains_loop.simps) simp
  qed
qed

lemma bitmap_contains_bits:
  assumes "bm_wf b" "unat start + unat cnt \<le> unat (bit_cnt b)"
  shows "bitmap_contains b start cnt v = Some (\<exists>j<unat cnt. bm_bits b ! (unat start + j) = v)"
  using contains_loop_bits [OF assms, of 0 v] range_start(1,2) [OF assms(2)]
  by (simp add: bitmap_contains_def)

lemma bitmap_all_bits:
  assumes "bm_wf b" "unat start + unat cnt \<le> unat (bit_cnt b)"
  shows "bitmap_all b start cnt = Some (all_range (unat start) (unat cnt) True (bm_bits b))"
  using bitmap_contains_bits [OF assms, of False] assms(2) by (auto simp: bitmap_all_def all_range_def)

lemma count_loop_bits:
  "\<lbrakk>bm_wf b; unat start + unat cnt \<le> unat (bit_cnt b); i \<le> cnt\<rbrakk> \<Longrightarrow>
   count_loop b start cnt v i n =
     Some (n + of_nat (length (filter (\<lambda>j. bm_bits b ! (unat start + j) = v) [unat i..<unat cnt])))"
proof (induction b start cnt v i n rule: count_loop.induct)
  case (1 b start cnt v i n)
  show ?case
  proof (cases "i < cnt")
    case True
    note r = range_start [OF "1.prems"(2)]
    have t: "bitmap_test b (start + i) = Some (bm_bits b ! (unat start + unat i))"
      using bitmap_test_bits [OF "1.prems"(1) r(3) [OF True]] r(4) [OF True] by simp
    have i: "unat (i + 1) = Suc (unat i)" "i + 1 \<le> cnt" "unat i < unat cnt"
      using True unat_Suc_less [OF True] by (simp_all add: word_less_nat_alt word_le_nat_alt)
    then have "[unat i..<unat cnt] = unat i # [unat (i + 1)..<unat cnt]"
      by (simp add: upt_conv_Cons)
    then show ?thesis
      using "1.IH" [OF True t] "1.prems" i True t by (subst count_loop.simps) simp
  next
    case False
    then have "i = cnt" using "1.prems" by simp
    then show ?thesis by (subst count_loop.simps) simp
  qed
qed

lemma bitmap_count_bits:
  assumes "bm_wf b" "unat start + unat cnt \<le> unat (bit_cnt b)"
  shows "bitmap_count b start cnt v =
    Some (of_nat (length (filter (\<lambda>j. bm_bits b ! (unat start + j) = v) [0..<unat cnt])))"
  using count_loop_bits [OF assms, of 0 v 0] range_start(1,2) [OF assms(2)]
  by (simp add: bitmap_count_def)

lemma bitmap_set_all_bits:
  assumes "bm_wf b"
  shows "\<exists>b'. bitmap_set_all b v = Some b' \<and> bm_wf b' \<and> bit_cnt b' = bit_cnt b \<and>
    bm_bits b' = replicate (unat (bit_cnt b)) v"
proof -
  have "set_range 0 (unat (bit_cnt b)) v (bm_bits b) = replicate (unat (bit_cnt b)) v"
    by (rule nth_equalityI) (simp_all add: nth_set_range)
  then show ?thesis
    using bitmap_set_multiple_bits [OF assms, of 0 "bit_cnt b" v]
    by (simp add: bitmap_set_all_def bitmap_size_def)
qed

lemma unat_elem_cnt: "unat n + 31 < 2 ^ 32 \<Longrightarrow> unat (elem_cnt n) = (unat n + 31) div 32"
  by (simp add: elem_cnt_def DIV_ROUND_UP_def ELEM_BITS_def unat_div unat_add_small)

lemma bitmap_create_bits:
  assumes "unat n + 31 < 2 ^ 32" "length es = unat (elem_cnt n)"
  shows "\<exists>b. bitmap_create True (Some es) n = Some (Some b) \<and> bm_wf b \<and> bit_cnt b = n \<and>
    bm_bits b = replicate (unat n) False"
proof -
  have "bm_wf \<lparr>bit_cnt = n, bits = es\<rparr>"
    using assms unat_elem_cnt [of n] by (simp add: bm_wf_def)
  from bitmap_set_all_bits [OF this, of False] show ?thesis by (auto simp: bitmap_create_def)
qed

lemma bitmap_create_in_buf_bits:
  assumes "unat n + 31 < 2 ^ 32" "length es = unat (elem_cnt n)" "bitmap_buf_size n \<le> sz"
  shows "\<exists>b. bitmap_create_in_buf n es sz = Some b \<and> bm_wf b \<and> bit_cnt b = n \<and>
    bm_bits b = replicate (unat n) False"
proof -
  have "bm_wf \<lparr>bit_cnt = n, bits = es\<rparr>"
    using assms unat_elem_cnt [of n] by (simp add: bm_wf_def)
  from bitmap_set_all_bits [OF this, of False] show ?thesis
    using assms(3) by (auto simp: bitmap_create_in_buf_def)
qed

lemma unat_last: "c \<le> n \<Longrightarrow> unat (n - c) = unat n - unat c" for n c :: u32
  by (simp add: unat_sub)

lemma scan_loop_bits:
  assumes "bm_wf b" "cnt \<le> bit_cnt b" "i \<le> bit_cnt b"
  shows "scan_loop b cnt v (bit_cnt b - cnt) i =
    Some (case first_group (unat i) (unat cnt) v (bm_bits b) of
            None \<Rightarrow> BITMAP_ERROR | Some k \<Rightarrow> of_nat k)"
  using assms(3)
proof (induction "unat (bit_cnt b) - unat i" arbitrary: i rule: less_induct)
  case less
  let ?l = "bit_cnt b - cnt"
  have l: "unat ?l = unat (bit_cnt b) - unat cnt" "unat cnt \<le> unat (bit_cnt b)"
    using assms(2) by (simp_all add: unat_last word_le_nat_alt)
  show ?case
  proof (cases "i \<le> ?l")
    case False
    then have up: "[unat i..<Suc (unat (bit_cnt b)) - unat cnt] = []" using l by (simp add: word_le_nat_alt)
    show ?thesis using False by (subst scan_loop.simps) (simp only: first_group_def length_bm_bits up, simp)
  next
    case True
    then have il: "unat i + unat cnt \<le> unat (bit_cnt b)" using l by (simp add: word_le_nat_alt)
    let ?free = "\<forall>j<unat cnt. bm_bits b ! (unat i + j) = v"
    have c: "bitmap_contains b i cnt (\<not> v) = Some (\<not> ?free)"
      using bitmap_contains_bits [OF assms(1) il] by auto
    have up: "[unat i..<Suc (unat (bit_cnt b)) - unat cnt] =
        unat i # [Suc (unat i)..<Suc (unat (bit_cnt b)) - unat cnt]"
      using il by (simp add: upt_conv_Cons)
    show ?thesis
    proof (cases ?free)
      case free: True
      then show ?thesis
        using True c up by (subst scan_loop.simps) (simp add: first_group_def)
    next
      case taken: False
      then have "0 < unat cnt" by auto
      then have lt: "unat i < unat (bit_cnt b)" using il by simp
      then have i1: "unat (i + 1) = Suc (unat i)"
        using unat_Suc_less [of i "bit_cnt b"] by (simp add: word_less_nat_alt)
      have "scan_loop b cnt v ?l (i + 1) =
          Some (case first_group (unat (i + 1)) (unat cnt) v (bm_bits b) of
                  None \<Rightarrow> BITMAP_ERROR | Some k \<Rightarrow> of_nat k)"
        using lt i1 by (intro less.hyps) (simp_all add: word_le_nat_alt)
      moreover have "first_group (unat (i + 1)) (unat cnt) v (bm_bits b)
          = first_group (unat i) (unat cnt) v (bm_bits b)"
        using taken up i1 by (simp add: first_group_def) auto
      ultimately show ?thesis using True taken c by (subst scan_loop.simps) simp
    qed
  qed
qed

lemma bitmap_scan_bits:
  assumes "bm_wf b" "start \<le> bit_cnt b"
  shows "bitmap_scan b start cnt v =
    Some (case first_group (unat start) (unat cnt) v (bm_bits b) of
            None \<Rightarrow> BITMAP_ERROR | Some k \<Rightarrow> of_nat k)"
proof (cases "cnt \<le> bit_cnt b")
  case True
  then show ?thesis using scan_loop_bits [OF assms(1) True assms(2), of v] assms(2)
    by (simp add: bitmap_scan_def)
next
  case False
  then have "Suc (unat (bit_cnt b)) - unat cnt = 0" by (simp add: word_le_nat_alt)
  then show ?thesis using False assms(2) by (simp add: bitmap_scan_def first_group_def)
qed

text \<open>The index of a group of at least one bit is never the error value.\<close>

lemma group_index:
  assumes "all_range k (unat cnt) v (bm_bits b)" "0 < cnt"
  shows "unat (of_nat k :: u32) = k" "(of_nat k :: u32) \<noteq> BITMAP_ERROR"
proof -
  have "k + unat cnt < 2 ^ 32" "0 < unat cnt"
    using assms unsigned_less [of "bit_cnt b", where ?'a = nat]
    by (auto simp: all_range_def word_less_nat_alt)
  then have k: "Suc k < 2 ^ 32" by simp
  then show u: "unat (of_nat k :: u32) = k" by (simp add: unat_of_nat take_bit_nat_eq_self)
  show "(of_nat k :: u32) \<noteq> BITMAP_ERROR"
  proof
    assume "(of_nat k :: u32) = BITMAP_ERROR"
    then have "k = unat BITMAP_ERROR" using u by simp
    then show False using k by (simp add: BITMAP_ERROR_def)
  qed
qed

lemma bitmap_scan_and_flip_bits:
  assumes "bm_wf b" "start \<le> bit_cnt b" "0 < cnt"
  shows "case first_group (unat start) (unat cnt) v (bm_bits b) of
      None \<Rightarrow> bitmap_scan_and_flip b start cnt v = Some (BITMAP_ERROR, b)
    | Some k \<Rightarrow> \<exists>idx b'. bitmap_scan_and_flip b start cnt v = Some (idx, b') \<and> unat idx = k \<and>
        idx \<noteq> BITMAP_ERROR \<and> bm_wf b' \<and> bit_cnt b' = bit_cnt b \<and>
        bm_bits b' = set_range k (unat cnt) (\<not> v) (bm_bits b)"
proof (cases "first_group (unat start) (unat cnt) v (bm_bits b)")
  case None
  then show ?thesis
    using bitmap_scan_bits [OF assms(1,2), of cnt v] by (simp add: bitmap_scan_and_flip_def)
next
  case (Some k)
  have "unat cnt \<le> length (bm_bits b)"
  proof (rule ccontr)
    assume "\<not> ?thesis"
    then show False using Some by (simp add: first_group_def)
  qed
  note ar = first_group_Some(2) [OF Some this]
  note gi = group_index [OF ar assms(3)]
  have "unat (of_nat k :: u32) + unat cnt \<le> unat (bit_cnt b)"
    using ar gi(1) by (simp add: all_range_def)
  from bitmap_set_multiple_bits [OF assms(1) this, of "\<not> v"] show ?thesis
    using Some gi bitmap_scan_bits [OF assms(1,2), of cnt v] by (auto simp: bitmap_scan_and_flip_def)
qed

section \<open>Allocating groups of bits\<close>

text \<open>What the users of a bit map as an allocator (the free map, the page pools) rely on: a search that
  claims the first free group, a range update and a range test.\<close>

locale bit_allocator =
  fixes inv :: "'b \<Rightarrow> bool"
    and cells :: "'b \<Rightarrow> bool list"
    and scan_flip :: "'b \<Rightarrow> u32 \<Rightarrow> u32 \<Rightarrow> bool \<Rightarrow> (u32 \<times> 'b) option"
    and set_mult :: "'b \<Rightarrow> u32 \<Rightarrow> u32 \<Rightarrow> bool \<Rightarrow> 'b option"
    and all_set :: "'b \<Rightarrow> u32 \<Rightarrow> u32 \<Rightarrow> bool option"
  assumes scan_flip: "\<lbrakk>inv b; 0 < cnt\<rbrakk> \<Longrightarrow> case first_group 0 (unat cnt) v (cells b) of
      None \<Rightarrow> scan_flip b 0 cnt v = Some (BITMAP_ERROR, b)
    | Some k \<Rightarrow> \<exists>idx b'. scan_flip b 0 cnt v = Some (idx, b') \<and> unat idx = k \<and> idx \<noteq> BITMAP_ERROR \<and>
        inv b' \<and> cells b' = set_range k (unat cnt) (\<not> v) (cells b)"
    and set_mult: "\<lbrakk>inv b; unat start + unat cnt \<le> length (cells b)\<rbrakk> \<Longrightarrow>
      \<exists>b'. set_mult b start cnt v = Some b' \<and> inv b' \<and>
        cells b' = set_range (unat start) (unat cnt) v (cells b)"
    and all_set: "\<lbrakk>inv b; unat start + unat cnt \<le> length (cells b)\<rbrakk> \<Longrightarrow>
      all_set b start cnt = Some (all_range (unat start) (unat cnt) True (cells b))"
begin

lemma claim_cases:
  assumes "inv b" "0 < cnt"
  obtains (claimed) idx b' where "scan_flip b 0 cnt False = Some (idx, b')" "idx \<noteq> BITMAP_ERROR" "inv b'"
      "all_range (unat idx) (unat cnt) False (cells b)"
      "\<forall>m<unat idx. \<not> all_range m (unat cnt) False (cells b)"
      "cells b' = set_range (unat idx) (unat cnt) True (cells b)"
  | (full) "scan_flip b 0 cnt False = Some (BITMAP_ERROR, b)"
      "\<forall>m. \<not> all_range m (unat cnt) False (cells b)"
proof (cases "first_group 0 (unat cnt) False (cells b)")
  case None
  then show ?thesis using scan_flip [OF assms, of False] first_group_None [OF None] full by simp
next
  case (Some k)
  have "unat cnt \<le> length (cells b)"
  proof (rule ccontr)
    assume "\<not> ?thesis"
    then show False using Some by (simp add: first_group_def)
  qed
  note g = first_group_Some [OF Some this]
  show ?thesis using scan_flip [OF assms, of False] Some g(2,3) claimed by auto
qed

lemma range_of_claim:
  assumes "inv b" "0 < cnt" "scan_flip b 0 cnt False = Some (idx, b')" "idx \<noteq> BITMAP_ERROR"
  shows "inv b'" "all_range (unat idx) (unat cnt) False (cells b)"
    "cells b' = set_range (unat idx) (unat cnt) True (cells b)" "length (cells b') = length (cells b)"
proof -
  from claim_cases [OF assms(1,2)] assms(3,4)
  have *: "inv b' \<and> all_range (unat idx) (unat cnt) False (cells b) \<and>
      cells b' = set_range (unat idx) (unat cnt) True (cells b)" by cases auto
  then show "inv b'" "all_range (unat idx) (unat cnt) False (cells b)"
    "cells b' = set_range (unat idx) (unat cnt) True (cells b)" by auto
  show "length (cells b') = length (cells b)" using * by simp
qed

lemma release_claim:
  assumes "inv b" "0 < cnt" "scan_flip b 0 cnt False = Some (idx, b')" "idx \<noteq> BITMAP_ERROR"
  shows "all_set b' idx cnt = Some True"
    "\<exists>b''. set_mult b' idx cnt False = Some b'' \<and> inv b'' \<and> cells b'' = cells b"
proof -
  note c = range_of_claim [OF assms]
  have le: "unat idx + unat cnt \<le> length (cells b')" using c(2,4) by (simp add: all_range_def)
  show "all_set b' idx cnt = Some True"
    using all_set [OF c(1) le] c le by (auto simp: all_range_def nth_set_range)
  have "set_range (unat idx) (unat cnt) False (cells b') = cells b"
    using c by (intro nth_equalityI) (auto simp: nth_set_range all_range_nth [OF c(2)])
  then show "\<exists>b''. set_mult b' idx cnt False = Some b'' \<and> inv b'' \<and> cells b'' = cells b"
    using set_mult [OF c(1) le, of False] by auto
qed

lemma claims_disjoint:
  assumes "inv b" "0 < cnt" "scan_flip b 0 cnt False = Some (idx, b')" "idx \<noteq> BITMAP_ERROR"
    and "0 < cnt'" "scan_flip b' 0 cnt' False = Some (idx', b'')" "idx' \<noteq> BITMAP_ERROR"
  shows "{unat idx..<unat idx + unat cnt} \<inter> {unat idx'..<unat idx' + unat cnt'} = {}"
proof -
  note c = range_of_claim [OF assms(1-4)]
  note c' = range_of_claim [OF c(1) assms(5-7)]
  have "\<not> (cells b' ! i \<and> \<not> cells b' ! i)" for i by simp
  moreover have "cells b' ! i" if "i \<in> {unat idx..<unat idx + unat cnt}" for i
    using that c by (auto simp: all_range_def nth_set_range)
  moreover have "\<not> cells b' ! i" if "i \<in> {unat idx'..<unat idx' + unat cnt'}" for i
    using that all_range_nth [OF c'(2)] by auto
  ultimately show ?thesis by blast
qed

end

interpretation bm: bit_allocator bm_wf bm_bits bitmap_scan_and_flip bitmap_set_multiple bitmap_all
proof
  fix b :: bitmap and cnt :: u32 and v
  assume "bm_wf b" "0 < cnt"
  then show "case first_group 0 (unat cnt) v (bm_bits b) of
      None \<Rightarrow> bitmap_scan_and_flip b 0 cnt v = Some (BITMAP_ERROR, b)
    | Some k \<Rightarrow> \<exists>idx b'. bitmap_scan_and_flip b 0 cnt v = Some (idx, b') \<and> unat idx = k \<and>
        idx \<noteq> BITMAP_ERROR \<and> bm_wf b' \<and> bm_bits b' = set_range k (unat cnt) (\<not> v) (bm_bits b)"
    using bitmap_scan_and_flip_bits [of b 0 cnt v] by (auto split: option.splits)
next
  fix b :: bitmap and start cnt :: u32 and v
  assume a: "bm_wf b" "unat start + unat cnt \<le> length (bm_bits b)"
  show "\<exists>b'. bitmap_set_multiple b start cnt v = Some b' \<and> bm_wf b' \<and>
      bm_bits b' = set_range (unat start) (unat cnt) v (bm_bits b)"
    using bitmap_set_multiple_bits [OF a(1), of start cnt v] a(2) by auto
  show "bitmap_all b start cnt = Some (all_range (unat start) (unat cnt) True (bm_bits b))"
    using bitmap_all_bits [OF a(1), of start cnt] a(2) by simp
qed

section \<open>Properties\<close>

definition sample_bitmap :: bitmap where
  "sample_bitmap = \<lparr>bit_cnt = 40, bits = [0xFFFF0F01, 0x0000000F]\<rparr>"

lemma sample_bitmap_wf: "bm_wf sample_bitmap"
  by (simp add: bm_wf_def sample_bitmap_def)

lemma sample_scan:
  "bitmap_scan_and_flip sample_bitmap 0 5 False = Some (1, \<lparr>bit_cnt = 40, bits = [0xFFFF0F3F, 0x0000000F]\<rparr>)"
  by code_simp

text \<open>C16: \<open>bitmap_scan_and_flip\<close> finds the first group of the requested number of equal bits at or
  after the start, sets exactly that group to the other value and returns its index; it returns
  \<open>BITMAP_ERROR\<close> and changes nothing exactly when there is no such group.\<close>

theorem bitmap_scan_and_flip_correct:
  assumes "bm_wf b" "start \<le> bit_cnt b" "0 < cnt"
  shows "(\<exists>idx b'. bitmap_scan_and_flip b start cnt v = Some (idx, b') \<and> idx \<noteq> BITMAP_ERROR \<and>
      unat start \<le> unat idx \<and> all_range (unat idx) (unat cnt) v (bm_bits b) \<and>
      (\<forall>m. unat start \<le> m \<and> m < unat idx \<longrightarrow> \<not> all_range m (unat cnt) v (bm_bits b)) \<and>
      bm_wf b' \<and> bm_bits b' = set_range (unat idx) (unat cnt) (\<not> v) (bm_bits b)) \<or>
    (bitmap_scan_and_flip b start cnt v = Some (BITMAP_ERROR, b) \<and>
      (\<forall>m. unat start \<le> m \<longrightarrow> \<not> all_range m (unat cnt) v (bm_bits b)))"
proof (cases "first_group (unat start) (unat cnt) v (bm_bits b)")
  case None
  then show ?thesis
    using bitmap_scan_and_flip_bits [OF assms, of v] first_group_None [OF None] by simp
next
  case (Some k)
  then have "unat cnt \<le> length (bm_bits b)"
    by (rule contrapos_pp) (simp add: first_group_def)
  from first_group_Some [OF Some this] show ?thesis
    using bitmap_scan_and_flip_bits [OF assms, of v] Some by auto
qed

theorem bitmap_scan_and_flip_correct_witness:
  "\<exists>idx b'. bitmap_scan_and_flip sample_bitmap 0 5 False = Some (idx, b')"
  using bitmap_scan_and_flip_correct [OF sample_bitmap_wf, of 0 5 False]
  by (auto simp: sample_bitmap_def)

text \<open>C23: releasing a claimed group passes the check that all of its bits are set and restores the
  bit map, and two claims made one after the other never overlap.\<close>

theorem bitmap_claim_release:
  assumes "bm_wf b" "0 < cnt" "bitmap_scan_and_flip b 0 cnt False = Some (idx, b')" "idx \<noteq> BITMAP_ERROR"
  shows "bitmap_all b' idx cnt = Some True \<and>
    (\<exists>b''. bitmap_set_multiple b' idx cnt False = Some b'' \<and> bm_bits b'' = bm_bits b) \<and>
    (\<forall>cnt' idx' b''. 0 < cnt' \<and> bitmap_scan_and_flip b' 0 cnt' False = Some (idx', b'') \<and>
       idx' \<noteq> BITMAP_ERROR \<longrightarrow>
       {unat idx..<unat idx + unat cnt} \<inter> {unat idx'..<unat idx' + unat cnt'} = {})"
  using bm.release_claim [OF assms] bm.claims_disjoint [OF assms] by blast

theorem bitmap_claim_release_witness:
  "\<exists>b' b''. bitmap_scan_and_flip sample_bitmap 0 5 False = Some (1, b') \<and>
     bitmap_all b' 1 5 = Some True \<and>
     bitmap_set_multiple b' 1 5 False = Some b'' \<and> bm_bits b'' = bm_bits sample_bitmap"
  using bitmap_claim_release [OF sample_bitmap_wf _ sample_scan]
  by (auto simp: sample_scan BITMAP_ERROR_def)

text \<open>The number of bits of a range with a given value, as the tests of the single bits give it.\<close>

lemma bitmap_count_card:
  assumes "bm_wf b" "unat start + unat cnt \<le> unat (bit_cnt b)"
  shows "bitmap_count b start cnt v =
    Some (of_nat (card {i \<in> {unat start..<unat start + unat cnt}. bitmap_test b (of_nat i) = Some v}))"
proof -
  have t: "bitmap_test b (of_nat i) = Some (bm_bits b ! i)" if "i < unat (bit_cnt b)" for i
  proof -
    have "i < 2 ^ 32" using that unsigned_less [of "bit_cnt b", where 'a = nat] by simp
    then have "unat (of_nat i :: u32) = i" by (simp add: unat_of_nat take_bit_nat_eq_self)
    then show ?thesis using bitmap_test_bits [OF assms(1), of "of_nat i"] that by (simp add: word_less_nat_alt)
  qed
  have "length (filter (\<lambda>j. bm_bits b ! (unat start + j) = v) [0..<unat cnt]) =
      card {j \<in> {0..<unat cnt}. bm_bits b ! (unat start + j) = v}"
    using distinct_card [of "filter (\<lambda>j. bm_bits b ! (unat start + j) = v) [0..<unat cnt]"] by simp
  also have "\<dots> = card ((+) (unat start) ` {j \<in> {0..<unat cnt}. bm_bits b ! (unat start + j) = v})"
    by (intro card_image [symmetric]) (simp add: inj_on_def)
  also have "(+) (unat start) ` {j \<in> {0..<unat cnt}. bm_bits b ! (unat start + j) = v} =
      {i \<in> {unat start..<unat start + unat cnt}. bitmap_test b (of_nat i) = Some v}" (is "?l = ?r")
  proof
    show "?l \<subseteq> ?r"
    proof
      fix i assume "i \<in> ?l"
      then obtain j where "i = unat start + j" "j < unat cnt" "bm_bits b ! i = v" by auto
      then show "i \<in> ?r" using assms(2) t [of i] by simp
    qed
    show "?r \<subseteq> ?l"
    proof
      fix i assume i: "i \<in> ?r"
      then have "i = unat start + (i - unat start)" "i - unat start \<in> {j \<in> {0..<unat cnt}. bm_bits b ! (unat start + j) = v}"
        using assms(2) by (auto simp: t)
      then show "i \<in> ?l" by blast
    qed
  qed
  finally show ?thesis by (simp only: bitmap_count_bits [OF assms])
qed

text \<open>C38: setting a range of bits and reading any bit back agree with an array of booleans, and for every range and
  value, counting afterwards gives the number of positions of the range whose bit reads as that value.\<close>

theorem bitmap_set_multiple_test:
  assumes "bm_wf b" "unat start + unat cnt \<le> unat (bit_cnt b)"
  shows "\<exists>b'. bitmap_set_multiple b start cnt v = Some b' \<and> bm_wf b' \<and> bit_cnt b' = bit_cnt b \<and>
    (\<forall>i<bit_cnt b. bitmap_test b' i =
       (if unat start \<le> unat i \<and> unat i < unat start + unat cnt then Some v else bitmap_test b i)) \<and>
    (\<forall>start' cnt' v'. unat start' + unat cnt' \<le> unat (bit_cnt b) \<longrightarrow> bitmap_count b' start' cnt' v' =
       Some (of_nat (card {i \<in> {unat start'..<unat start' + unat cnt'}. bitmap_test b' (of_nat i) = Some v'})))"
proof -
  obtain b' where b': "bitmap_set_multiple b start cnt v = Some b'" "bm_wf b'" "bit_cnt b' = bit_cnt b"
      "bm_bits b' = set_range (unat start) (unat cnt) v (bm_bits b)"
    using bitmap_set_multiple_bits [OF assms] by blast
  have "bitmap_test b' i = (if unat start \<le> unat i \<and> unat i < unat start + unat cnt
      then Some v else bitmap_test b i)" if "i < bit_cnt b" for i
    using bitmap_test_bits [OF b'(2), of i] bitmap_test_bits [OF assms(1) that] that b'(3,4)
    by (simp add: nth_set_range word_less_nat_alt)
  then show ?thesis using b' bitmap_count_card [OF b'(2)] by (intro exI [of _ b']) simp
qed

theorem bitmap_set_multiple_test_witness:
  "\<exists>b'. bitmap_set_multiple sample_bitmap 3 9 True = Some b' \<and> bm_wf b' \<and>
     bitmap_test b' 5 = Some True \<and> bitmap_count b' 4 2 True = Some 2 \<and> bitmap_count b' 4 2 False = Some 0"
proof -
  have n: "unat (bit_cnt sample_bitmap) \<ge> 12" by (simp add: sample_bitmap_def)
  obtain b' where b: "bitmap_set_multiple sample_bitmap 3 9 True = Some b'" "bm_wf b'"
    and t: "\<forall>i<bit_cnt sample_bitmap. bitmap_test b' i =
       (if 3 \<le> unat i \<and> unat i < 12 then Some True else bitmap_test sample_bitmap i)"
    and c: "\<forall>start' cnt' v'. unat start' + unat cnt' \<le> unat (bit_cnt sample_bitmap) \<longrightarrow> bitmap_count b' start' cnt' v' =
       Some (of_nat (card {i \<in> {unat start'..<unat start' + unat cnt'}. bitmap_test b' (of_nat i) = Some v'}))"
    using bitmap_set_multiple_test [OF sample_bitmap_wf, of 3 9 True] n by auto
  have r: "bitmap_test b' 4 = Some True" "bitmap_test b' 5 = Some True"
    using t n by (simp_all add: word_less_nat_alt)
  have e: "{i \<in> {4..<6::nat}. bitmap_test b' (of_nat i) = Some True} = {4, 5}"
    "{i \<in> {4..<6::nat}. bitmap_test b' (of_nat i) = Some False} = {}"
    using r by (auto simp: less_Suc_eq eval_nat_numeral)
  have "bitmap_count b' 4 2 v' =
      Some (of_nat (card {i \<in> {4..<6::nat}. bitmap_test b' (of_nat i) = Some v'}))" for v'
    using c [rule_format, of 4 2 v'] n by simp
  then have "bitmap_count b' 4 2 True = Some 2" "bitmap_count b' 4 2 False = Some 0" by (simp_all only: e) simp_all
  then show ?thesis using b r by blast
qed

end
