(* ===== verification/Lexer.thy ===== *)
theory Lexer
  imports Prelude "HOL-Library.Char_ord"
begin

text \<open>
  The Pascal scanner: \<open>scanner.c\<close>, \<open>lexanc.c\<close>, \<open>printtoken.c\<close>, the driver \<open>lexandr.c\<close> and the constants of
  \<open>token.h\<close> and \<open>lexan.h\<close>.

  Standard input is the string of characters not yet read; \<open>ungetc\<close> puts characters back, so
  \<open>peekchar\<close> and \<open>peek2char\<close> leave it alone. The end of file is \<^const>\<open>None\<close>. \<open>CHARCLASS[EOF]\<close>
  reads the word in front of the array, which the program never writes: its value is the argument \<open>oob\<close>.
  Floating point arithmetic is the argument \<open>fp\<close>, a record of the operations the source uses.
  \<open>long\<close> is 64 bits wide and \<open>int\<close> 32; the arithmetic that can overflow is on words.
  An access outside the tables of powers of ten has the outcome \<^const>\<open>None\<close>.
\<close>

section \<open>Tokens and the scanner state\<close>

datatype 'f tokenval = Zeroed | Which int | Intnum int | Realnum 'f | Tokenstring string

record 'f token =
  tokentype :: int
  data_type :: int
  tokenval :: "'f tokenval"

record 'f fparith =
  fof :: "int \<Rightarrow> 'f"
  fadd :: "'f \<Rightarrow> 'f \<Rightarrow> 'f"
  fmul :: "'f \<Rightarrow> 'f \<Rightarrow> 'f"
  ftenth :: 'f
  fshow :: "'f \<Rightarrow> string"

record 'f lexer =
  inp :: string
  out :: string
  EOFFLG :: int
  dcl :: "'f list"
  dclCreated :: int
  pdcl :: "'f list"
  pdclCreated :: int

definition OPERATOR :: int where "OPERATOR = 0"
definition DELIMITER :: int where "DELIMITER = 1"
definition RESERVED :: int where "RESERVED = 2"
definition IDENTIFIERTOK :: int where "IDENTIFIERTOK = 3"
definition STRINGTOK :: int where "STRINGTOK = 4"
definition NUMBERTOK :: int where "NUMBERTOK = 5"
definition INTEGER :: int where "INTEGER = 0"
definition REAL :: int where "REAL = 1"

text \<open>The operator, delimiter and reserved word numbers of \<open>token.h\<close>; the reserved words carry the
  prefix \<open>RW_\<close> here.\<close>

definition PLUSOP :: int where "PLUSOP = 1"
definition MINUSOP :: int where "MINUSOP = 2"
definition TIMESOP :: int where "TIMESOP = 3"
definition DIVIDEOP :: int where "DIVIDEOP = 4"
definition ASSIGNOP :: int where "ASSIGNOP = 5"
definition EQOP :: int where "EQOP = 6"
definition NEOP :: int where "NEOP = 7"
definition LTOP :: int where "LTOP = 8"
definition LEOP :: int where "LEOP = 9"
definition GEOP :: int where "GEOP = 10"
definition GTOP :: int where "GTOP = 11"
definition POINTEROP :: int where "POINTEROP = 12"
definition DOTOP :: int where "DOTOP = 13"
definition ANDOP :: int where "ANDOP = 14"
definition OROP :: int where "OROP = 15"
definition NOTOP :: int where "NOTOP = 16"
definition DIVOP :: int where "DIVOP = 17"
definition MODOP :: int where "MODOP = 18"
definition INOP :: int where "INOP = 19"
definition COMMA :: int where "COMMA = 280"
definition SEMICOLON :: int where "SEMICOLON = 281"
definition COLON :: int where "COLON = 282"
definition LPAREN :: int where "LPAREN = 283"
definition RPAREN :: int where "RPAREN = 284"
definition LBRACKET :: int where "LBRACKET = 285"
definition RBRACKET :: int where "RBRACKET = 286"
definition DOTDOT :: int where "DOTDOT = 287"
definition RW_ARRAY :: int where "RW_ARRAY = 288"
definition RW_BEGINBEGIN :: int where "RW_BEGINBEGIN = 289"
definition RW_CASE :: int where "RW_CASE = 290"
definition RW_CONST :: int where "RW_CONST = 291"
definition RW_DO :: int where "RW_DO = 292"
definition RW_DOWNTO :: int where "RW_DOWNTO = 293"
definition RW_ELSE :: int where "RW_ELSE = 294"
definition RW_END :: int where "RW_END = 295"
definition RW_FILEFILE :: int where "RW_FILEFILE = 296"
definition RW_FOR :: int where "RW_FOR = 297"
definition RW_FUNCTION :: int where "RW_FUNCTION = 298"
definition RW_GOTO :: int where "RW_GOTO = 299"
definition RW_IF :: int where "RW_IF = 300"
definition RW_LABEL :: int where "RW_LABEL = 301"
definition RW_NIL :: int where "RW_NIL = 302"
definition RW_OF :: int where "RW_OF = 303"
definition RW_PACKED :: int where "RW_PACKED = 304"
definition RW_PROCEDURE :: int where "RW_PROCEDURE = 305"
definition RW_PROGRAM :: int where "RW_PROGRAM = 306"
definition RW_RECORD :: int where "RW_RECORD = 307"
definition RW_REPEAT :: int where "RW_REPEAT = 308"
definition RW_SET :: int where "RW_SET = 309"
definition RW_THEN :: int where "RW_THEN = 310"
definition RW_TO :: int where "RW_TO = 311"
definition RW_TYPE :: int where "RW_TYPE = 312"
definition RW_UNTIL :: int where "RW_UNTIL = 313"
definition RW_VAR :: int where "RW_VAR = 314"
definition RW_WHILE :: int where "RW_WHILE = 315"
definition RW_WITH :: int where "RW_WITH = 316"

definition DELIMITER_BIAS :: int where "DELIMITER_BIAS = COMMA - 1"
definition RESERVED_BIAS :: int where "RESERVED_BIAS = RW_ARRAY - 1"

definition ALPHA :: int where "ALPHA = 1"
definition NUMERIC :: int where "NUMERIC = 2"
definition SPECIAL :: int where "SPECIAL = 3"

lemmas token_constants = OPERATOR_def DELIMITER_def RESERVED_def IDENTIFIERTOK_def STRINGTOK_def
  NUMBERTOK_def INTEGER_def REAL_def DELIMITER_BIAS_def RESERVED_BIAS_def
lemmas token_numbers =
  PLUSOP_def MINUSOP_def TIMESOP_def DIVIDEOP_def ASSIGNOP_def EQOP_def NEOP_def LTOP_def
  LEOP_def GEOP_def GTOP_def POINTEROP_def DOTOP_def ANDOP_def OROP_def NOTOP_def DIVOP_def
  MODOP_def INOP_def COMMA_def SEMICOLON_def COLON_def LPAREN_def RPAREN_def LBRACKET_def
  RBRACKET_def DOTDOT_def RW_ARRAY_def RW_BEGINBEGIN_def RW_CASE_def RW_CONST_def RW_DO_def
  RW_DOWNTO_def RW_ELSE_def RW_END_def RW_FILEFILE_def RW_FOR_def RW_FUNCTION_def
  RW_GOTO_def RW_IF_def RW_LABEL_def RW_NIL_def RW_OF_def RW_PACKED_def RW_PROCEDURE_def
  RW_PROGRAM_def RW_RECORD_def RW_REPEAT_def RW_SET_def RW_THEN_def RW_TO_def RW_TYPE_def
  RW_UNTIL_def RW_VAR_def RW_WHILE_def RW_WITH_def
lemmas class_constants = ALPHA_def NUMERIC_def SPECIAL_def

section \<open>Characters\<close>

definition code :: "char \<Rightarrow> int" where
  "code c = int (of_char c)"

definition getc :: "string \<Rightarrow> string" where
  "getc s = tl s"

definition peekchar :: "string \<Rightarrow> char option" where
  "peekchar s = (case s of [] \<Rightarrow> None | c # _ \<Rightarrow> Some c)"

definition peek2char :: "string \<Rightarrow> char option" where
  "peek2char s = (case s of _ # c # _ \<Rightarrow> Some c | _ \<Rightarrow> None)"

definition specchar :: string where
  "specchar = ''+-*/:=<>^.,;()[]{}''"

definition init_charclass :: "int list" where
  "init_charclass =
     (let cc = replicate 256 0;
          cc = fold (\<lambda>i cc. cc[i := ALPHA]) [65..<91] cc;
          cc = fold (\<lambda>i cc. cc[i := ALPHA]) [97..<123] cc;
          cc = fold (\<lambda>i cc. cc[i := NUMERIC]) [48..<58] cc
      in fold (\<lambda>c cc. cc[of_char c := SPECIAL]) specchar cc)"

definition charclass :: "int \<Rightarrow> char option \<Rightarrow> int" where
  "charclass oob c = (case c of None \<Rightarrow> oob | Some ch \<Rightarrow> init_charclass ! of_char ch)"

definition initscanner :: "'f lexer \<Rightarrow> 'f lexer" where
  "initscanner st = st\<lparr>EOFFLG := 0\<rparr>"

section \<open>Blanks and comments\<close>

fun skip_brace :: "string \<Rightarrow> string" where
  "skip_brace [] = []"
| "skip_brace (x # s) =
     (if peekchar s \<noteq> None \<and> peekchar s \<noteq> Some CHR ''}'' then skip_brace s else s)"

fun skip_paren :: "char option \<Rightarrow> string \<Rightarrow> char option \<times> string" where
  "skip_paren cc [] = (peek2char [], [])"
| "skip_paren cc (x # s) =
     (let c = cc; cc = peek2char s
      in if cc \<noteq> None \<and> (c \<noteq> Some CHR ''*'' \<or> cc \<noteq> Some CHR '')'') then skip_paren cc s else (cc, s))"

text \<open>Whether the loop of \<open>skipblanks\<close> goes on, and its body.\<close>

definition blank_ahead :: "string \<Rightarrow> bool" where
  "blank_ahead s = (case peekchar s of None \<Rightarrow> False
     | Some c \<Rightarrow> c = CHR '' '' \<or> c = CHR 0x0A \<or> c = CHR 0x09 \<or> c = CHR ''{'' \<or>
         (c = CHR ''('' \<and> peek2char s = Some CHR ''*''))"

definition skip_step :: "string \<Rightarrow> string" where
  "skip_step s =
     (let (c, s) =
        (if peekchar s = Some CHR ''{'' then (let s = skip_brace s in (peekchar s, s))
         else if peekchar s = Some CHR ''('' then
           (let cc = peek2char s; s = getc s; (cc, s) = skip_paren cc s; s = getc s in (cc, s))
         else (peekchar s, s))
      in if c \<noteq> None then getc s else s)"

lemma length_skip_brace: "length (skip_brace (x # s)) \<le> length s"
  by (induction s arbitrary: x) (auto intro: le_SucI)

lemma length_skip_paren: "length (snd (skip_paren cc s)) \<le> length s"
  by (induction s arbitrary: cc) (auto simp: Let_def intro: le_SucI)

lemma length_skip_step: "blank_ahead s \<Longrightarrow> length (skip_step s) < length s"
proof (cases s)
  case (Cons x r)
  then show ?thesis
    using length_skip_brace [of x r] length_skip_paren [of "peek2char s" "getc s"]
    by (auto simp: skip_step_def getc_def peekchar_def Let_def split: prod.splits)
qed (simp add: blank_ahead_def peekchar_def)

function skipblanks_loop :: "string \<Rightarrow> string" where
  "skipblanks_loop s = (if blank_ahead s then skipblanks_loop (skip_step s) else s)"
  by pat_completeness auto
termination by (relation "measure length") (simp_all add: length_skip_step)

declare skipblanks_loop.simps [simp del]

definition skipblanks :: "'f lexer \<Rightarrow> 'f lexer" where
  "skipblanks st = st\<lparr>inp := skipblanks_loop (inp st)\<rparr>"

section \<open>Filling in a token\<close>

definition createOperator :: "int \<Rightarrow> 'f token \<Rightarrow> 'f token" where
  "createOperator opVal tok = tok\<lparr>tokentype := OPERATOR, tokenval := Which opVal\<rparr>"

definition createDelimiter :: "int \<Rightarrow> 'f token \<Rightarrow> 'f token" where
  "createDelimiter delimVal tok =
     tok\<lparr>tokentype := DELIMITER, tokenval := Which (delimVal - DELIMITER_BIAS)\<rparr>"

definition createReserved :: "int \<Rightarrow> 'f token \<Rightarrow> 'f token" where
  "createReserved resVal tok =
     tok\<lparr>tokentype := RESERVED - RESERVED_BIAS, tokenval := Which resVal\<rparr>"

text \<open>The text of a character buffer up to its terminating null, and \<open>strncpy\<close> of it into the
  16 characters of the token.\<close>

definition cstr :: "string \<Rightarrow> string" where
  "cstr s = takeWhile (\<lambda>c. c \<noteq> CHR 0x00) s"

definition strncpy16 :: "string \<Rightarrow> string" where
  "strncpy16 s = take 16 (cstr s @ replicate 16 CHR 0x00)"

definition createIdentifier :: "string \<Rightarrow> 'f token \<Rightarrow> 'f token" where
  "createIdentifier word tok =
     tok\<lparr>tokentype := IDENTIFIERTOK, tokenval := Tokenstring (strncpy16 word)\<rparr>"

definition createString :: "string \<Rightarrow> 'f token \<Rightarrow> 'f token" where
  "createString word tok = tok\<lparr>tokentype := STRINGTOK, tokenval := Tokenstring (strncpy16 word)\<rparr>"

section \<open>Identifiers and reserved words\<close>

fun identifier_loop :: "int \<Rightarrow> string \<Rightarrow> string \<Rightarrow> bool \<Rightarrow> string \<times> bool \<times> string" where
  "identifier_loop oob [] word numericFlag =
     (word @ [CHR 0xFF], numericFlag \<or> charclass oob None = NUMERIC, [])"
| "identifier_loop oob (x # s) word numericFlag =
     (let word = word @ [x]; c = peekchar s;
          numericFlag = (numericFlag \<or> charclass oob c = NUMERIC)
      in if c \<noteq> None \<and> length word < 15 \<and> (charclass oob c = ALPHA \<or> charclass oob c = NUMERIC)
         then identifier_loop oob s word numericFlag else (word, numericFlag, s))"

fun identifier_eat :: "int \<Rightarrow> string \<Rightarrow> string" where
  "identifier_eat oob [] = []"
| "identifier_eat oob (x # s) =
     (if charclass oob (Some x) = ALPHA \<or> charclass oob (Some x) = NUMERIC
      then identifier_eat oob s else x # s)"

definition strcmp_eq :: "string \<Rightarrow> string \<Rightarrow> bool" where
  "strcmp_eq a b \<longleftrightarrow> cstr a = cstr b"

definition identifier_switch :: "nat \<Rightarrow> string \<Rightarrow> 'f token \<Rightarrow> 'f token" where
  "identifier_switch counter word tok =
     (if counter = 2 then
       if strcmp_eq word ''do'' then createReserved RW_DO tok
       else if strcmp_eq word ''if'' then createReserved RW_IF tok
       else if strcmp_eq word ''of'' then createReserved RW_OF tok
       else if strcmp_eq word ''to'' then createReserved RW_TO tok
       else if strcmp_eq word ''or'' then createOperator OROP tok
       else if strcmp_eq word ''in'' then createOperator INOP tok
       else createIdentifier word tok
      else if counter = 3 then
       if strcmp_eq word ''end'' then createReserved RW_END tok
       else if strcmp_eq word ''for'' then createReserved RW_FOR tok
       else if strcmp_eq word ''nil'' then createReserved RW_NIL tok
       else if strcmp_eq word ''set'' then createReserved RW_SET tok
       else if strcmp_eq word ''var'' then createReserved RW_VAR tok
       else if strcmp_eq word ''and'' then createOperator ANDOP tok
       else if strcmp_eq word ''not'' then createOperator NOTOP tok
       else if strcmp_eq word ''div'' then createOperator DIVOP tok
       else if strcmp_eq word ''mod'' then createOperator MODOP tok
       else createIdentifier word tok
      else if counter = 4 then
       if strcmp_eq word ''case'' then createReserved RW_CASE tok
       else if strcmp_eq word ''else'' then createReserved RW_ELSE tok
       else if strcmp_eq word ''file'' then createReserved RW_FILEFILE tok
       else if strcmp_eq word ''goto'' then createReserved RW_GOTO tok
       else if strcmp_eq word ''then'' then createReserved RW_THEN tok
       else if strcmp_eq word ''type'' then createReserved RW_TYPE tok
       else if strcmp_eq word ''with'' then createReserved RW_WITH tok
       else createIdentifier word tok
      else if counter = 5 then
       if strcmp_eq word ''array'' then createReserved RW_ARRAY tok
       else if strcmp_eq word ''begin'' then createReserved RW_BEGINBEGIN tok
       else if strcmp_eq word ''const'' then createReserved RW_CONST tok
       else if strcmp_eq word ''label'' then createReserved RW_LABEL tok
       else if strcmp_eq word ''until'' then createReserved RW_UNTIL tok
       else if strcmp_eq word ''while'' then createReserved RW_WHILE tok
       else createIdentifier word tok
      else
       if strcmp_eq word ''downto'' then createReserved RW_DOWNTO tok
       else if strcmp_eq word ''function'' then createReserved RW_FUNCTION tok
       else if strcmp_eq word ''packed'' then createReserved RW_PACKED tok
       else if strcmp_eq word ''procedure'' then createReserved RW_PROCEDURE tok
       else if strcmp_eq word ''program'' then createReserved RW_PROGRAM tok
       else if strcmp_eq word ''record'' then createReserved RW_RECORD tok
       else if strcmp_eq word ''repeat'' then createReserved RW_REPEAT tok
       else createIdentifier word tok)"

definition lex_identifier :: "int \<Rightarrow> 'f lexer \<Rightarrow> 'f token \<Rightarrow> 'f lexer \<times> 'f token" where
  "lex_identifier oob st tok =
     (let (word, numericFlag, s) = identifier_loop oob (inp st) [] False;
          s = identifier_eat oob s;
          counter = length word
      in (st\<lparr>inp := s\<rparr>,
          if numericFlag \<or> counter < 2 \<or> counter > 9 then createIdentifier word tok
          else identifier_switch counter word tok))"

section \<open>Strings\<close>

fun getstring_loop :: "string \<Rightarrow> string \<Rightarrow> string \<times> string" where
  "getstring_loop [] word = (word, [])"
| "getstring_loop (c # s) word =
     (if c = CHR 0x27 then
        (case s of
           [] \<Rightarrow> (word, c # s)
         | cc # r \<Rightarrow>
             if cc = CHR 0x27 then getstring_loop r (if length word < 15 then word @ [cc] else word)
             else (word, c # s))
      else getstring_loop s (if length word < 15 then word @ [c] else word))"

definition getstring :: "'f lexer \<Rightarrow> 'f token \<Rightarrow> 'f lexer \<times> 'f token" where
  "getstring st tok =
     (let (word, s) = getstring_loop (getc (inp st)) []
      in (st\<lparr>inp := getc s\<rparr>, createString word tok))"

section \<open>Operators and delimiters\<close>

definition special :: "'f lexer \<Rightarrow> 'f token \<Rightarrow> 'f lexer \<times> 'f token" where
  "special st tok =
     (let s = inp st; c = peekchar s; cc = peek2char s;
          one = st\<lparr>inp := getc s\<rparr>; two = st\<lparr>inp := getc (getc s)\<rparr>
      in if c = Some CHR ''+'' then (one, createOperator PLUSOP tok)
         else if c = Some CHR ''-'' then (one, createOperator MINUSOP tok)
         else if c = Some CHR ''*'' then (one, createOperator TIMESOP tok)
         else if c = Some CHR ''/'' then (one, createOperator DIVIDEOP tok)
         else if c = Some CHR '':'' then
           (if cc = Some CHR ''='' then (two, createOperator ASSIGNOP tok) else (one, createDelimiter COLON tok))
         else if c = Some CHR ''='' then (one, createOperator EQOP tok)
         else if c = Some CHR ''<'' then
           (if cc = Some CHR ''>'' then (two, createOperator NEOP tok)
            else if cc = Some CHR ''='' then (two, createOperator LEOP tok)
            else (one, createOperator LTOP tok))
         else if c = Some CHR ''>'' then
           (if cc = Some CHR ''='' then (two, createOperator GEOP tok) else (one, createOperator GTOP tok))
         else if c = Some CHR ''^'' then (one, createOperator POINTEROP tok)
         else if c = Some CHR ''.'' then
           (if cc = Some CHR ''.'' then (two, createDelimiter DOTDOT tok) else (one, createOperator DOTOP tok))
         else if c = Some CHR '','' then (one, createDelimiter COMMA tok)
         else if c = Some CHR '';'' then (one, createDelimiter SEMICOLON tok)
         else if c = Some CHR ''('' then (one, createDelimiter LPAREN tok)
         else if c = Some CHR '')'' then (one, createDelimiter RPAREN tok)
         else if c = Some CHR ''['' then (one, createDelimiter LBRACKET tok)
         else if c = Some CHR '']'' then (one, createDelimiter RBRACKET tok)
         else (one\<lparr>out := out st @ ''Unrecognized symbol: '' @
                 (case c of None \<Rightarrow> [CHR 0xFF] | Some x \<Rightarrow> [x]) @ '' '' @ [CHR 0x0A]\<rparr>, tok))"

section \<open>Numbers\<close>

fun power_table :: "'f fparith \<Rightarrow> 'f \<Rightarrow> nat \<Rightarrow> 'f \<Rightarrow> 'f list" where
  "power_table fp base 0 x = []"
| "power_table fp base (Suc n) x = x # power_table fp base n (fmul fp x base)"

definition createDCL :: "'f fparith \<Rightarrow> 'f lexer \<Rightarrow> 'f lexer" where
  "createDCL fp st = st\<lparr>dcl := power_table fp (ftenth fp) 100 (fof fp 1)\<rparr>"

definition createPDCL :: "'f fparith \<Rightarrow> 'f lexer \<Rightarrow> 'f lexer" where
  "createPDCL fp st = st\<lparr>pdcl := power_table fp (fof fp 10) 100 (fof fp 1)\<rparr>"

definition table_at :: "'f list \<Rightarrow> int \<Rightarrow> 'f option" where
  "table_at xs i = (if 0 \<le> i \<and> i < 100 \<and> nat i < length xs then Some (xs ! nat i) else None)"

text \<open>The digits in front of the decimal point: the value as an integer, the value of the first eight
  significant digits as a floating point number, the number of significant digits, and whether a digit
  other than 0 was seen.\<close>

fun int_digits ::
  "'f fparith \<Rightarrow> int \<Rightarrow> string \<Rightarrow> u64 \<Rightarrow> 'f \<Rightarrow> int \<Rightarrow> bool \<Rightarrow> string \<times> u64 \<times> 'f \<times> int \<times> bool" where
  "int_digits fp oob [] lnum dnum sigDigCounter nonZeroFlag = ([], lnum, dnum, sigDigCounter, nonZeroFlag)"
| "int_digits fp oob (x # s) lnum dnum sigDigCounter nonZeroFlag =
     (if charclass oob (Some x) = NUMERIC then
        let charval = code x - 48;
            nonZeroFlag = (nonZeroFlag \<or> charval \<noteq> 0);
            lnum = lnum * 10 + of_int charval
        in if nonZeroFlag then
             int_digits fp oob s lnum
               (fadd fp (fmul fp dnum (fof fp 10)) (fof fp (if sigDigCounter \<ge> 8 then 0 else charval)))
               (sigDigCounter + 1) nonZeroFlag
           else int_digits fp oob s lnum dnum sigDigCounter nonZeroFlag
      else (x # s, lnum, dnum, sigDigCounter, nonZeroFlag))"

fun frac_digits ::
  "'f fparith \<Rightarrow> int \<Rightarrow> 'f list \<Rightarrow> string \<Rightarrow> 'f \<Rightarrow> int \<Rightarrow> bool \<Rightarrow> int \<Rightarrow> int \<Rightarrow> (string \<times> 'f \<times> int) option" where
  "frac_digits fp oob tab [] dnum sigDigCounter nonZeroFlag dclCounter firstSigDigLoc =
     Some ([], dnum, firstSigDigLoc)"
| "frac_digits fp oob tab (x # s) dnum sigDigCounter nonZeroFlag dclCounter firstSigDigLoc =
     (if charclass oob (Some x) = NUMERIC then do {
        let charval = code x - 48;
        let nonZeroFlag = (nonZeroFlag \<or> charval \<noteq> 0);
        let firstSigDigLoc = (if \<not> nonZeroFlag then firstSigDigLoc - 1 else firstSigDigLoc);
        p \<leftarrow> table_at tab dclCounter;
        let dcharval = fmul fp (fof fp charval) p;
        if nonZeroFlag \<and> sigDigCounter < 8 then
          frac_digits fp oob tab s (fadd fp dnum dcharval) (sigDigCounter + 1) nonZeroFlag
            (dclCounter + 1) firstSigDigLoc
        else frac_digits fp oob tab s dnum sigDigCounter nonZeroFlag (dclCounter + 1) firstSigDigLoc
      }
      else Some (x # s, dnum, firstSigDigLoc))"

fun exp_digits :: "int \<Rightarrow> string \<Rightarrow> u32 \<Rightarrow> bool \<Rightarrow> string \<times> u32" where
  "exp_digits oob [] expVal nonZeroFlag = ([], expVal)"
| "exp_digits oob (x # s) expVal nonZeroFlag =
     (if charclass oob (Some x) = NUMERIC then
        let charval = code x - 48;
            nonZeroFlag = (nonZeroFlag \<or> charval \<noteq> 0)
        in exp_digits oob s (if nonZeroFlag then expVal * 10 + of_int charval else expVal) nonZeroFlag
      else (x # s, expVal))"

fun scale_down :: "'f fparith \<Rightarrow> nat \<Rightarrow> 'f \<Rightarrow> 'f" where
  "scale_down fp 0 d = d"
| "scale_down fp (Suc n) d = scale_down fp n (fmul fp d (ftenth fp))"

text \<open>The optional fraction, and the shift of the significant digits to the ones place.\<close>

definition number_fraction ::
  "'f fparith \<Rightarrow> int \<Rightarrow> 'f lexer \<Rightarrow> string \<Rightarrow> 'f \<Rightarrow> int \<Rightarrow> bool \<Rightarrow> (bool \<times> string \<times> 'f \<times> int) option" where
  "number_fraction fp oob st s dnum sigDigCounter nonZeroFlag = do {
     let firstSigDigLoc = sigDigCounter - 1;
     (real, s, dnum, firstSigDigLoc) \<leftarrow>
       (if peekchar s = Some CHR ''.'' \<and> charclass oob (peek2char s) = NUMERIC then do {
          (s, dnum, firstSigDigLoc) \<leftarrow>
            frac_digits fp oob (dcl st) (getc s) dnum sigDigCounter nonZeroFlag 1 firstSigDigLoc;
          Some (True, s, dnum, firstSigDigLoc)
        } else Some (False, s, dnum, firstSigDigLoc));
     if firstSigDigLoc > 0 then do {
       p \<leftarrow> table_at (dcl st) firstSigDigLoc;
       Some (real, s, fmul fp dnum p, firstSigDigLoc)
     } else if firstSigDigLoc < 0 then do {
       p \<leftarrow> table_at (pdcl st) (- firstSigDigLoc);
       Some (real, s, fmul fp dnum p, firstSigDigLoc)
     } else Some (real, s, dnum, firstSigDigLoc)
   }"

text \<open>The optional exponent: whether there is one, the rest of the input, the signed exponent and whether
  its computation overflowed into the sign.\<close>

definition number_exponent :: "int \<Rightarrow> string \<Rightarrow> bool \<times> string \<times> u32 \<times> bool" where
  "number_exponent oob s =
     (if peekchar s = Some CHR ''e'' \<or> peekchar s = Some CHR ''E'' then
        let s = getc s;
            expSignFlag = (peekchar s = Some CHR ''-'');
            s = (if peekchar s = Some CHR ''+'' \<or> expSignFlag then getc s else s);
            (s, expVal) = exp_digits oob s 0 False
        in (True, s, if expSignFlag then - expVal else expVal, sint expVal < 0)
      else (False, s, 0, False))"

definition number :: "'f fparith \<Rightarrow> int \<Rightarrow> 'f lexer \<Rightarrow> 'f token \<Rightarrow> ('f lexer \<times> 'f token) option" where
  "number fp oob st tok = do {
     let (s, lnum, dnum, sigDigCounter, nonZeroFlag) = int_digits fp oob (inp st) 0 (fof fp 0) 0 False;
     let intErrorFlag = (sigDigCounter > 10 \<or> sint lnum < 0 \<or> sint lnum > 2147483647);
     let st = (if dclCreated st = 0 then (createDCL fp st)\<lparr>dclCreated := 1\<rparr> else st);
     let st = (if pdclCreated st = 0 then (createPDCL fp st)\<lparr>pdclCreated := 1\<rparr> else st);
     (real1, s, dnum, firstSigDigLoc) \<leftarrow> number_fraction fp oob st s dnum sigDigCounter nonZeroFlag;
     let (real2, s, expVal, floatErrorFlag) = number_exponent oob s;
     let st = st\<lparr>inp := s\<rparr>;
     if real1 \<or> real2 then do {
       let expVal = expVal + of_int firstSigDigLoc;
       (st, dnum) \<leftarrow>
         (if sint expVal > 38 \<or> sint expVal < - 38 \<or> floatErrorFlag then
            Some (st\<lparr>out := out st @ ''Floating number out of range'' @ [CHR 0x0A]\<rparr>, fof fp 0)
          else if sint expVal > 0 then do {
            p \<leftarrow> table_at (pdcl st) (sint expVal);
            Some (st, fmul fp dnum p)
          } else Some (st, scale_down fp (nat (- sint expVal)) dnum));
       Some (st, tok\<lparr>tokentype := NUMBERTOK, data_type := REAL, tokenval := Realnum dnum\<rparr>)
     } else do {
       let (st, lnum) =
         (if intErrorFlag then
            (st\<lparr>out := out st @ ''Integer number out of range'' @ [CHR 0x0A]\<rparr>, 0)
          else (st, lnum));
       Some (st, tok\<lparr>tokentype := NUMBERTOK, data_type := INTEGER,
                     tokenval := Intnum (sint (ucast lnum :: u32))\<rparr>)
     }
   }"

section \<open>The scanner\<close>

definition talloc :: "'f token" where
  "talloc = \<lparr>tokentype = 0, data_type = 0, tokenval = Zeroed\<rparr>"

definition gettoken :: "'f fparith \<Rightarrow> int \<Rightarrow> 'f lexer \<Rightarrow> ('f lexer \<times> 'f token) option" where
  "gettoken fp oob st = do {
     let tok = talloc;
     let st = skipblanks st;
     case peekchar (inp st) of
       None \<Rightarrow> Some (st\<lparr>EOFFLG := 1\<rparr>, tok)
     | Some c \<Rightarrow>
         let cclass = charclass oob (Some c)
         in if cclass = ALPHA then Some (lex_identifier oob st tok)
            else if cclass = NUMERIC then number fp oob st tok
            else if c = CHR 0x27 then Some (getstring st tok)
            else Some (special st tok)
   }"

section \<open>Printing tokens\<close>

fun show_nat :: "nat \<Rightarrow> string" where
  "show_nat n = (if n < 10 then [char_of (48 + n)] else show_nat (n div 10) @ [char_of (48 + n mod 10)])"

definition show_int :: "int \<Rightarrow> string" where
  "show_int i = (if i < 0 then CHR ''-'' # show_nat (nat (- i)) else show_nat (nat i))"

definition pad :: "nat \<Rightarrow> string \<Rightarrow> string" where
  "pad n s = replicate (n - length s) CHR '' '' @ s"

definition opprnt :: "string list" where
  "opprnt = ['' '', ''+'', ''-'', ''*'', ''/'', '':='', ''='', ''<>'', ''<'', ''<='',
     ''>='', ''>'', ''^'', ''.'', ''and'', ''or'', ''not'', ''div'', ''mod'', ''in'', ''if'', ''goto'',
     ''progn'', ''label'', ''funcall'', ''aref'', ''program'', ''float'']"

definition delprnt :: "string list" where
  "delprnt = [''  '', '' ,'', '' ;'', '' :'', '' ('', '' )'', '' ['', '' ]'', ''..'']"

definition resprnt :: "string list" where
  "resprnt = ['' '', ''array'', ''begin'', ''case'', ''const'', ''do'', ''downto'', ''else'', ''end'',
     ''file'', ''for'', ''function'', ''goto'', ''if'', ''label'', ''nil'', ''of'', ''packed'',
     ''procedure'', ''program'', ''record'', ''repeat'', ''set'', ''then'', ''to'', ''type'', ''until'',
     ''var'', ''while'', ''with'']"

fun whichval :: "'f tokenval \<Rightarrow> int option" where
  "whichval (Which n) = Some n"
| "whichval Zeroed = Some 0"
| "whichval _ = None"

definition name_at :: "string list \<Rightarrow> int \<Rightarrow> string option" where
  "name_at names i = (if 0 \<le> i \<and> nat i < length names then Some (names ! nat i) else None)"

definition print_which :: "string list \<Rightarrow> 'f token \<Rightarrow> string option" where
  "print_which names tok = do {
     w \<leftarrow> whichval (tokenval tok);
     name \<leftarrow> name_at names w;
     Some (''tokentype: '' @ pad 2 (show_int (tokentype tok)) @ ''  which: '' @ pad 4 (show_int w)
           @ ''   '' @ pad 10 name @ [CHR 0x0A])
   }"

definition printtoken :: "'f fparith \<Rightarrow> 'f token \<Rightarrow> string option" where
  "printtoken fp tok =
     (if tokentype tok = OPERATOR then print_which opprnt tok
      else if tokentype tok = DELIMITER then print_which delprnt tok
      else if tokentype tok = RESERVED then print_which resprnt tok
      else if tokentype tok = IDENTIFIERTOK \<or> tokentype tok = STRINGTOK then
        (case tokenval tok of
           Tokenstring w \<Rightarrow> Some (''tokentype: '' @ pad 2 (show_int (tokentype tok)) @ ''  value:  ''
                              @ pad 16 (cstr w) @ [CHR 0x0A])
         | _ \<Rightarrow> None)
      else if tokentype tok = NUMBERTOK then
        (case tokenval tok of
           Intnum i \<Rightarrow> if data_type tok = INTEGER then
               Some (''tokentype: '' @ pad 2 (show_int (tokentype tok)) @ ''  type:  ''
                     @ pad 4 (show_int (data_type tok)) @ '' '' @ pad 12 (show_int i) @ [CHR 0x0A])
             else None
         | Realnum r \<Rightarrow> if data_type tok = REAL then
               Some (''tokentype: '' @ pad 2 (show_int (tokentype tok)) @ ''  type:  ''
                     @ pad 4 (show_int (data_type tok)) @ '' '' @ pad 12 (fshow fp r) @ [CHR 0x0A])
             else None
         | _ \<Rightarrow> None)
      else Some [])"

section \<open>The driver\<close>

partial_function (option) testscanner :: "'f fparith \<Rightarrow> int \<Rightarrow> 'f lexer \<Rightarrow> 'f lexer option" where
  "testscanner fp oob st =
     (if EOFFLG st = 0 then do {
        (st, tok) \<leftarrow> gettoken fp oob st;
        st \<leftarrow> (if EOFFLG st = 0 then do {
                line \<leftarrow> printtoken fp tok;
                Some (st\<lparr>out := out st @ line\<rparr>)
              } else Some st);
        testscanner fp oob st
      } else Some st)"

declare testscanner.simps [code]

text \<open>The global variables before the program runs, and the program on an input.\<close>

definition lexer_start :: "'f fparith \<Rightarrow> string \<Rightarrow> 'f lexer" where
  "lexer_start fp s = \<lparr>inp = s, out = [], EOFFLG = 0, dcl = replicate 100 (fof fp 0), dclCreated = 0,
     pdcl = replicate 100 (fof fp 0), pdclCreated = 0\<rparr>"

definition lexer_main :: "'f fparith \<Rightarrow> int \<Rightarrow> string \<Rightarrow> string option" where
  "lexer_main fp oob s = do {
     let st = initscanner (lexer_start fp s);
     st \<leftarrow> testscanner fp oob (st\<lparr>out := out st @ ''Started scanner test.'' @ [CHR 0x0A]\<rparr>);
     Some (out st)
   }"

section \<open>Character classes\<close>

definition is_alpha :: "char \<Rightarrow> bool" where
  "is_alpha c \<longleftrightarrow> (65 \<le> code c \<and> code c \<le> 90) \<or> (97 \<le> code c \<and> code c \<le> 122)"

definition is_digit :: "char \<Rightarrow> bool" where
  "is_digit c \<longleftrightarrow> 48 \<le> code c \<and> code c \<le> 57"

definition is_alnum :: "char \<Rightarrow> bool" where
  "is_alnum c \<longleftrightarrow> is_alpha c \<or> is_digit c"

lemma length_fold_update [simp]: "length (fold (\<lambda>i xs. xs[f i := v]) js xs) = length xs"
  by (induction js arbitrary: xs) auto

lemma nth_fold_update:
  "n < length xs \<Longrightarrow> fold (\<lambda>i xs. xs[f i := v]) js xs ! n = (if n \<in> f ` set js then v else xs ! n)"
  by (induction js arbitrary: xs) (auto simp: nth_list_update)

lemma of_char_specchar: "of_char ` set specchar =
    {43, 45, 42, 47, 58, 61, 60, 62, 94, 46, 44, 59, 40, 41, 91, 93, 123, 125 :: nat}"
  by (simp add: specchar_def)

lemma init_charclass_nth:
  assumes "n < 256"
  shows "init_charclass ! n =
    (if n \<in> of_char ` set specchar then SPECIAL
     else if 48 \<le> n \<and> n < 58 then NUMERIC
     else if (97 \<le> n \<and> n < 123) \<or> (65 \<le> n \<and> n < 91) then ALPHA else 0)"
proof -
  have "fold (\<lambda>c cc. cc[of_char c := SPECIAL]) ss
      (fold (\<lambda>i cc. cc[i := NUMERIC]) ds
        (fold (\<lambda>i cc. cc[i := ALPHA]) ls (fold (\<lambda>i cc. cc[i := ALPHA]) us (replicate 256 0)))) ! n =
    (if n \<in> of_char ` set ss then SPECIAL else if n \<in> set ds then NUMERIC
     else if n \<in> set ls \<or> n \<in> set us then ALPHA else 0)" for ss :: string and ds ls us
    using assms by (simp add: nth_fold_update [where f = of_char] nth_fold_update [where f = "\<lambda>i. i"]
        length_fold_update [where f = "\<lambda>i. i"])
  from this [of specchar "[48..<58]" "[97..<123]" "[65..<91]"] show ?thesis
    unfolding init_charclass_def Let_def by (simp only: set_upt atLeastLessThan_iff)
qed

lemma charclass_char:
  "charclass oob (Some c) = ALPHA \<longleftrightarrow> is_alpha c"
  "charclass oob (Some c) = NUMERIC \<longleftrightarrow> is_digit c"
proof -
  define n where "n = (of_char c :: nat)"
  define sp where "sp \<longleftrightarrow> n \<in> of_char ` set specchar"
  have "sp \<Longrightarrow> \<not> (48 \<le> n \<and> n < 58) \<and> \<not> (65 \<le> n \<and> n < 91) \<and> \<not> (97 \<le> n \<and> n < 123)"
    unfolding sp_def of_char_specchar by (elim insertE emptyE) simp_all
  moreover have "n < 256" by (simp add: n_def)
  from init_charclass_nth [OF this] have "charclass oob (Some c) =
    (if sp then SPECIAL else if 48 \<le> n \<and> n < 58 then NUMERIC
     else if (97 \<le> n \<and> n < 123) \<or> (65 \<le> n \<and> n < 91) then ALPHA else 0)"
    by (simp add: charclass_def n_def sp_def)
  moreover have "is_alpha c \<longleftrightarrow> (97 \<le> n \<and> n < 123) \<or> (65 \<le> n \<and> n < 91)"
    "is_digit c \<longleftrightarrow> 48 \<le> n \<and> n < 58"
    unfolding is_alpha_def is_digit_def code_def n_def [symmetric] by linarith+
  ultimately show "charclass oob (Some c) = ALPHA \<longleftrightarrow> is_alpha c"
    "charclass oob (Some c) = NUMERIC \<longleftrightarrow> is_digit c"
    by (simp_all add: class_constants)
qed

end
