(* ===== verification/Lexer_Real.thy ===== *)
theory Lexer_Real
  imports Lexer_Props
begin

text \<open>
  Real literals under floating point arithmetic that rounds. What is assumed of the arithmetic is the standard model of
  rounding: the result of an operation in range is the exact result up to a relative error of at most \<open>u\<close>. For the
  \<open>double\<close> of the machine \<open>u\<close> is \<open>2 powi (- 53)\<close>. A value that takes \<open>n\<close> roundings to compute lies between
  \<open>(1 - u) ^ n\<close> and \<open>(1 + u) ^ n\<close> times the exact value, and the lemmas count the roundings of each step of \<open>number\<close>.
\<close>

section \<open>Rounding\<close>

definition near :: "real \<Rightarrow> nat \<Rightarrow> real \<Rightarrow> real \<Rightarrow> bool" where
  "near u n x v \<longleftrightarrow> 0 \<le> u \<and> u \<le> 1 / 2000 \<and> 0 \<le> v \<and> (1 - u) ^ n * v \<le> x \<and> x \<le> (1 + u) ^ n * v"

text \<open>The range of nonnegative numbers in which an operation has the relative error: 0 and the numbers from
  \<open>10 powi (- 300)\<close> to \<open>10 powi 300\<close>, which are all normalised.\<close>

definition in_range :: "real \<Rightarrow> bool" where
  "in_range x \<longleftrightarrow> x = 0 \<or> 10 powi (- 300) \<le> x \<and> x \<le> 10 powi 300"

definition fp_rounds :: "'f fparith \<Rightarrow> ('f \<Rightarrow> real) \<Rightarrow> real \<Rightarrow> bool" where
  "fp_rounds fp val u \<longleftrightarrow>
     (\<forall>i. 0 \<le> i \<and> i \<le> 10 \<longrightarrow> val (fof fp i) = of_int i) \<and> near u 1 (val (ftenth fp)) (1 / 10) \<and>
     (\<forall>x y. in_range (val x) \<and> in_range (val y) \<and> in_range (val x + val y) \<longrightarrow>
        near u 1 (val (fadd fp x y)) (val x + val y)) \<and>
     (\<forall>x y. in_range (val x) \<and> in_range (val y) \<and> in_range (val x * val y) \<longrightarrow>
        near u 1 (val (fmul fp x y)) (val x * val y))"

text \<open>Exact values for which one may rely on the range.\<close>

definition mid :: "real \<Rightarrow> bool" where
  "mid v \<longleftrightarrow> v = 0 \<or> 10 powi (- 200) \<le> v \<and> v \<le> 10 powi 200"

lemma mid_decimal:
  assumes "n < (10::nat) ^ 50" "- 150 \<le> j" "j \<le> 150"
  shows "mid (real n * 10 powi j)"
proof (cases "n = 0")
  case False
  have "real n \<le> real (10 ^ 50)" using assms(1) by (intro of_nat_mono) simp
  then have n: "1 \<le> real n" "real n \<le> 10 powi 50" using False by (simp_all add: power_int_def)
  have j: "(10::real) powi (- 150) \<le> 10 powi j" "(10::real) powi j \<le> 10 powi 150"
    using assms(2,3) by (intro power_int_increasing; simp)+
  have "real n * 10 powi j \<le> 10 powi 50 * 10 powi 150" using n j by (intro mult_mono) simp_all
  also have "\<dots> = 10 powi 200" by (simp flip: power_int_add)
  finally have up: "real n * 10 powi j \<le> 10 powi 200" .
  have "(10::real) powi (- 200) \<le> 10 powi (- 150)" by (intro power_int_increasing) simp_all
  also have "\<dots> \<le> 1 * 10 powi j" using j by simp
  also have "\<dots> \<le> real n * 10 powi j" using n by (intro mult_right_mono) simp_all
  finally show ?thesis using up by (simp add: mid_def)
qed (simp add: mid_def)

lemma mid_nat: "n < (10::nat) ^ 50 \<Longrightarrow> mid (real n)"
  using mid_decimal [of n 0] by simp

lemma mid_powi: "- 150 \<le> j \<Longrightarrow> j \<le> 150 \<Longrightarrow> mid (10 powi j)"
  using mid_decimal [of 1 j] by simp

lemma near_unit: "near u n x v \<Longrightarrow> 0 \<le> u \<and> u \<le> 1 / 2000"
  by (simp add: near_def)

lemma factors:
  assumes u: "0 \<le> u" "u \<le> 1 / 2000" and "n \<le> 1000"
  shows "1 / 2 \<le> (1 - u) ^ n" "(1 + u) ^ n \<le> (2::real)"
proof -
  have "real n * u \<le> 1000 * (1 / 2000)" using assms by (intro mult_mono) simp_all
  moreover have "1 + real n * (- u) \<le> (1 + (- u)) ^ n" using u by (intro Bernoulli_inequality) simp
  ultimately show l: "1 / 2 \<le> (1 - u) ^ n" by simp
  have "(1 - u) ^ n * (1 + u) ^ n = (1 - u * u) ^ n"
    by (simp add: power_mult_distrib [symmetric] algebra_simps)
  also have "\<dots> \<le> 1" using u mult_left_le [of u u] by (intro power_le_one) simp_all
  finally have "(1 - u) ^ n * (1 + u) ^ n \<le> 1" .
  moreover have "1 / 2 * (1 + u) ^ n \<le> (1 - u) ^ n * (1 + u) ^ n" using l u by (intro mult_right_mono) simp_all
  ultimately show "(1 + u) ^ n \<le> 2" by simp
qed

lemma near_mono:
  assumes "near u n x v" "n \<le> k"
  shows "near u k x v"
proof -
  have "(1 - u) ^ k \<le> (1 - u) ^ n" "(1 + u) ^ n \<le> (1 + u) ^ k"
    using assms(2) near_unit [OF assms(1)] by (simp_all add: power_decreasing power_increasing)
  then have "(1 - u) ^ k * v \<le> (1 - u) ^ n * v" "(1 + u) ^ n * v \<le> (1 + u) ^ k * v"
    using assms(1) by (simp_all add: near_def mult_right_mono)
  then show ?thesis using assms(1) unfolding near_def by linarith
qed

lemma near_trans:
  assumes "near u 1 y x" "near u n x v"
  shows "near u (Suc n) y v"
proof -
  have "(1 - u) * ((1 - u) ^ n * v) \<le> (1 - u) * x" "(1 + u) * x \<le> (1 + u) * ((1 + u) ^ n * v)"
    using assms by (simp_all add: near_def mult_left_mono)
  then show ?thesis using assms unfolding near_def power_Suc power_one_right power_0 mult.assoc mult_1 by linarith
qed

lemma near_range:
  assumes "near u n x v" "n \<le> 1000" "mid v"
  shows "in_range x" "0 \<le> x"
proof -
  have v: "0 \<le> v" "(1 - u) ^ n * v \<le> x" "x \<le> (1 + u) ^ n * v" using assms(1) by (simp_all add: near_def)
  have "1 / 2 * v \<le> (1 - u) ^ n * v" "(1 + u) ^ n * v \<le> 2 * v"
    using factors [OF _ _ assms(2)] near_unit [OF assms(1)] v(1) by (simp_all only: mult_right_mono)
  then have x: "v / 2 \<le> x" "x \<le> 2 * v" using v by simp_all
  show "0 \<le> x" using x v(1) by linarith
  have "(2::real) * 10 powi (- 300) \<le> 10 powi 1 * 10 powi (- 300)" by (intro mult_right_mono) simp_all
  also have "\<dots> = 10 powi (- 299)" by (simp flip: power_int_add)
  also have "\<dots> \<le> 10 powi (- 200)" by (intro power_int_increasing) simp_all
  finally have lo: "(2::real) * 10 powi (- 300) \<le> 10 powi (- 200)" .
  have "(2::real) * 10 powi 200 \<le> 10 powi 1 * 10 powi 200" by (intro mult_right_mono) simp_all
  also have "\<dots> = 10 powi 201" by (simp flip: power_int_add)
  also have "\<dots> \<le> 10 powi 300" by (intro power_int_increasing) simp_all
  finally have hi: "(2::real) * 10 powi 200 \<le> 10 powi 300" .
  consider "v = 0" | "10 powi (- 200) \<le> v" "v \<le> 10 powi 200" using assms(3) by (auto simp: mid_def)
  then show "in_range x"
  proof cases
    case 1
    then show ?thesis using x by (simp add: in_range_def)
  next
    case 2
    then show ?thesis using x lo hi unfolding in_range_def by (intro disjI2 conjI) linarith+
  qed
qed

lemma near_add:
  assumes "near u n x v" "near u n y w"
  shows "near u n (x + y) (v + w)"
  using assms by (simp add: near_def distrib_left)

lemma near_mult:
  assumes "near u n x v" "near u k y w"
  shows "near u (n + k) (x * y) (v * w)"
proof -
  have u: "0 \<le> u" "u \<le> 1 / 2000" using near_unit [OF assms(1)] by simp_all
  have p: "0 \<le> (1 - u) ^ n * v" "0 \<le> (1 - u) ^ k * w" "0 \<le> v" "0 \<le> w" using assms u by (simp_all add: near_def)
  have b: "(1 - u) ^ n * v \<le> x" "x \<le> (1 + u) ^ n * v" "(1 - u) ^ k * w \<le> y" "y \<le> (1 + u) ^ k * w"
    using assms by (simp_all add: near_def)
  have "((1 - u) ^ n * v) * ((1 - u) ^ k * w) \<le> x * y" using b p by (intro mult_mono) linarith+
  moreover have "x * y \<le> ((1 + u) ^ n * v) * ((1 + u) ^ k * w)" using b p by (intro mult_mono) linarith+
  ultimately show ?thesis using p u by (simp add: near_def power_add mult_ac)
qed

section \<open>The operations\<close>

lemma fp_ofD: "fp_rounds fp val u \<Longrightarrow> 0 \<le> i \<Longrightarrow> i \<le> 10 \<Longrightarrow> near u 0 (val (fof fp i)) (of_int i)"
  by (simp add: fp_rounds_def near_def)

lemma fp_tenthD: "fp_rounds fp val u \<Longrightarrow> near u 1 (val (ftenth fp)) (1 / 10)"
  by (simp add: fp_rounds_def)

lemma fp_add:
  assumes fp: "fp_rounds fp val u"
    and "near u n (val x) v" "near u n (val y) w" "n \<le> 1000" "mid v" "mid w" "mid (v + w)"
  shows "near u (Suc n) (val (fadd fp x y)) (v + w)"
proof -
  have s: "near u n (val x + val y) (v + w)" using assms by (intro near_add)
  have "in_range (val x)" "in_range (val y)" "in_range (val x + val y)"
    using assms s by (blast intro: near_range(1))+
  then have "near u 1 (val (fadd fp x y)) (val x + val y)" using fp by (simp add: fp_rounds_def)
  then show ?thesis using s by (rule near_trans)
qed

lemma fp_mul:
  assumes fp: "fp_rounds fp val u"
    and x: "near u n (val x) v" and y: "near u k (val y) w" and n: "n + k \<le> 1000" and "mid v" "mid w" "mid (v * w)"
  shows "near u (Suc (n + k)) (val (fmul fp x y)) (v * w)"
proof -
  have s: "near u (n + k) (val x * val y) (v * w)" using x y by (rule near_mult)
  have "in_range (val x)" by (rule near_range(1) [OF x]) (use n assms in simp_all)
  moreover have "in_range (val y)" by (rule near_range(1) [OF y]) (use n assms in simp_all)
  moreover have "in_range (val x * val y)" by (rule near_range(1) [OF s]) (use n assms in simp_all)
  ultimately have "near u 1 (val (fmul fp x y)) (val x * val y)" using fp by (simp add: fp_rounds_def)
  then show ?thesis using s by (rule near_trans)
qed

lemma power_table_near:
  assumes fp: "fp_rounds fp val u" and b: "near u m (val b) (10 powi s)" "m \<le> 1" "\<bar>s\<bar> = 1"
    and "near u (2 * j) (val x) (10 powi (s * int j))" "i < n" "j + n \<le> 100"
  shows "near u (2 * (j + i)) (val (power_table fp b n x ! i)) (10 powi (s * int (j + i)))"
  using assms(5-7)
proof (induction n arbitrary: x i j)
  case (Suc n)
  show ?case
  proof (cases i)
    case (Suc i')
    have sj: "- 150 \<le> s * int j" "s * int j \<le> 150" "- 150 \<le> s * int (Suc j)" "s * int (Suc j) \<le> 150" "- 150 \<le> s" "s \<le> 150"
      using b(3) Suc.prems by (auto simp: abs_if split: if_splits)
    have e: "10 powi (s * int j) * 10 powi s = (10 powi (s * int (Suc j)) :: real)"
      by (simp flip: power_int_add add: algebra_simps)
    have "near u (Suc (2 * j + m)) (val (fmul fp x b)) (10 powi (s * int j) * 10 powi s)"
      by (rule fp_mul [OF fp Suc.prems(1) b(1)]) (use sj b Suc.prems e in \<open>simp_all add: mid_powi\<close>)
    then have "near u (2 * Suc j) (val (fmul fp x b)) (10 powi (s * int (Suc j)))"
      unfolding e by (rule near_mono) (use b in simp)
    from Suc.IH [OF this, of i'] show ?thesis using Suc Suc.prems by simp
  qed (use Suc.prems in simp)
qed simp

lemma scale_down_near:
  assumes fp: "fp_rounds fp val u"
    and "near u m (val d) (real M * 10 powi j)" "M < 10 ^ 50" "m + 2 * n \<le> 1000" "j \<le> 150" "- 150 \<le> j - int n"
  shows "near u (m + 2 * n) (val (scale_down fp n d)) (real M * 10 powi (j - int n))"
  using assms(2,4-6)
proof (induction n arbitrary: d m j)
  case (Suc n)
  have e: "real M * 10 powi j * (1 / 10) = real M * 10 powi (j - 1)"
    by (simp add: power_int_diff)
  have "mid (1 / 10)" using mid_powi [of "- 1"] by (simp add: power_int_minus field_simps)
  moreover have "mid (real M * 10 powi j)" "mid (real M * 10 powi (j - 1))"
    using Suc.prems assms(3) by (auto intro!: mid_decimal)
  ultimately have "near u (Suc (m + 1)) (val (fmul fp d (ftenth fp))) (real M * 10 powi j * (1 / 10))"
    using fp_mul [OF fp Suc.prems(1) fp_tenthD [OF fp]] Suc.prems(2) unfolding e by simp
  from Suc.IH [OF this [unfolded e]] show ?case using Suc.prems by (simp add: algebra_simps)
qed simp

section \<open>The digits\<close>

lemma digit_near:
  assumes "fp_rounds fp val u" "is_digit x"
  shows "near u 0 (val (fof fp (code x - 48))) (real (digit_val x))"
  using fp_ofD [OF assms(1), of "int (digit_val x)"] code_digit [OF assms(2)] assms(2)
  by (simp add: is_digit_def)

lemma leading_small:
  assumes "n * 10 ^ k + r < (m::nat)"
  shows "n < m"
proof -
  have "n * 1 \<le> n * 10 ^ k" by (intro mult_le_mono2) simp
  then show ?thesis using assms by linarith
qed

lemma int_digits_near:
  assumes fp: "fp_rounds fp val u"
    and "list_all is_digit ds" "case r of [] \<Rightarrow> True | c # _ \<Rightarrow> \<not> is_digit c"
    and "\<not> z \<longrightarrow> D = 0" "int g + int (length (if z then ds else significant ds)) \<le> 8"
    and "near u (2 * g) (val d) (real D)" "D * 10 ^ length ds + decimal ds < 10 ^ 50"
  shows "\<exists>l' d'. int_digits fp oob (ds @ r) l d (int g) z =
      (r, l', d', int g + int (length (if z then ds else significant ds)), z \<or> significant ds \<noteq> []) \<and>
    near u (2 * (g + length (if z then ds else significant ds))) (val d') (real (D * 10 ^ length ds + decimal ds))"
  using assms(2,4-7)
proof (induction ds arbitrary: l d g z D)
  case Nil
  then show ?case using assms(3) by (cases r) (auto simp: significant_def charclass_char decimal_def)
next
  case (Cons x ds)
  have x: "is_digit x" using Cons.prems(1) by simp
  let ?l = "l * 10 + of_nat (digit_val x)"
  have eq: "D * 10 ^ length (x # ds) + decimal (x # ds) = (D * 10 + digit_val x) * 10 ^ length ds + decimal ds"
    by (simp add: decimal_Cons algebra_simps)
  show ?case
  proof (cases "z \<or> digit_val x \<noteq> 0")
    case True
    let ?d = "fadd fp (fmul fp d (fof fp 10)) (fof fp (code x - 48))"
    have g: "\<not> int g \<ge> 8" "int (Suc g) + int (length ds) \<le> 8"
      using True Cons.prems by (auto simp: significant_Cons split: if_splits)
    have step: "int_digits fp oob (x # ds @ r) l d (int g) z = int_digits fp oob (ds @ r) ?l ?d (int (Suc g)) True"
      using x code_digit [OF x] True g by (auto simp: charclass_char Let_def add.commute)
    have small: "D * 10 + digit_val x < 10 ^ 50" using Cons.prems(5) unfolding eq by (rule leading_small)
    then have m: "mid (real D)" "mid (real D * 10)" "mid (real (digit_val x))" "mid (real D * 10 + real (digit_val x))"
      using mid_nat [of D] mid_nat [of "D * 10"] mid_nat [of "digit_val x"] mid_nat [of "D * 10 + digit_val x"] by simp_all
    have "near u (Suc (2 * g + 0)) (val (fmul fp d (fof fp 10))) (real D * 10)"
      using fp_mul [OF fp Cons.prems(4) fp_ofD [OF fp, of 10]] m mid_nat [of 10] g by simp
    then have "near u (Suc (Suc (2 * g + 0))) (val ?d) (real D * 10 + real (digit_val x))"
      by (rule fp_add [OF fp]) (use m g near_mono [OF digit_near [OF fp x]] in simp_all)
    then have "near u (2 * Suc g) (val ?d) (real (D * 10 + digit_val x))" by simp
    from Cons.IH [OF _ _ _ this, of True ?l] show ?thesis
      using Cons.prems(1,5) step True g unfolding eq by (auto simp: significant_Cons simp del: int_digits.simps)
  next
    case False
    then have "int_digits fp oob (x # ds @ r) l d (int g) z = int_digits fp oob (ds @ r) ?l d (int g) False"
      using x code_digit [OF x] by (auto simp: charclass_char Let_def)
    then show ?thesis
      using Cons.IH [of False D g d ?l] False Cons.prems unfolding eq
      by (auto simp: significant_Cons simp del: int_digits.simps)
  qed
qed

text \<open>The table of the negative powers of ten.\<close>

definition tab_near :: "('f \<Rightarrow> real) \<Rightarrow> real \<Rightarrow> int \<Rightarrow> 'f list \<Rightarrow> bool" where
  "tab_near val u s tab \<longleftrightarrow> length tab = 100 \<and> (\<forall>i<100. near u (2 * i) (val (tab ! i)) (10 powi (s * int i)))"

lemma tab_nearD:
  assumes "tab_near val u s tab" "0 \<le> k" "k < 100"
  shows "\<exists>p. table_at tab k = Some p \<and> near u (2 * nat k) (val p) (10 powi (s * k))"
  using assms by (auto simp: tab_near_def table_at_def)

lemma frac_digits_near:
  assumes fp: "fp_rounds fp val u" and tab: "tab_near val u (- 1) tab"
    and "list_all is_digit ds" "case r of [] \<Rightarrow> True | c # _ \<Rightarrow> \<not> is_digit c"
    and "0 < k" "k + int (length ds) \<le> 100"
    and "int g + int (length (if z then ds else significant ds)) \<le> 8"
    and "near u (200 + g) (val d) (real N * 10 powi (1 - k))" "N * 10 ^ length ds + decimal ds < 10 ^ 50"
  shows "\<exists>d'. frac_digits fp oob tab (ds @ r) d (int g) z k F =
      Some (r, d', F - (if z then 0 else int (length ds) - int (length (significant ds)))) \<and>
    near u 208 (val d') (real (N * 10 ^ length ds + decimal ds) * 10 powi (1 - k - int (length ds)))"
  using assms(3,5-)
proof (induction ds arbitrary: d g z k F N)
  case Nil
  then show ?case using assms(4) near_mono [of u "200 + g" "val d" _ 208]
    by (cases r) (auto simp: significant_def charclass_char decimal_def)
next
  case (Cons x ds)
  have x: "is_digit x" using Cons.prems(1) by simp
  have eq: "N * 10 ^ length (x # ds) + decimal (x # ds) = (N * 10 + digit_val x) * 10 ^ length ds + decimal ds"
    by (simp add: decimal_Cons algebra_simps)
  obtain p where p: "table_at tab k = Some p" "near u (2 * nat k) (val p) (10 powi (- k))"
    using tab_nearD [OF tab, of k] Cons.prems by auto
  have sh: "real N * 10 powi (1 - k) = real (N * 10) * 10 powi (- k)" by (simp add: power_int_diff power_int_minus field_simps)
  have kk: "1 - (k + 1) = - k" "1 - (k + 1) - int (length ds) = 1 - k - int (length (x # ds))" by simp_all
  show ?case
  proof (cases "z \<or> digit_val x \<noteq> 0")
    case True
    let ?d = "fadd fp d (fmul fp (fof fp (code x - 48)) p)"
    have g: "int g < 8" "int (Suc g) + int (length ds) \<le> 8"
      using Cons.prems True by (auto simp: significant_Cons split: if_splits)
    have step: "frac_digits fp oob tab (x # ds @ r) d (int g) z k F =
        frac_digits fp oob tab (ds @ r) ?d (int (Suc g)) True (k + 1) F"
      using x True g p code_digit [OF x] by (auto simp: charclass_char Let_def add.commute)
    have small: "N * 10 + digit_val x < 10 ^ 50" using Cons.prems(6) unfolding eq by (rule leading_small)
    have m: "mid (real n * 10 powi (- k))" if "n \<le> N * 10 + digit_val x" for n
      using that small Cons.prems by (intro mid_decimal) simp_all
    have md: "mid (real (digit_val x))" using small by (intro mid_nat) simp
    have mk: "mid (10 powi (- k))" using Cons.prems by (intro mid_powi) simp_all
    have "near u (Suc (0 + 2 * nat k)) (val (fmul fp (fof fp (code x - 48)) p)) (real (digit_val x) * 10 powi (- k))"
      by (rule fp_mul [OF fp digit_near [OF fp x] p(2) _ md mk m]) (use Cons.prems in simp_all)
    then have dg: "near u (200 + g) (val (fmul fp (fof fp (code x - 48)) p)) (real (digit_val x) * 10 powi (- k))"
      by (rule near_mono) (use Cons.prems in simp)
    have "near u (Suc (200 + g)) (val ?d) (real (N * 10) * 10 powi (- k) + real (digit_val x) * 10 powi (- k))"
      using Cons.prems(5) unfolding sh
      by (rule fp_add [OF fp _ dg]) (use g m [of "N * 10"] m [of "digit_val x"] m [of "N * 10 + digit_val x"] in
        \<open>simp_all add: distrib_right\<close>)
    then have "near u (200 + Suc g) (val ?d) (real (N * 10 + digit_val x) * 10 powi (1 - (k + 1)))"
      unfolding kk by (simp add: distrib_right)
    from Cons.IH [OF _ _ _ _ this, of True F] show ?thesis
      using Cons.prems(1,2,3,6) step True g unfolding eq kk(2)
      by (auto simp: significant_Cons simp del: frac_digits.simps)
  next
    case False
    have step: "frac_digits fp oob tab (x # ds @ r) d (int g) z k F =
        frac_digits fp oob tab (ds @ r) d (int g) False (k + 1) (F - 1)"
      using False x p code_digit [OF x] by (auto simp: charclass_char Let_def)
    have "near u (200 + g) (val d) (real (N * 10 + digit_val x) * 10 powi (1 - (k + 1)))"
      using Cons.prems(5) False unfolding sh kk by simp
    from Cons.IH [OF _ _ _ _ this, of False "F - 1"] show ?thesis
      using Cons.prems step False unfolding eq kk(2)
      by (auto simp: significant_Cons simp del: frac_digits.simps)
  qed
qed

lemma decimal_append: "decimal (a @ b) = decimal a * 10 ^ length b + decimal b"
  by (induction a) (simp_all add: decimal_Cons algebra_simps power_add)

section \<open>The literal\<close>

inductive exp_text :: "string \<Rightarrow> int \<Rightarrow> bool" where
  exp_none: "exp_text [] 0"
| exp_plain: "\<lbrakk>c = CHR ''e'' \<or> c = CHR ''E''; list_all is_digit x; x \<noteq> []\<rbrakk> \<Longrightarrow> exp_text (c # x) (int (decimal x))"
| exp_plus: "\<lbrakk>c = CHR ''e'' \<or> c = CHR ''E''; list_all is_digit x\<rbrakk> \<Longrightarrow>
    exp_text (c # CHR ''+'' # x) (int (decimal x))"
| exp_minus: "\<lbrakk>c = CHR ''e'' \<or> c = CHR ''E''; list_all is_digit x\<rbrakk> \<Longrightarrow>
    exp_text (c # CHR ''-'' # x) (- int (decimal x))"

lemma exp_digits_eq:
  assumes "list_all is_digit ds" "case r of [] \<Rightarrow> True | c # _ \<Rightarrow> \<not> is_digit c"
    and "\<not> z \<longrightarrow> v = 0"
  shows "exp_digits oob (ds @ r) v z = (r, v * 10 ^ length ds + of_nat (decimal ds))"
  using assms(1,3)
proof (induction ds arbitrary: v z)
  case Nil
  then show ?case using assms(2) by (cases r) (auto simp: charclass_char)
next
  case (Cons x ds)
  have x: "is_digit x" using Cons.prems(1) by simp
  have "exp_digits oob (x # ds @ r) v z =
      exp_digits oob (ds @ r) (v * 10 + of_nat (digit_val x)) (z \<or> digit_val x \<noteq> 0)"
    using x code_digit [OF x] Cons.prems(2) by (auto simp: charclass_char Let_def)
  then show ?case
    using Cons.IH [of "z \<or> digit_val x \<noteq> 0" "v * 10 + of_nat (digit_val x)"] Cons.prems
    by (auto simp: decimal_Cons algebra_simps simp del: exp_digits.simps)
qed

lemma digit_not_sign: "is_digit c \<Longrightarrow> c \<noteq> CHR ''+'' \<and> c \<noteq> CHR ''-''"
  by (auto simp: is_digit_def code_def)

lemma number_exponent_eq:
  assumes "exp_text t e" "\<bar>e\<bar> < 2 ^ 31"
    and r: "case r of [] \<Rightarrow> True | c # _ \<Rightarrow> \<not> is_digit c"
    and "t = [] \<Longrightarrow> peekchar r \<noteq> Some CHR ''e'' \<and> peekchar r \<noteq> Some CHR ''E''"
  shows "number_exponent oob (t @ r) = (t \<noteq> [], r, of_int e, False)"
  using assms(1,2,4)
proof cases
  case exp_none
  then show ?thesis using assms(4) by (simp add: number_exponent_def)
next
  case (exp_plain c x)
  obtain d ds where x: "x = d # ds" using exp_plain by (cases x) auto
  have "peekchar (x @ r) \<noteq> Some CHR ''+''" "peekchar (x @ r) \<noteq> Some CHR ''-''"
    using exp_plain x digit_not_sign [of d] by (auto simp: peekchar_def)
  moreover have "sint (of_nat (decimal x) :: u32) = int (decimal x)"
    using assms(2) exp_plain by (intro sint_of_nat_small) simp
  ultimately show ?thesis
    using exp_plain exp_digits_eq [OF exp_plain(4) r, of False 0 oob]
    by (auto simp: number_exponent_def peekchar_def getc_def Let_def)
next
  case (exp_plus c x)
  moreover have "sint (of_nat (decimal x) :: u32) = int (decimal x)"
    using assms(2) exp_plus by (intro sint_of_nat_small) simp
  ultimately show ?thesis
    using exp_digits_eq [OF exp_plus(4) r, of False 0 oob]
    by (auto simp: number_exponent_def peekchar_def getc_def Let_def)
next
  case (exp_minus c x)
  moreover have "sint (of_nat (decimal x) :: u32) = int (decimal x)"
    using assms(2) exp_minus by (intro sint_of_nat_small) simp
  ultimately show ?thesis
    using exp_digits_eq [OF exp_minus(4) r, of False 0 oob]
    by (auto simp: number_exponent_def peekchar_def getc_def Let_def)
qed

text \<open>The place of the first significant digit of the literal with the digits \<open>a\<close> in front of and \<open>b\<close>
  behind the point, as \<open>number\<close> counts it.\<close>

definition first_place :: "string \<Rightarrow> string \<Rightarrow> int" where
  "first_place a b = int (length (significant a)) - 1 -
     (if significant a \<noteq> [] then 0 else int (length b) - int (length (significant b)))"

lemma significant_append:
  "significant (a @ b) = (if significant a \<noteq> [] then significant a @ b else significant b)"
  by (induction a) (auto simp: significant_def)

lemma number_fraction_near:
  assumes fp: "fp_rounds fp val u" and dn: "tab_near val u (- 1) (dcl st)" and up: "tab_near val u 1 (pdcl st)"
    and a: "list_all is_digit a" and b: "list_all is_digit b" "length b \<le> 98"
    and r: "case r of [] \<Rightarrow> True | c # _ \<Rightarrow> \<not> is_digit c"
    and ex: "b = [] \<Longrightarrow> \<not> (peekchar r = Some CHR ''.'' \<and> charclass oob (peek2char r) = NUMERIC)"
    and sig: "length (significant (a @ b)) \<le> 8"
    and d: "near u (2 * length (significant a)) (val d) (real (decimal a))"
  shows "\<exists>d'. number_fraction fp oob st ((if b = [] then [] else CHR ''.'' # b) @ r) d
      (int (length (significant a))) (significant a \<noteq> []) = Some (b \<noteq> [], r, d', first_place a b) \<and>
    near u 407 (val d') (real (decimal (a @ b)) * 10 powi (- int (length b) - first_place a b))"
proof -
  let ?t = "(if b = [] then [] else CHR ''.'' # b) @ r"
  let ?F = "first_place a b" and ?g = "length (significant a)" and ?M = "decimal (a @ b)"
  have g: "int ?g + int (length (if significant a \<noteq> [] then b else significant b)) \<le> 8" "?g \<le> 8"
    using sig by (auto simp: significant_append split: if_splits)
  have M: "?M = decimal a * 10 ^ length b + decimal b" by (rule decimal_append)
  have "?M < 10 ^ length (significant (a @ b))" using a b by (intro decimal_bound) simp
  also have "\<dots> \<le> 10 ^ 50" using sig by (intro power_increasing) simp_all
  finally have small: "?M < 10 ^ 50" .
  have d0: "near u (200 + ?g) (val d) (real (decimal a) * 10 powi (1 - 1))"
    using d near_mono [of u "2 * ?g" _ _ "200 + ?g"] g by simp
  obtain d1 where d1: "frac_digits fp oob (dcl st) (b @ r) d (int ?g) (significant a \<noteq> []) 1 (int ?g - 1) = Some (r, d1, ?F)"
      "near u 208 (val d1) (real ?M * 10 powi (- int (length b)))"
    using frac_digits_near [OF fp dn b(1) r _ _ g(1) d0, of oob "int ?g - 1"] b(2) small unfolding M first_place_def by auto
  have F: "- 99 \<le> ?F" "?F \<le> 7" "- 150 \<le> - int (length b) - ?F" "- int (length b) - ?F \<le> 150"
    using b(2) sig by (auto simp: first_place_def significant_append split: if_splits)
  have frac: "(if peekchar ?t = Some CHR ''.'' \<and> charclass oob (peek2char ?t) = NUMERIC then do {
          (s, dnum, firstSigDigLoc) \<leftarrow> frac_digits fp oob (dcl st) (getc ?t) d (int ?g) (significant a \<noteq> []) 1 (int ?g - 1);
          Some (True, s, dnum, firstSigDigLoc)
        } else Some (False, ?t, d, int ?g - 1)) = Some (b \<noteq> [], r, if b = [] then d else d1, ?F)"
  proof (cases "b = []")
    case True
    then show ?thesis using ex by (auto simp: first_place_def significant_def)
  next
    case False
    then have "peekchar ?t = Some CHR ''.''" "charclass oob (peek2char ?t) = NUMERIC" "getc ?t = b @ r"
      using b(1) by (auto simp: peekchar_def peek2char_def getc_def charclass_char neq_Nil_conv)
    then show ?thesis using d1(1) False by simp
  qed
  define d2 where "d2 = (if b = [] then d else d1)"
  have d2: "near u 208 (val d2) (real ?M * 10 powi (- int (length b)))"
    using d1(2) d near_mono [of u "2 * ?g" "val d" _ 208] g by (auto simp: d2_def M decimal_def)
  have scale: "\<exists>d'. Some (fmul fp d2 p) = Some d' \<and> near u 407 (val d') (real ?M * 10 powi (- int (length b) - ?F))"
    if p: "near u n (val p) (10 powi (- ?F))" "n \<le> 198" for p n
  proof -
    have e: "real ?M * 10 powi (- int (length b)) * 10 powi (- ?F) = real ?M * 10 powi (- int (length b) - ?F)"
      by (simp flip: power_int_add)
    have "near u (Suc (208 + n)) (val (fmul fp d2 p)) (real ?M * 10 powi (- int (length b) - ?F))"
      unfolding e [symmetric]
      by (rule fp_mul [OF fp d2 p(1)]) (unfold e, use p(2) b(2) small F in \<open>auto intro!: mid_decimal mid_powi\<close>)
    then show ?thesis using p(2) by (auto intro: near_mono)
  qed
  consider "0 < ?F" | "?F < 0" | "?F = 0" by linarith
  then show ?thesis
  proof cases
    case 1
    then obtain p where "table_at (dcl st) ?F = Some p" "near u (2 * nat ?F) (val p) (10 powi (- ?F))"
      using tab_nearD [OF dn, of ?F] F by auto
    then show ?thesis using 1 scale [of "2 * nat ?F" p] F unfolding number_fraction_def Let_def frac d2_def [symmetric] by simp
  next
    case 2
    then obtain p where "table_at (pdcl st) (- ?F) = Some p" "near u (2 * nat (- ?F)) (val p) (10 powi (- ?F))"
      using tab_nearD [OF up, of "- ?F"] F by auto
    then show ?thesis using 2 scale [of "2 * nat (- ?F)" p] F unfolding number_fraction_def Let_def frac d2_def [symmetric] by simp
  next
    case 3
    then show ?thesis using near_mono [OF d2, of 407] unfolding number_fraction_def Let_def frac d2_def [symmetric] by simp
  qed
qed

definition tables_created :: "'f fparith \<Rightarrow> 'f lexer \<Rightarrow> bool" where
  "tables_created fp st \<longleftrightarrow> (dclCreated st \<noteq> 0 \<longrightarrow> dcl st = power_table fp (ftenth fp) 100 (fof fp 1)) \<and>
     (pdclCreated st \<noteq> 0 \<longrightarrow> pdcl st = power_table fp (fof fp 10) 100 (fof fp 1))"

lemma created_tables:
  assumes fp: "fp_rounds fp val u"
  shows "tab_near val u (- 1) (power_table fp (ftenth fp) 100 (fof fp 1))"
    "tab_near val u 1 (power_table fp (fof fp 10) 100 (fof fp 1))"
proof -
  have one: "near u (2 * 0) (val (fof fp 1)) (10 powi (s * int 0))" for s using fp_ofD [OF fp, of 1] by simp
  have t: "near u 1 (val (ftenth fp)) (10 powi (- 1))" using fp_tenthD [OF fp] by (simp add: power_int_minus field_simps)
  have w: "near u 0 (val (fof fp 10)) (10 powi 1)" using fp_ofD [OF fp, of 10] by simp
  show "tab_near val u (- 1) (power_table fp (ftenth fp) 100 (fof fp 1))"
    using power_table_near [OF fp t _ _ one, of _ 100] by (simp add: tab_near_def)
  show "tab_near val u 1 (power_table fp (fof fp 10) 100 (fof fp 1))"
    using power_table_near [OF fp w _ _ one, of _ 100] by (simp add: tab_near_def)
qed

text \<open>The text of a real literal: digits, a fraction of at most 98 digits or none, an exponent or none, and not neither.\<close>

definition real_literal :: "string \<Rightarrow> string \<Rightarrow> string \<Rightarrow> int \<Rightarrow> bool" where
  "real_literal a b t e \<longleftrightarrow> list_all is_digit a \<and> list_all is_digit b \<and> length b \<le> 98 \<and> exp_text t e \<and>
     (b \<noteq> [] \<or> t \<noteq> []) \<and> length (significant (a @ b)) \<le> 8"

definition literal_text :: "string \<Rightarrow> string \<Rightarrow> string \<Rightarrow> string" where
  "literal_text a b t = a @ (if b = [] then [] else CHR ''.'' # b) @ t"

definition literal_value :: "string \<Rightarrow> string \<Rightarrow> int \<Rightarrow> real" where
  "literal_value a b e = (real (decimal a) + real (decimal b) / 10 ^ length b) * 10 powi e"

lemma literal_value_eq: "literal_value a b e = real (decimal (a @ b)) * 10 powi (e - int (length b))"
  by (simp add: literal_value_def decimal_append power_int_diff field_simps)

text \<open>What follows the literal does not continue it.\<close>

definition literal_ends :: "string \<Rightarrow> string \<Rightarrow> bool" where
  "literal_ends t r \<longleftrightarrow> (case r of [] \<Rightarrow> True | c # _ \<Rightarrow> \<not> is_digit c) \<and>
     (t = [] \<longrightarrow> peekchar r \<noteq> Some CHR ''e'' \<and> peekchar r \<noteq> Some CHR ''E'')"

lemma scale_exponent:
  assumes fp: "fp_rounds fp val u" and up: "tab_near val u 1 tab"
    and d: "near u 407 (val d) (real M * 10 powi j)" and M: "M < 10 ^ 50"
    and k: "\<bar>k\<bar> \<le> 38" "- 105 \<le> j" "j \<le> 1"
  shows "\<exists>x. (if k > 0 then do { p \<leftarrow> table_at tab k; Some (fmul fp d p) } else Some (scale_down fp (nat (- k)) d)) = Some x \<and>
    near u 500 (val x) (real M * 10 powi (j + k))"
proof (cases "k > 0")
  case True
  then obtain p where p: "table_at tab k = Some p" "near u (2 * nat k) (val p) (10 powi k)"
    using tab_nearD [OF up, of k] k by auto
  have e: "real M * 10 powi j * 10 powi k = real M * 10 powi (j + k)" by (simp add: power_int_add)
  have "near u (Suc (407 + 2 * nat k)) (val (fmul fp d p)) (real M * 10 powi (j + k))"
    using fp_mul [OF fp d p(2)] mid_decimal [OF M, of j] mid_decimal [OF M, of "j + k"] mid_powi [of k] k unfolding e by auto
  then show ?thesis using True p(1) k by (auto intro: near_mono)
next
  case False
  then show ?thesis
    using scale_down_near [OF fp d M, of "nat (- k)"] k by (auto intro: near_mono)
qed

lemma number_literal:
  assumes fp: "fp_rounds fp val u" and lit: "real_literal a b t e" and ends: "literal_ends t r"
    and e: "\<bar>e\<bar> < 2 ^ 30" and tab: "tables_created fp st" and inp: "inp st = literal_text a b t @ r"
  shows "\<exists>st' x. number fp oob st tok = Some (st', tok\<lparr>tokentype := NUMBERTOK, data_type := REAL, tokenval := Realnum x\<rparr>) \<and>
    inp st' = r \<and> EOFFLG st' = EOFFLG st \<and> tables_created fp st' \<and>
    (if \<bar>e + first_place a b\<bar> \<le> 38 then out st' = out st \<and> near u 500 (val x) (literal_value a b e)
     else out st' = out st @ ''Floating number out of range'' @ [CHR 0x0A] \<and> x = fof fp 0)"
proof -
  note l = lit [unfolded real_literal_def]
  let ?f = "(if b = [] then [] else CHR ''.'' # b)" and ?F = "first_place a b" and ?M = "decimal (a @ b)"
  have t: "exp_text t e" and b: "list_all is_digit b" "length b \<le> 98" and a: "list_all is_digit a" using l by simp_all
  have r: "case r of [] \<Rightarrow> True | c # _ \<Rightarrow> \<not> is_digit c" using ends by (simp add: literal_ends_def)
  have tr: "case t @ r of [] \<Rightarrow> True | c # _ \<Rightarrow> \<not> is_digit c"
    using t r by cases (auto simp: is_digit_def code_def)
  have fr: "case ?f @ t @ r of [] \<Rightarrow> True | c # _ \<Rightarrow> \<not> is_digit c"
    using tr by (auto simp: is_digit_def code_def)
  have nodot: "b = [] \<Longrightarrow> \<not> (peekchar (t @ r) = Some CHR ''.'' \<and> charclass oob (peek2char (t @ r)) = NUMERIC)"
    using t l by cases (auto simp: peekchar_def)
  have siga: "length (significant a) \<le> 8" using l by (auto simp: significant_append split: if_splits)
  have "?M < 10 ^ length (significant (a @ b))" using a b by (intro decimal_bound) simp
  also have "\<dots> \<le> 10 ^ 50" using l by (intro power_increasing) simp_all
  finally have small: "?M < 10 ^ 50" .
  then have "decimal a < 10 ^ 50" unfolding decimal_append by (rule leading_small)
  then obtain lv d where int: "int_digits fp oob (inp st) 0 (fof fp 0) 0 False =
      (?f @ t @ r, lv, d, int (length (significant a)), significant a \<noteq> [])"
    and d: "near u (2 * length (significant a)) (val d) (real (decimal a))"
    using int_digits_near [OF fp a fr, of False 0 0 "fof fp 0" oob 0] siga fp_ofD [OF fp, of 0]
    by (auto simp: inp literal_text_def)
  define st1 where "st1 = (if dclCreated st = 0 then createDCL fp st\<lparr>dclCreated := 1\<rparr> else st)"
  define st2 where "st2 = (if pdclCreated st1 = 0 then createPDCL fp st1\<lparr>pdclCreated := 1\<rparr> else st1)"
  have st2: "dcl st2 = power_table fp (ftenth fp) 100 (fof fp 1)" "pdcl st2 = power_table fp (fof fp 10) 100 (fof fp 1)"
    "EOFFLG st2 = EOFFLG st" "out st2 = out st" "tables_created fp st2"
    using tab by (auto simp: st2_def st1_def tables_created_def createDCL_def createPDCL_def)
  note tabs = created_tables [OF fp, folded st2(1,2)]
  obtain d2 where frac: "number_fraction fp oob st2 (?f @ t @ r) d (int (length (significant a))) (significant a \<noteq> []) =
      Some (b \<noteq> [], t @ r, d2, ?F)" and d2: "near u 407 (val d2) (real ?M * 10 powi (- int (length b) - ?F))"
    using number_fraction_near [OF fp tabs a b tr _ _ d, of oob] nodot l by auto
  have F: "- 99 \<le> ?F" "?F \<le> 7" "- 105 \<le> - int (length b) - ?F" "- int (length b) - ?F \<le> 1"
    using b(2) l by (auto simp: first_place_def significant_append split: if_splits)
  have expn: "number_exponent oob (t @ r) = (t \<noteq> [], r, of_int e, False)"
    by (rule number_exponent_eq [OF t _ r]) (use ends e in \<open>simp_all add: literal_ends_def\<close>)
  have ev: "sint (of_int e + of_int ?F :: u32) = e + ?F"
    unfolding of_int_add [symmetric] by (rule sint_of_int_small) (use e F in auto)
  show ?thesis
  proof (cases "\<bar>e + ?F\<bar> \<le> 38")
    case False
    then show ?thesis
      unfolding number_def int Let_def prod.case st1_def [symmetric] st2_def [symmetric] frac expn bind.bind_lunit ev
      using l st2(3-5) by (auto simp: tables_created_def)
  next
    case True
    obtain x where x: "(if e + ?F > 0 then do { p \<leftarrow> table_at (pdcl st2) (e + ?F); Some (fmul fp d2 p) }
        else Some (scale_down fp (nat (- (e + ?F))) d2)) = Some x" "near u 500 (val x) (literal_value a b e)"
      using scale_exponent [OF fp tabs(2) d2 small True F(3,4)] unfolding literal_value_eq by (auto simp: algebra_simps)
    then show ?thesis
      unfolding number_def int Let_def prod.case st1_def [symmetric] st2_def [symmetric] frac expn bind.bind_lunit ev
      using True l st2(3-5) by (cases "e + ?F > 0") (auto simp: tables_created_def bind_eq_Some_conv)
  qed
qed

section \<open>Properties\<close>

text \<open>C22: a real literal with at most eight significant digits and at most 98 digits behind the point, under floating
  point arithmetic with the relative error \<open>u \<le> 1 / 2000\<close> of each operation. When the place of its first significant digit
  and its exponent add up to at most 38 in absolute value, the token holds the number the literal denotes up to the factors
  \<open>(1 - u) ^ 500\<close> and \<open>(1 + u) ^ 500\<close> of at most 500 roundings, and nothing is printed. Otherwise the message that the
  number is out of range is printed and the token holds 0. The exponent stays below \<open>2 ^ 30\<close>, so that it does not wrap around.\<close>

theorem real_literal_accurate:
  assumes "fp_rounds fp val u" "real_literal a b t e" "literal_ends t r" "\<bar>e\<bar> < 2 ^ 30"
    and "tables_created fp st" "inp st = literal_text a b t @ r"
  shows "\<exists>st' x. number fp oob st tok = Some (st', tok\<lparr>tokentype := NUMBERTOK, data_type := REAL, tokenval := Realnum x\<rparr>) \<and>
    inp st' = r \<and> EOFFLG st' = EOFFLG st \<and> tables_created fp st' \<and>
    (if \<bar>e + first_place a b\<bar> \<le> 38 then out st' = out st \<and>
       (1 - u) ^ 500 * literal_value a b e \<le> val x \<and> val x \<le> (1 + u) ^ 500 * literal_value a b e
     else out st' = out st @ ''Floating number out of range'' @ [CHR 0x0A] \<and> x = fof fp 0)"
  using number_literal [OF assms, of oob tok] unfolding near_def by (auto split: if_splits)

lemma in_range_nonneg: "in_range x \<Longrightarrow> 0 \<le> x"
  unfolding in_range_def using zero_le_power_int [of "10 :: real" "- 300"] by linarith

lemma exact_rounds: "fp_rounds exact real_of_rat 0"
  using in_range_nonneg by (simp add: fp_rounds_def near_def of_rat_add of_rat_mult of_rat_divide)

theorem real_literal_accurate_witness:
  "\<exists>st'. number exact 0 (lexer_start exact ''3.25e2 '') talloc =
     Some (st', talloc\<lparr>tokentype := NUMBERTOK, data_type := REAL, tokenval := Realnum 325\<rparr>) \<and> inp st' = '' '' \<and> out st' = []"
proof -
  have d: "list_all is_digit ''3''" "list_all is_digit ''25''" "list_all is_digit ''2''"
    by (simp_all add: is_digit_def code_def)
  have v: "decimal ''3'' = 3" "decimal ''25'' = 25" "decimal ''2'' = 2"
    by (simp_all add: decimal_def digit_val_def code_def)
  have "exp_text ''e2'' 2" using exp_plain [OF _ d(3), of "CHR ''e''"] v by simp
  then have l: "real_literal ''3'' ''25'' ''e2'' 2"
    using d by (simp add: real_literal_def significant_def digit_val_def code_def)
  have f: "first_place ''3'' ''25'' = 0" "literal_value ''3'' ''25'' 2 = 325"
    by (simp_all add: first_place_def significant_def digit_val_def code_def literal_value_def v)
  have q: "real_of_rat x = 325 \<longleftrightarrow> x = 325" for x using of_rat_eq_iff [of x 325, where 'a = real] by simp
  show ?thesis
    using real_literal_accurate [OF exact_rounds l, of "'' ''" "lexer_start exact ''3.25e2 ''" 0 talloc] f q
    by (auto simp: literal_ends_def is_digit_def code_def peekchar_def tables_created_def lexer_start_def literal_text_def)
qed

end
