(* ===== verification/Kstring.thy ===== *)
theory Kstring
  imports Prelude "HOL-Library.List_Lexorder"
begin

text \<open>
  The memory and string functions of \<open>lib/string.c\<close> on a memory of bytes. Addresses and sizes are
  natural numbers; a search through memory that holds no terminating zero byte does not end, which is the
  outcome \<^const>\<open>None\<close>. Functions that return a pointer into a string return the null pointer when there is
  none. The predicate \<open>cstring\<close> says which bytes the string at an address consists of.
\<close>

type_synonym mem = "ptr \<Rightarrow> u8"

section \<open>Blocks of memory\<close>

primrec copy_up :: "nat \<Rightarrow> mem \<Rightarrow> ptr \<Rightarrow> ptr \<Rightarrow> ptr \<times> mem" where
  "copy_up 0 m dst src = (dst, m)"
| "copy_up (Suc n) m dst src = copy_up n (m(dst := m src)) (dst + 1) (src + 1)"

primrec copy_down :: "nat \<Rightarrow> mem \<Rightarrow> ptr \<Rightarrow> ptr \<Rightarrow> ptr \<times> mem" where
  "copy_down 0 m dst src = (dst, m)"
| "copy_down (Suc n) m dst src = copy_down n (m(dst - 1 := m (src - 1))) (dst - 1) (src - 1)"

definition memcpy :: "mem \<Rightarrow> ptr \<Rightarrow> ptr \<Rightarrow> nat \<Rightarrow> (ptr \<times> mem) option" where
  "memcpy m dst src sz = do {
     ASSERT (dst \<noteq> NULL \<or> sz = 0);
     ASSERT (src \<noteq> NULL \<or> sz = 0);
     Some (dst, snd (copy_up sz m dst src))
   }"

definition memmove :: "mem \<Rightarrow> ptr \<Rightarrow> ptr \<Rightarrow> nat \<Rightarrow> (ptr \<times> mem) option" where
  "memmove m dst src sz = do {
     ASSERT (dst \<noteq> NULL \<or> sz = 0);
     ASSERT (src \<noteq> NULL \<or> sz = 0);
     Some (if dst < src then copy_up sz m dst src else copy_down sz m (dst + sz) (src + sz))
   }"

primrec memcmp_loop :: "nat \<Rightarrow> mem \<Rightarrow> ptr \<Rightarrow> ptr \<Rightarrow> int" where
  "memcmp_loop 0 m a b = 0"
| "memcmp_loop (Suc n) m a b =
     (if m a \<noteq> m b then (if m a > m b then 1 else - 1) else memcmp_loop n m (a + 1) (b + 1))"

definition memcmp :: "mem \<Rightarrow> ptr \<Rightarrow> ptr \<Rightarrow> nat \<Rightarrow> int option" where
  "memcmp m a b sz = do {
     ASSERT (a \<noteq> NULL \<or> sz = 0);
     ASSERT (b \<noteq> NULL \<or> sz = 0);
     Some (memcmp_loop sz m a b)
   }"

primrec memchr_loop :: "nat \<Rightarrow> mem \<Rightarrow> ptr \<Rightarrow> u8 \<Rightarrow> ptr" where
  "memchr_loop 0 m block ch = NULL"
| "memchr_loop (Suc n) m block ch = (if m block = ch then block else memchr_loop n m (block + 1) ch)"

definition memchr :: "mem \<Rightarrow> ptr \<Rightarrow> u8 \<Rightarrow> nat \<Rightarrow> ptr option" where
  "memchr m block ch sz = do {
     ASSERT (block \<noteq> NULL \<or> sz = 0);
     Some (memchr_loop sz m block ch)
   }"

primrec memset_loop :: "nat \<Rightarrow> mem \<Rightarrow> ptr \<Rightarrow> u8 \<Rightarrow> mem" where
  "memset_loop 0 m dst v = m"
| "memset_loop (Suc n) m dst v = memset_loop n (m(dst := v)) (dst + 1) v"

definition memset :: "mem \<Rightarrow> ptr \<Rightarrow> u8 \<Rightarrow> nat \<Rightarrow> (ptr \<times> mem) option" where
  "memset m dst v sz = do {
     ASSERT (dst \<noteq> NULL \<or> sz = 0);
     Some (dst, memset_loop sz m dst v)
   }"

section \<open>Strings\<close>

partial_function (option) strcmp_loop :: "mem \<Rightarrow> ptr \<Rightarrow> ptr \<Rightarrow> int option" where
  "strcmp_loop m a b =
     (if m a \<noteq> 0 \<and> m a = m b then strcmp_loop m (a + 1) (b + 1)
      else Some (if m a < m b then - 1 else if m a > m b then 1 else 0))"

definition strcmp :: "mem \<Rightarrow> ptr \<Rightarrow> ptr \<Rightarrow> int option" where
  "strcmp m a b = do {
     ASSERT (a \<noteq> NULL);
     ASSERT (b \<noteq> NULL);
     strcmp_loop m a b
   }"

partial_function (option) strchr_loop :: "mem \<Rightarrow> ptr \<Rightarrow> u8 \<Rightarrow> ptr option" where
  "strchr_loop m p c =
     (if m p = c then Some p else if m p = 0 then Some NULL else strchr_loop m (p + 1) c)"

definition strchr :: "mem \<Rightarrow> ptr \<Rightarrow> u8 \<Rightarrow> ptr option" where
  "strchr m p c = do {
     ASSERT (p \<noteq> NULL);
     strchr_loop m p c
   }"

partial_function (option) strcspn_loop :: "mem \<Rightarrow> ptr \<Rightarrow> ptr \<Rightarrow> nat \<Rightarrow> nat option" where
  "strcspn_loop m p stop len =
     (if m (p + len) \<noteq> 0 then do {
        q \<leftarrow> strchr m stop (m (p + len));
        if q \<noteq> NULL then Some len else strcspn_loop m p stop (len + 1)
      } else Some len)"

definition strcspn :: "mem \<Rightarrow> ptr \<Rightarrow> ptr \<Rightarrow> nat option" where
  "strcspn m p stop = strcspn_loop m p stop 0"

partial_function (option) strpbrk :: "mem \<Rightarrow> ptr \<Rightarrow> ptr \<Rightarrow> ptr option" where
  "strpbrk m p stop =
     (if m p \<noteq> 0 then do {
        q \<leftarrow> strchr m stop (m p);
        if q \<noteq> NULL then Some p else strpbrk m (p + 1) stop
      } else Some NULL)"

partial_function (option) strrchr_loop :: "mem \<Rightarrow> ptr \<Rightarrow> u8 \<Rightarrow> ptr \<Rightarrow> ptr option" where
  "strrchr_loop m p c found =
     (if m p \<noteq> 0 then strrchr_loop m (p + 1) c (if m p = c then p else found) else Some found)"

definition strrchr :: "mem \<Rightarrow> ptr \<Rightarrow> u8 \<Rightarrow> ptr option" where
  "strrchr m p c = strrchr_loop m p c NULL"

partial_function (option) strspn_loop :: "mem \<Rightarrow> ptr \<Rightarrow> ptr \<Rightarrow> nat \<Rightarrow> nat option" where
  "strspn_loop m p skip len =
     (if m (p + len) \<noteq> 0 then do {
        q \<leftarrow> strchr m skip (m (p + len));
        if q = NULL then Some len else strspn_loop m p skip (len + 1)
      } else Some len)"

definition strspn :: "mem \<Rightarrow> ptr \<Rightarrow> ptr \<Rightarrow> nat option" where
  "strspn m p skip = strspn_loop m p skip 0"

partial_function (option) strlen_loop :: "mem \<Rightarrow> ptr \<Rightarrow> ptr option" where
  "strlen_loop m p = (if m p \<noteq> 0 then strlen_loop m (p + 1) else Some p)"

definition strlen :: "mem \<Rightarrow> ptr \<Rightarrow> nat option" where
  "strlen m p = do {
     ASSERT (p \<noteq> NULL);
     q \<leftarrow> strlen_loop m p;
     Some (q - p)
   }"

partial_function (option) strnlen_loop :: "mem \<Rightarrow> ptr \<Rightarrow> nat \<Rightarrow> nat \<Rightarrow> nat option" where
  "strnlen_loop m p maxlen len =
     (if m (p + len) \<noteq> 0 \<and> len < maxlen then strnlen_loop m p maxlen (len + 1) else Some len)"

definition strnlen :: "mem \<Rightarrow> ptr \<Rightarrow> nat \<Rightarrow> nat option" where
  "strnlen m p maxlen = strnlen_loop m p maxlen 0"

text \<open>The search of \<open>strstr\<close> from offset \<open>i\<close>, with \<open>n\<close> further offsets to try.\<close>

primrec strstr_loop :: "nat \<Rightarrow> mem \<Rightarrow> ptr \<Rightarrow> ptr \<Rightarrow> nat \<Rightarrow> nat \<Rightarrow> ptr option" where
  "strstr_loop 0 m haystack needle needle_len i = Some NULL"
| "strstr_loop (Suc n) m haystack needle needle_len i = do {
     c \<leftarrow> memcmp m (haystack + i) needle needle_len;
     if c = 0 then Some (haystack + i) else strstr_loop n m haystack needle needle_len (i + 1)
   }"

definition strstr :: "mem \<Rightarrow> ptr \<Rightarrow> ptr \<Rightarrow> ptr option" where
  "strstr m haystack needle = do {
     haystack_len \<leftarrow> strlen m haystack;
     needle_len \<leftarrow> strlen m needle;
     if haystack_len \<ge> needle_len
     then strstr_loop (haystack_len - needle_len + 1) m haystack needle needle_len 0
     else Some NULL
   }"

partial_function (option) strtok_skip :: "mem \<Rightarrow> ptr \<Rightarrow> ptr \<Rightarrow> ptr option" where
  "strtok_skip m s delimiters = do {
     q \<leftarrow> strchr m delimiters (m s);
     if q \<noteq> NULL \<and> m s \<noteq> 0 then strtok_skip m (s + 1) delimiters else Some s
   }"

partial_function (option) strtok_scan :: "mem \<Rightarrow> ptr \<Rightarrow> ptr \<Rightarrow> ptr option" where
  "strtok_scan m s delimiters = do {
     q \<leftarrow> strchr m delimiters (m s);
     if q = NULL then strtok_scan m (s + 1) delimiters else Some s
   }"

text \<open>The result is the token, the new value of \<open>*save_ptr\<close> and the memory.\<close>

definition strtok_r :: "mem \<Rightarrow> ptr \<Rightarrow> ptr \<Rightarrow> ptr \<Rightarrow> (ptr \<times> ptr \<times> mem) option" where
  "strtok_r m s delimiters save = do {
     ASSERT (delimiters \<noteq> NULL);
     let s = (if s = NULL then save else s);
     ASSERT (s \<noteq> NULL);
     s \<leftarrow> strtok_skip m s delimiters;
     if m s = 0 then Some (NULL, s, m)
     else do {
       let token = s;
       s \<leftarrow> strtok_scan m s delimiters;
       if m s \<noteq> 0 then Some (token, s + 1, m(s := 0)) else Some (token, s, m)
     }
   }"

definition strlcpy :: "mem \<Rightarrow> ptr \<Rightarrow> ptr \<Rightarrow> nat \<Rightarrow> (nat \<times> mem) option" where
  "strlcpy m dst src sz = do {
     ASSERT (dst \<noteq> NULL);
     ASSERT (src \<noteq> NULL);
     src_len \<leftarrow> strlen m src;
     if sz > 0 then do {
       let dst_len = sz - 1;
       let dst_len = (if src_len < dst_len then src_len else dst_len);
       (_, m) \<leftarrow> memcpy m dst src dst_len;
       Some (src_len, m(dst + dst_len := 0))
     } else Some (src_len, m)
   }"

definition strlcat :: "mem \<Rightarrow> ptr \<Rightarrow> ptr \<Rightarrow> nat \<Rightarrow> (nat \<times> mem) option" where
  "strlcat m dst src sz = do {
     ASSERT (dst \<noteq> NULL);
     ASSERT (src \<noteq> NULL);
     src_len \<leftarrow> strlen m src;
     dst_len \<leftarrow> strlen m dst;
     if sz > 0 \<and> dst_len < sz then do {
       let copy_cnt = sz - dst_len - 1;
       let copy_cnt = (if src_len < copy_cnt then src_len else copy_cnt);
       (_, m) \<leftarrow> memcpy m (dst + dst_len) src copy_cnt;
       Some (src_len + dst_len, m(dst + dst_len + copy_cnt := 0))
     } else Some (src_len + dst_len, m)
   }"

declare strcmp_loop.simps [code] strchr_loop.simps [code] strcspn_loop.simps [code] strpbrk.simps [code]
  strrchr_loop.simps [code] strspn_loop.simps [code] strlen_loop.simps [code] strnlen_loop.simps [code]
  strtok_skip.simps [code] strtok_scan.simps [code]


section \<open>What the operations do\<close>

text \<open>The zero-terminated string at address \<open>p\<close> consists of the bytes \<open>cs\<close>.\<close>

primrec cstring :: "mem \<Rightarrow> ptr \<Rightarrow> u8 list \<Rightarrow> bool" where
  "cstring m p [] = (m p = 0)"
| "cstring m p (c # cs) = (m p = c \<and> c \<noteq> 0 \<and> cstring m (p + 1) cs)"

text \<open>Memory after the \<open>n\<close> bytes at \<open>src\<close> have been moved to \<open>dst\<close>.\<close>

definition moved :: "mem \<Rightarrow> ptr \<Rightarrow> ptr \<Rightarrow> nat \<Rightarrow> mem" where
  "moved m dst src n = (\<lambda>a. if dst \<le> a \<and> a < dst + n then m (src + (a - dst)) else m a)"

lemma cstring_cong:
  assumes "\<And>a. p \<le> a \<Longrightarrow> a \<le> p + length cs \<Longrightarrow> m' a = m a"
  shows "cstring m' p cs = cstring m p cs"
  using assms by (induction cs arbitrary: p) auto

lemma cstring_append:
  "cstring m p (as @ bs) \<longleftrightarrow> (\<forall>i<length as. m (p + i) = as ! i \<and> as ! i \<noteq> 0) \<and> cstring m (p + length as) bs"
  by (induction as arbitrary: p) (auto simp: All_less_Suc2)

lemma cstring_suffix: "cstring m p (as @ bs) \<Longrightarrow> cstring m (p + length as) bs"
  by (simp add: cstring_append)

lemma cstring_iff:
  "cstring m p cs \<longleftrightarrow> (\<forall>i<length cs. m (p + i) = cs ! i \<and> cs ! i \<noteq> 0) \<and> m (p + length cs) = 0"
  using cstring_append[of m p cs "[]"] by simp

lemma cstring_zero: "cstring m p cs \<Longrightarrow> 0 \<notin> set cs"
  by (auto simp: cstring_iff in_set_conv_nth)

lemma cstring_nth: "cstring m p cs \<Longrightarrow> i < length cs \<Longrightarrow> m (p + i) = cs ! i"
  by (simp add: cstring_iff)

lemma cstring_end: "cstring m p cs \<Longrightarrow> m (p + length cs) = 0"
  by (simp add: cstring_iff)

lemma cstring_nonzero: "cstring m p cs \<Longrightarrow> i < length cs \<Longrightarrow> m (p + i) \<noteq> 0"
  by (simp add: cstring_iff)

subsection \<open>Blocks\<close>

lemma copy_up_moved:
  "dst < src \<or> src + n \<le> dst \<Longrightarrow> copy_up n m dst src = (dst + n, moved m dst src n)"
proof (induction n arbitrary: m dst src)
  case 0
  show ?case by (auto simp: moved_def fun_eq_iff)
next
  case (Suc n)
  define m' where "m' = m(dst := m src)"
  have "copy_up (Suc n) m dst src = (dst + 1 + n, moved m' (dst + 1) (src + 1) n)"
    using Suc.IH[of "dst + 1" "src + 1" m'] Suc.prems by (auto simp: m'_def[symmetric])
  moreover have "moved m' (dst + 1) (src + 1) n = moved m dst src (Suc n)"
  proof
    fix a
    show "moved m' (dst + 1) (src + 1) n a = moved m dst src (Suc n) a"
    proof (cases "dst < a")
      case True
      then have "src + 1 + (a - (dst + 1)) = src + (a - dst)"
        by simp
      then show ?thesis
        using Suc.prems True by (auto simp: moved_def m'_def)
    next
      case False
      then show ?thesis by (auto simp: moved_def m'_def)
    qed
  qed
  ultimately show ?case by simp
qed

lemma copy_down_moved:
  "src \<le> dst \<Longrightarrow> copy_down n m (dst + n) (src + n) = (dst, moved m dst src n)"
proof (induction n arbitrary: m)
  case 0
  show ?case by (auto simp: moved_def fun_eq_iff)
next
  case (Suc n)
  define m' where "m' = m(dst + n := m (src + n))"
  have "copy_down (Suc n) m (dst + Suc n) (src + Suc n) = (dst, moved m' dst src n)"
    using Suc.IH[of m'] Suc.prems by (simp add: m'_def[symmetric])
  moreover have "moved m' dst src n = moved m dst src (Suc n)"
    using Suc.prems by (auto simp: moved_def m'_def fun_eq_iff)
  ultimately show ?case by simp
qed

lemma memcpy_moved:
  assumes "dst \<noteq> NULL" "src \<noteq> NULL" "dst < src \<or> src + n \<le> dst"
  shows "memcpy m dst src n = Some (dst, moved m dst src n)"
  using assms by (simp add: memcpy_def copy_up_moved)

lemma memmove_returns:
  assumes "dst \<noteq> NULL" "src \<noteq> NULL"
  shows "memmove m dst src n = Some (if dst < src then dst + n else dst, moved m dst src n)"
  using assms by (simp add: memmove_def copy_up_moved copy_down_moved)

lemma memset_loop_apply:
  "memset_loop n m dst v a = (if dst \<le> a \<and> a < dst + n then v else m a)"
  by (induction n arbitrary: m dst) auto

lemma memcmp_loop_zero: "memcmp_loop n m a b = 0 \<longleftrightarrow> (\<forall>i<n. m (a + i) = m (b + i))"
  by (induction n arbitrary: a b) (auto simp: All_less_Suc2)

lemma memcmp_loop_order:
  "memcmp_loop n m a b =
     (let x = map (\<lambda>i. m (a + i)) [0..<n]; y = map (\<lambda>i. m (b + i)) [0..<n]
      in if x < y then - 1 else if x = y then 0 else 1)"
proof (induction n arbitrary: a b)
  case 0
  show ?case by simp
next
  case (Suc n)
  have split: "map (\<lambda>i. m (p + i)) [0..<Suc n] = m p # map (\<lambda>i. m (p + 1 + i)) [0..<n]" for p
    by (simp add: upt_conv_Cons map_Suc_upt[symmetric] del: upt_Suc)
  show ?case
    unfolding split using Suc.IH[of "a + 1" "b + 1"] by (auto simp: Let_def)
qed

lemma find_map_Suc: "find P (map Suc xs) = map_option Suc (find (\<lambda>i. P (Suc i)) xs)"
  by (induction xs) auto

lemma memchr_loop_find:
  "0 < p \<Longrightarrow> memchr_loop n m p c =
     (case find (\<lambda>i. m (p + i) = c) [0..<n] of None \<Rightarrow> NULL | Some i \<Rightarrow> p + i)"
proof (induction n arbitrary: p)
  case 0
  show ?case by simp
next
  case (Suc n)
  have "find (\<lambda>i. m (p + i) = c) (map Suc [0..<n]) = map_option Suc (find (\<lambda>i. m (Suc p + i) = c) [0..<n])"
    by (simp add: find_map_Suc)
  then show ?case
    using Suc.IH[of "p + 1"]
    by (auto simp: upt_conv_Cons map_Suc_upt[symmetric] simp del: upt_Suc split: option.splits)
qed

subsection \<open>Strings\<close>

lemma strcmp_loop_order:
  "cstring m a as \<Longrightarrow> cstring m b bs \<Longrightarrow>
   strcmp_loop m a b = Some (if as < bs then - 1 else if as = bs then 0 else 1)"
proof (induction as arbitrary: a b bs)
  case Nil
  then show ?case by (cases bs) (auto simp: strcmp_loop.simps[of m a b] word_neq_0_conv)
next
  case (Cons c as)
  show ?case
  proof (cases bs)
    case Nil
    then show ?thesis using Cons.prems by (simp add: strcmp_loop.simps[of m a b] word_gt_0)
  next
    case (Cons d ds)
    then have "strcmp_loop m (a + 1) (b + 1) = Some (if as < ds then - 1 else if as = ds then 0 else 1)"
      using Cons.IH Cons.prems by simp
    then show ?thesis
      using Cons Cons.prems by (simp add: strcmp_loop.simps[of m a b]) 
  qed
qed

lemma strchr_loop_find:
  "cstring m p cs \<Longrightarrow> 0 < p \<Longrightarrow>
   strchr_loop m p c = Some (if c \<in> set cs \<or> c = 0 then p + length (takeWhile (\<lambda>d. d \<noteq> c) cs) else NULL)"
proof (induction cs arbitrary: p)
  case Nil
  then show ?case by (auto simp: strchr_loop.simps[of m p])
next
  case (Cons d cs)
  then show ?case using Cons.IH[of "p + 1"] by (auto simp: strchr_loop.simps[of m p])
qed

lemma strchr_found:
  "cstring m p cs \<Longrightarrow> 0 < p \<Longrightarrow> \<exists>q. strchr m p c = Some q \<and> (q \<noteq> NULL \<longleftrightarrow> c \<in> set cs \<or> c = 0)"
  by (simp add: strchr_def strchr_loop_find NULL_def)

lemma strlen_loop_end: "cstring m p cs \<Longrightarrow> strlen_loop m p = Some (p + length cs)"
proof (induction cs arbitrary: p)
  case Nil
  then show ?case by (simp add: strlen_loop.simps[of m p])
next
  case (Cons d cs)
  then show ?case using Cons.IH[of "p + 1"] by (simp add: strlen_loop.simps[of m p])
qed

lemma strlen_length: "cstring m p cs \<Longrightarrow> p \<noteq> NULL \<Longrightarrow> strlen m p = Some (length cs)"
  by (simp add: strlen_def strlen_loop_end)

lemma strrchr_loop_last:
  "cstring m p cs \<Longrightarrow> c \<noteq> 0 \<Longrightarrow>
   strrchr_loop m p c f = Some (if c \<in> set cs then p + length cs - 1 - length (takeWhile (\<lambda>d. d \<noteq> c) (rev cs)) else f)"
proof (induction cs arbitrary: p f)
  case Nil
  then show ?case by (simp add: strrchr_loop.simps[of m p])
next
  case (Cons d cs)
  have "takeWhile (\<lambda>d. d \<noteq> c) (rev cs @ [d]) =
        (if c \<in> set cs then takeWhile (\<lambda>d. d \<noteq> c) (rev cs) else rev cs @ takeWhile (\<lambda>d. d \<noteq> c) [d])"
    by (auto simp: takeWhile_append)
  then show ?case
    using Cons.IH[of "p + 1"] Cons.prems by (auto simp: strrchr_loop.simps[of m p])
qed

lemma strcspn_loop_span:
  assumes "cstring m stop ss" "0 < stop"
  shows "cstring m (p + n) cs \<Longrightarrow> strcspn_loop m p stop n = Some (n + length (takeWhile (\<lambda>c. c \<notin> set ss) cs))"
proof (induction cs arbitrary: n)
  case Nil
  then show ?case by (simp add: strcspn_loop.simps[of m p])
next
  case (Cons c cs)
  obtain q where "strchr m stop c = Some q" "q \<noteq> NULL \<longleftrightarrow> c \<in> set ss \<or> c = 0"
    using strchr_found[OF assms] by blast
  then show ?case using Cons.IH[of "n + 1"] Cons.prems by (auto simp: strcspn_loop.simps[of m p])
qed

lemma strspn_loop_span:
  assumes "cstring m skip ss" "0 < skip"
  shows "cstring m (p + n) cs \<Longrightarrow> strspn_loop m p skip n = Some (n + length (takeWhile (\<lambda>c. c \<in> set ss) cs))"
proof (induction cs arbitrary: n)
  case Nil
  then show ?case by (simp add: strspn_loop.simps[of m p])
next
  case (Cons c cs)
  obtain q where "strchr m skip c = Some q" "q \<noteq> NULL \<longleftrightarrow> c \<in> set ss \<or> c = 0"
    using strchr_found[OF assms] by blast
  then show ?case using Cons.IH[of "n + 1"] Cons.prems by (auto simp: strspn_loop.simps[of m p])
qed

lemma strpbrk_span:
  assumes "cstring m stop ss" "0 < stop"
  shows "cstring m p cs \<Longrightarrow>
    strpbrk m p stop = Some (if \<exists>c\<in>set cs. c \<in> set ss then p + length (takeWhile (\<lambda>c. c \<notin> set ss) cs) else NULL)"
proof (induction cs arbitrary: p)
  case Nil
  then show ?case by (simp add: strpbrk.simps[of m p])
next
  case (Cons c cs)
  obtain q where "strchr m stop c = Some q" "q \<noteq> NULL \<longleftrightarrow> c \<in> set ss \<or> c = 0"
    using strchr_found[OF assms] by blast
  then show ?case using Cons.IH[of "p + 1"] Cons.prems by (auto simp: strpbrk.simps[of m p])
qed

lemma strnlen_loop_min:
  "cstring m (p + n) cs \<Longrightarrow> n \<le> maxlen \<Longrightarrow> strnlen_loop m p maxlen n = Some (min (n + length cs) maxlen)"
proof (induction cs arbitrary: n)
  case Nil
  then show ?case by (simp add: strnlen_loop.simps[of m p])
next
  case (Cons c cs)
  then show ?case using Cons.IH[of "n + 1"] by (cases "n = maxlen") (simp_all add: strnlen_loop.simps[of m p])
qed


subsection \<open>Tokens\<close>

text \<open>The maximal runs of non-delimiters of a text, in order.\<close>

function tokens :: "u8 list \<Rightarrow> u8 list \<Rightarrow> u8 list list" where
  "tokens ds t = (case dropWhile (\<lambda>c. c \<in> set ds) t of
     [] \<Rightarrow> []
   | c # cs \<Rightarrow> (c # takeWhile (\<lambda>c. c \<notin> set ds) cs) # tokens ds (dropWhile (\<lambda>c. c \<notin> set ds) cs))"
  by auto
termination
proof (relation "measure (\<lambda>(ds, t). length t)", goal_cases)
  case 1
  show ?case by simp
next
  case (2 ds t c cs)
  have "length (dropWhile (\<lambda>c. c \<notin> set ds) cs) \<le> length cs" "length (c # cs) \<le> length t"
    using length_dropWhile_le 2 by metis+
  then show ?case by simp
qed

declare tokens.simps [simp del]

text \<open>The loop of the documented use of \<open>strtok_r\<close>: all tokens of the string at \<open>s\<close>.\<close>

partial_function (option) strtok_all :: "mem \<Rightarrow> ptr \<Rightarrow> ptr \<Rightarrow> ptr \<Rightarrow> (ptr list \<times> mem) option" where
  "strtok_all m s delimiters save = do {
     (token, save, m) \<leftarrow> strtok_r m s delimiters save;
     if token \<noteq> NULL then do {
       (ts, m) \<leftarrow> strtok_all m NULL delimiters save;
       Some (token # ts, m)
     } else Some ([], m)
   }"

declare strtok_all.simps [code]

lemma strtok_skip_span:
  assumes "cstring m d ds" "0 < d"
  shows "cstring m s t \<Longrightarrow> strtok_skip m s d = Some (s + length (takeWhile (\<lambda>c. c \<in> set ds) t))"
proof (induction t arbitrary: s)
  case Nil
  obtain q where "strchr m d 0 = Some q" "q \<noteq> NULL"
    using strchr_found[OF assms, of 0] by blast
  then show ?case using Nil by (simp add: strtok_skip.simps[of m s])
next
  case (Cons c t)
  obtain q where "strchr m d c = Some q" "q \<noteq> NULL \<longleftrightarrow> c \<in> set ds \<or> c = 0"
    using strchr_found[OF assms] by blast
  then show ?case using Cons.IH[of "s + 1"] Cons.prems by (auto simp: strtok_skip.simps[of m s])
qed

lemma strtok_scan_span:
  assumes "cstring m d ds" "0 < d"
  shows "cstring m s t \<Longrightarrow> strtok_scan m s d = Some (s + length (takeWhile (\<lambda>c. c \<notin> set ds) t))"
proof (induction t arbitrary: s)
  case Nil
  obtain q where "strchr m d 0 = Some q" "q \<noteq> NULL"
    using strchr_found[OF assms, of 0] by blast
  then show ?case using Nil by (simp add: strtok_scan.simps[of m s])
next
  case (Cons c t)
  obtain q where "strchr m d c = Some q" "q \<noteq> NULL \<longleftrightarrow> c \<in> set ds \<or> c = 0"
    using strchr_found[OF assms] by blast
  then show ?case using Cons.IH[of "s + 1"] Cons.prems by (auto simp: strtok_scan.simps[of m s])
qed

lemma strtok_r_null: "s \<noteq> NULL \<Longrightarrow> strtok_r m s d save = strtok_r m NULL d s"
  by (simp add: strtok_r_def Let_def)

lemma strtok_r_none:
  assumes "cstring m d ds" "d \<noteq> NULL" "cstring m s t" "s \<noteq> NULL"
    and "dropWhile (\<lambda>c. c \<in> set ds) t = []"
  shows "strtok_r m NULL d s = Some (NULL, s + length t, m)"
proof -
  have "length (takeWhile (\<lambda>c. c \<in> set ds) t) = length t"
    using assms(5) takeWhile_dropWhile_id[of "\<lambda>c. c \<in> set ds" t] by (metis append_Nil2)
  then have "strtok_skip m s d = Some (s + length t)"
    using strtok_skip_span[OF assms(1) _ assms(3)] assms(2) by (simp add: NULL_def)
  then show ?thesis
    using assms cstring_end[OF assms(3)] by (simp add: strtok_r_def Let_def)
qed

lemma strtok_r_some:
  assumes "cstring m d ds" "d \<noteq> NULL" "cstring m s (ws @ tok @ rest)" "s \<noteq> NULL"
    and "set ws \<subseteq> set ds" "tok \<noteq> []" "set tok \<inter> set ds = {}" "rest = [] \<or> hd rest \<in> set ds"
  shows "strtok_r m NULL d s =
    (if rest = [] then Some (s + length ws, s + length ws + length tok, m)
     else Some (s + length ws, s + length ws + length tok + 1, m(s + length ws + length tok := 0)))"
proof -
  have "takeWhile (\<lambda>c. c \<in> set ds) (ws @ tok @ rest) = ws"
    using assms(5-7) by (cases tok) (auto simp: takeWhile_append)
  then have skip: "strtok_skip m s d = Some (s + length ws)"
    using strtok_skip_span[OF assms(1) _ assms(3)] assms(2) by (simp add: NULL_def)
  have t: "cstring m (s + length ws) (tok @ rest)"
    using cstring_suffix[OF assms(3)] .
  have "takeWhile (\<lambda>c. c \<notin> set ds) (tok @ rest) = tok"
    using assms(7,8) by (cases rest) (auto simp: takeWhile_append)
  then have scan: "strtok_scan m (s + length ws) d = Some (s + length ws + length tok)"
    using strtok_scan_span[OF assms(1) _ t] assms(2) by (simp add: NULL_def)
  have r: "cstring m (s + length ws + length tok) rest"
    using cstring_suffix[OF t] .
  have "m (s + length ws) \<noteq> 0"
    using t assms(6) by (cases tok) auto
  moreover have "m (s + length ws + length tok) \<noteq> 0 \<longleftrightarrow> rest \<noteq> []"
    using r by (cases rest) auto
  ultimately show ?thesis
    using assms(2,4) by (simp add: strtok_r_def Let_def skip scan)
qed

lemma strtok_all_tokens:
  assumes "d \<noteq> NULL" "s \<noteq> NULL" "cstring m d ds" "cstring m s t" "s + length t < d \<or> d + length ds < s"
  shows "\<exists>ps m'. strtok_all m NULL d s = Some (ps, m') \<and> list_all2 (cstring m') ps (tokens ds t) \<and>
           (\<forall>a. a < s \<or> s + length t < a \<longrightarrow> m' a = m a)"
  using assms(2-)
proof (induction "length t" arbitrary: m s t rule: less_induct)
  case less
  show ?case
  proof (cases "dropWhile (\<lambda>c. c \<in> set ds) t")
    case Nil
    have "strtok_all m NULL d s = Some ([], m)"
      using strtok_r_none[OF less.prems(2) assms(1) less.prems(3,1) Nil] by (simp add: strtok_all.simps[of m])
    moreover have "tokens ds t = []"
      by (subst tokens.simps) (simp only: Nil list.case)
    ultimately show ?thesis by simp
  next
    case (Cons c cs)
    define ws where "ws = takeWhile (\<lambda>c. c \<in> set ds) t"
    define tok where "tok = c # takeWhile (\<lambda>c. c \<notin> set ds) cs"
    define rest where "rest = dropWhile (\<lambda>c. c \<notin> set ds) cs"
    have t: "t = ws @ tok @ rest"
      using takeWhile_dropWhile_id[of "\<lambda>c. c \<in> set ds" t] Cons by (simp add: ws_def tok_def rest_def)
    have c: "c \<notin> set ds"
      using hd_dropWhile[of "\<lambda>c. c \<in> set ds" t] Cons by simp
    have parts: "set ws \<subseteq> set ds" "tok \<noteq> []" "set tok \<inter> set ds = {}" "rest = [] \<or> hd rest \<in> set ds"
      using c hd_dropWhile[of "\<lambda>c. c \<notin> set ds" cs]
      by (auto simp: ws_def tok_def rest_def dest: set_takeWhileD)
    have toks: "tokens ds t = tok # tokens ds rest"
      using Cons by (simp add: tokens.simps[of ds t] tok_def rest_def)
    note step = strtok_r_some[OF less.prems(2) assms(1) less.prems(3)[unfolded t] less.prems(1) parts]
    define e where "e = s + length ws + length tok"
    have found: "s + length ws \<noteq> NULL"
      using less.prems(1) by (simp add: NULL_def)
    have old: "cstring m (s + length ws) (tok @ rest)" "cstring m e rest"
      using cstring_suffix[OF less.prems(3)[unfolded t]] cstring_suffix[of m "s + length ws" tok rest]
      by (auto simp: e_def)
    have tok_old: "\<forall>i<length tok. m (s + length ws + i) = tok ! i \<and> tok ! i \<noteq> 0"
      using old(1) by (simp add: cstring_append)
    show ?thesis
    proof (cases rest)
      case Nil
      have none: "strtok_r m NULL d e = Some (NULL, e, m)"
        using strtok_r_none[OF less.prems(2) assms(1) old(2)] less.prems(1) Nil by (simp add: e_def NULL_def)
      then have "strtok_all m NULL d e = Some ([], m)"
        by (simp add: strtok_all.simps[of m])
      then have "strtok_all m NULL d s = Some ([s + length ws], m)"
        using step Nil found by (simp add: strtok_all.simps[of m NULL d s] e_def)
      moreover have "cstring m (s + length ws) tok"
        using old(1) Nil by simp
      ultimately show ?thesis using toks Nil by (simp add: tokens.simps[of ds "[]"])
    next
      case (Cons r rs)
      define m1 where "m1 = m(e := 0)"
      have e_in: "s \<le> e" "e \<le> s + length t" "e + 1 + length rs = s + length t"
        using Cons by (auto simp: e_def t)
      have "cstring m1 d ds"
        using less.prems(2,4) e_in cstring_cong[of d ds m1 m] by (auto simp: m1_def)
      moreover have "cstring m1 (e + 1) rs"
        using old(2) Cons cstring_cong[of "e + 1" rs m1 m] by (auto simp: m1_def)
      moreover have "length rs < length t" "e + 1 \<noteq> NULL" "e + 1 + length rs < d \<or> d + length ds < e + 1"
        using less.prems(4) e_in Cons by (auto simp: t NULL_def)
      ultimately obtain ps m' where IH: "strtok_all m1 NULL d (e + 1) = Some (ps, m')"
          "list_all2 (cstring m') ps (tokens ds rs)" "\<forall>a. a < e + 1 \<or> e + 1 + length rs < a \<longrightarrow> m' a = m1 a"
        using less.hyps[of rs "e + 1" m1] by blast
      have "strtok_all m NULL d s = Some ((s + length ws) # ps, m')"
        using step Cons found IH(1)
        by (simp add: strtok_all.simps[of m NULL d s] e_def m1_def)
      moreover have "cstring m' (s + length ws) tok"
        using IH(3) tok_old by (simp add: cstring_iff m1_def e_def)
      moreover have "r \<in> set ds"
        using parts(4) Cons by simp
      then have "tokens ds rest = tokens ds rs"
        using Cons by (simp add: tokens.simps[of ds "r # rs"] tokens.simps[of ds rs])
      moreover have "m' a = m a" if "a < s \<or> s + length t < a" for a
        using that IH(3) e_in by (auto simp: m1_def)
      ultimately show ?thesis using toks IH(2) by auto
    qed
  qed
qed


subsection \<open>Searching and bounded copying\<close>

lemma strstr_loop_find:
  assumes h: "cstring m h hs" "h \<noteq> NULL" and n: "cstring m n ns" "n \<noteq> NULL"
  shows "i + k \<le> length hs - length ns + 1 \<Longrightarrow> length ns \<le> length hs \<Longrightarrow>
    strstr_loop k m h n (length ns) i =
      Some (case find (\<lambda>i. take (length ns) (drop i hs) = ns) [i..<i + k] of None \<Rightarrow> NULL | Some j \<Rightarrow> h + j)"
proof (induction k arbitrary: i)
  case 0
  then show ?case by simp
next
  case (Suc k)
  have "memcmp_loop (length ns) m (h + i) n = 0 \<longleftrightarrow> take (length ns) (drop i hs) = ns"
  proof -
    have "m (h + i + j) = hs ! (i + j)" "m (n + j) = ns ! j" if "j < length ns" for j
      using that Suc.prems cstring_nth[OF h(1), of "i + j"] cstring_nth[OF n(1), of j]
      by (auto simp: add.assoc)
    then show ?thesis
      using Suc.prems by (auto simp: memcmp_loop_zero list_eq_iff_nth_eq)
  qed
  moreover have "h + i \<noteq> NULL" using h(2) by (simp add: NULL_def)
  ultimately show ?case
    using Suc.IH[of "i + 1"] Suc.prems n(2) by (simp add: memcmp_def upt_conv_Cons del: upt_Suc)
qed

lemma take_drop_short:
  assumes "i \<le> length hs" "length hs < i + length ns"
  shows "take (length ns) (drop i hs) \<noteq> ns"
proof
  assume "take (length ns) (drop i hs) = ns"
  then have "min (length hs - i) (length ns) = length ns"
    by (metis length_drop length_take min.commute)
  then show False using assms by simp
qed

lemma find_upt_extend:
  assumes "a \<le> b" "b \<le> c" "\<And>i. b \<le> i \<Longrightarrow> i < c \<Longrightarrow> \<not> P i"
  shows "find P [a..<c] = find P [a..<b]"
proof -
  have "find P (xs @ ys) = find P xs" if "\<forall>y\<in>set ys. \<not> P y" for xs ys
    using that by (induction xs) (auto simp: find_None_iff)
  then show ?thesis
    using assms upt_add_eq_append[of a b "c - b"] by simp
qed

lemma moved_cstring:
  assumes "cstring m src cs" "n \<le> length cs" "ds = take n cs"
  shows "cstring ((moved m dst src n)(dst + n := 0)) dst ds"
  using assms cstring_nth[OF assms(1)] cstring_nonzero[OF assms(1)]
  by (auto simp: cstring_iff moved_def)


section \<open>Properties\<close>

text \<open>C33: \<open>memmove\<close> copies the block as it was before the call even when the two blocks overlap, changes no
  byte outside the destination, and returns the end of the destination when it copies upwards.\<close>

theorem memmove_overlap:
  assumes "dst \<noteq> NULL" "src \<noteq> NULL"
  shows "\<exists>q m'. memmove m dst src n = Some (q, m') \<and> (\<forall>i<n. m' (dst + i) = m (src + i)) \<and>
           (\<forall>a. a \<notin> {dst..<dst + n} \<longrightarrow> m' a = m a) \<and> q = (if dst < src then dst + n else dst)"
  using memmove_returns[OF assms] by (auto simp: moved_def)

definition demo_mem :: mem where
  "demo_mem = (\<lambda>_. 0)(10 := 97, 11 := 98, 12 := 32, 13 := 32, 14 := 99, 15 := 32, 20 := 32, 30 := 98, 31 := 32)"

theorem memmove_overlap_witness:
  "\<exists>q m'. memmove demo_mem 10 11 4 = Some (q, m') \<and> map m' [9, 10, 11, 12, 13, 14] = [0, 98, 32, 32, 99, 99] \<and> q = 14"
proof -
  obtain q m' where *: "memmove demo_mem 10 11 4 = Some (q, m')" "\<forall>i<4. m' (10 + i) = demo_mem (11 + i)"
      "\<forall>a. a \<notin> {10..<10 + 4} \<longrightarrow> m' a = demo_mem a" "q = 14"
    using memmove_overlap[of 10 11 demo_mem 4] by (auto simp: NULL_def)
  have "m' 9 = 0" "m' 14 = 99"
    using *(3) by (simp_all add: demo_mem_def)
  moreover have "m' (10 + 0) = 98" "m' (10 + 1) = 32" "m' (10 + 2) = 32" "m' (10 + 3) = 99"
    using *(2)[rule_format, of 0] *(2)[rule_format, of 1] *(2)[rule_format, of 2] *(2)[rule_format, of 3]
    by (simp_all add: demo_mem_def)
  ultimately show ?thesis using * by simp
qed

text \<open>C30: calling \<open>strtok_r\<close> until it returns the null pointer ends, and the tokens it returned are exactly the
  maximal runs of non-delimiters of the string, each terminated in place; no byte outside the string changes.\<close>

theorem strtok_r_all_tokens:
  assumes "d \<noteq> NULL" "s \<noteq> NULL" "cstring m d ds" "cstring m s t" "s + length t < d \<or> d + length ds < s"
  shows "\<exists>ps m'. strtok_all m s d save = Some (ps, m') \<and> list_all2 (cstring m') ps (tokens ds t) \<and>
           (\<forall>a. a < s \<or> s + length t < a \<longrightarrow> m' a = m a)"
proof -
  have "strtok_all m s d save = strtok_all m NULL d s"
    by (simp add: strtok_all.simps[of m s] strtok_all.simps[of m NULL] strtok_r_null[OF assms(2)])
  then show ?thesis using strtok_all_tokens[OF assms] by simp
qed

theorem strtok_r_all_tokens_witness:
  "\<exists>ps m'. strtok_all demo_mem 10 20 NULL = Some (ps, m') \<and> list_all2 (cstring m') ps [[97, 98], [99]]"
proof -
  have "tokens [32] [97, 98, 32, 32, 99, 32] = [[97, 98], [99]]"
    by (simp add: tokens.simps)
  then show ?thesis
    using strtok_r_all_tokens[of 20 10 demo_mem "[32]" "[97, 98, 32, 32, 99, 32]" NULL]
    by (simp add: NULL_def demo_mem_def) blast
qed

text \<open>C34: \<open>strstr\<close> returns a pointer to the first place where the needle occurs in the haystack, or the null
  pointer when it does not occur.\<close>

theorem strstr_first:
  assumes h: "cstring m h hs" "h \<noteq> NULL" and n: "cstring m n ns" "n \<noteq> NULL"
  shows "strstr m h n = Some (case find (\<lambda>i. take (length ns) (drop i hs) = ns) [0..<length hs + 1] of
           None \<Rightarrow> NULL | Some i \<Rightarrow> h + i)"
proof (cases "length ns \<le> length hs")
  case True
  have "find (\<lambda>i. take (length ns) (drop i hs) = ns) [0..<length hs + 1]
      = find (\<lambda>i. take (length ns) (drop i hs) = ns) [0..<length hs - length ns + 1]"
    using True by (intro find_upt_extend take_drop_short) auto
  then show ?thesis
    using True strstr_loop_find[OF assms, of 0 "length hs - length ns + 1"] strlen_length[OF h] strlen_length[OF n]
    by (simp add: strstr_def)
next
  case False
  then have "find (\<lambda>i. take (length ns) (drop i hs) = ns) [0..<length hs + 1] = None"
    using take_drop_short[of _ hs ns] by (auto simp: find_None_iff)
  then show ?thesis
    using False strlen_length[OF h] strlen_length[OF n] by (simp add: strstr_def)
qed

theorem strstr_first_witness: "strstr demo_mem 10 30 = Some 11"
  using strstr_first[of demo_mem 10 "[97, 98, 32, 32, 99, 32]" 30 "[98, 32]"]
  by (simp add: NULL_def demo_mem_def upt_rec)

text \<open>C31: \<open>strlcpy\<close> and \<open>strlcat\<close> never write outside the \<open>size\<close> bytes of the destination; afterwards the
  destination holds the zero-terminated source, or concatenation, cut to \<open>size - 1\<close> bytes, and the result is the
  length of the uncut string.\<close>

theorem strlcpy_strlcat_bounded:
  assumes "dst \<noteq> NULL" "src \<noteq> NULL" "cstring m src cs" "cstring m dst ds" "length ds < sz"
    and "dst + sz \<le> src \<or> src + length cs < dst"
  shows "(\<exists>m'. strlcpy m dst src sz = Some (length cs, m') \<and> cstring m' dst (take (sz - 1) cs) \<and>
            (\<forall>a. a \<notin> {dst..<dst + sz} \<longrightarrow> m' a = m a)) \<and>
         (\<exists>m'. strlcat m dst src sz = Some (length cs + length ds, m') \<and> cstring m' dst (take (sz - 1) (ds @ cs)) \<and>
            (\<forall>a. a \<notin> {dst..<dst + sz} \<longrightarrow> m' a = m a))"
proof (rule conjI)
  define n where "n = (if length cs < sz - 1 then length cs else sz - 1)"
  have "memcpy m dst src n = Some (dst, moved m dst src n)"
    using assms by (intro memcpy_moved) (auto simp: n_def)
  then have "strlcpy m dst src sz = Some (length cs, (moved m dst src n)(dst + n := 0))"
    using assms strlen_length[OF assms(3,2)] by (auto simp: strlcpy_def n_def Let_def)
  moreover have "cstring ((moved m dst src n)(dst + n := 0)) dst (take (sz - 1) cs)"
    by (rule moved_cstring[OF assms(3)]) (auto simp: n_def)
  ultimately show "\<exists>m'. strlcpy m dst src sz = Some (length cs, m') \<and> cstring m' dst (take (sz - 1) cs) \<and>
      (\<forall>a. a \<notin> {dst..<dst + sz} \<longrightarrow> m' a = m a)"
    using assms(5) by (fastforce simp: moved_def n_def)
next
  define n where "n = (if length cs < sz - length ds - 1 then length cs else sz - length ds - 1)"
  define e where "e = dst + length ds"
  define m' where "m' = (moved m e src n)(e + n := 0)"
  have "e \<noteq> NULL" using assms(1) by (simp add: e_def NULL_def)
  then have "memcpy m e src n = Some (e, moved m e src n)"
    using assms by (intro memcpy_moved) (auto simp: n_def e_def)
  then have "strlcat m dst src sz = Some (length cs + length ds, m')"
    using assms strlen_length[OF assms(3,2)] strlen_length[OF assms(4,1)]
    by (auto simp: strlcat_def n_def e_def m'_def Let_def)
  moreover have "cstring m' e (take (sz - 1 - length ds) cs)"
    unfolding m'_def by (rule moved_cstring[OF assms(3)]) (auto simp: n_def)
  then have "cstring m' dst (take (sz - 1) (ds @ cs))"
    using assms(4,5) cstring_nth[OF assms(4)] cstring_nonzero[OF assms(4)]
    by (auto simp: cstring_append e_def m'_def moved_def)
  ultimately show "\<exists>m'. strlcat m dst src sz = Some (length cs + length ds, m') \<and>
      cstring m' dst (take (sz - 1) (ds @ cs)) \<and> (\<forall>a. a \<notin> {dst..<dst + sz} \<longrightarrow> m' a = m a)"
    using assms(5) by (fastforce simp: moved_def n_def m'_def e_def)
qed

theorem strlcpy_strlcat_bounded_witness:
  "\<exists>m'. strlcat demo_mem 30 10 5 = Some (8, m') \<and> cstring m' 30 [98, 32, 97, 98]"
  using strlcpy_strlcat_bounded[of 30 10 demo_mem "[97, 98, 32, 32, 99, 32]" "[98, 32]" 5]
  by (auto simp: NULL_def demo_mem_def)

end
