(* ===== verification/Arith64.thy ===== *)
theory Arith64
  imports Prelude "HOL-Library.Signed_Division"
begin

unbundle bit_operations_syntax

text \<open>
  The 64-bit division routines of \<open>lib/arithmetic.c\<close>, which the compiler calls for division on a machine
  that only divides a 64-bit number by a 32-bit one. Machine words keep their width; the trap of the divide
  instruction is the outcome \<^const>\<open>None\<close>.
\<close>

text \<open>The quotient that the instruction \<open>divl\<close> leaves in its 32-bit register; it traps when the divisor is
  zero or the quotient does not fit.\<close>

definition divl :: "u64 \<Rightarrow> u32 \<Rightarrow> u32 option" where
  "divl n d = (if d = 0 \<or> 2 ^ 32 \<le> unat n div unat d then None else Some (ucast (n div ucast d)))"

definition nlz :: "u32 \<Rightarrow> nat" where
  "nlz x =
     (let n = 0;
          (n, x) = (if x \<le> 0x0000FFFF then (n + 16, push_bit 16 x) else (n, x));
          (n, x) = (if x \<le> 0x00FFFFFF then (n + 8, push_bit 8 x) else (n, x));
          (n, x) = (if x \<le> 0x0FFFFFFF then (n + 4, push_bit 4 x) else (n, x));
          (n, x) = (if x \<le> 0x3FFFFFFF then (n + 2, push_bit 2 x) else (n, x))
      in if x \<le> 0x7FFFFFFF then n + 1 else n)"

definition udiv64 :: "u64 \<Rightarrow> u64 \<Rightarrow> u64 option" where
  "udiv64 n d =
     (if drop_bit 32 d = 0 then do {
        let b = (push_bit 32 1 :: u64);
        let n1 = (ucast (drop_bit 32 n) :: u32);
        let n0 = (ucast n :: u32);
        let d0 = (ucast d :: u32);
        q \<leftarrow> divl (b * ucast (n1 mod d0) + ucast n0) d0;
        Some (ucast q + b * ucast (n1 div d0))
      }
      else if n < d then Some 0
      else do {
        let d1 = (ucast (drop_bit 32 d) :: u32);
        let s = nlz d1;
        q \<leftarrow> divl (drop_bit 1 n) (ucast (drop_bit 32 (push_bit s d)));
        let q = (ucast (drop_bit (31 - s) q) :: u64);
        Some (if n - (q - 1) * d < d then q - 1 else q)
      })"

definition umod64 :: "u64 \<Rightarrow> u64 \<Rightarrow> u32 option" where
  "umod64 n d = do {
     q \<leftarrow> udiv64 n d;
     Some (ucast (n - d * q))
   }"

definition sdiv64 :: "64 word \<Rightarrow> 64 word \<Rightarrow> 64 word option" where
  "sdiv64 n d = do {
     let n_abs = (if 0 \<le> sint n then n else - n);
     let d_abs = (if 0 \<le> sint d then d else - d);
     q_abs \<leftarrow> udiv64 n_abs d_abs;
     Some (if (sint n < 0) = (sint d < 0) then q_abs else - q_abs)
   }"

definition smod64 :: "64 word \<Rightarrow> 64 word \<Rightarrow> 32 word option" where
  "smod64 n d = do {
     q \<leftarrow> sdiv64 n d;
     Some (ucast (n - d * q))
   }"

definition divdi3 :: "64 word \<Rightarrow> 64 word \<Rightarrow> 64 word option" where
  "divdi3 n d = sdiv64 n d"

definition moddi3 :: "64 word \<Rightarrow> 64 word \<Rightarrow> 64 word option" where
  "moddi3 n d = map_option scast (smod64 n d)"

definition udivdi3 :: "u64 \<Rightarrow> u64 \<Rightarrow> u64 option" where
  "udivdi3 n d = udiv64 n d"

definition umoddi3 :: "u64 \<Rightarrow> u64 \<Rightarrow> u64 option" where
  "umoddi3 n d = map_option ucast (umod64 n d)"

section \<open>Counting leading zeros\<close>

lemma unat_push_bit_small:
  fixes x :: "'a::len word"
  assumes "unat x * 2 ^ k < 2 ^ LENGTH('a)"
  shows "unat (push_bit k x) = unat x * 2 ^ k"
  unfolding unsigned_push_bit_eq using assms by (simp add: push_bit_eq_mult take_bit_nat_eq_self)

text \<open>One step of the search: a number of at most \<open>32 - k\<close> bits is moved up by \<open>k\<close>.\<close>

lemma nlz_step:
  fixes x y :: u32
  assumes "(if x \<le> lim then (n + k, push_bit k x) else (n, x)) = (n', y)"
    and "unat lim = 2 ^ (32 - k) - 1" "k < 32" "2 ^ j \<le> unat x" "32 \<le> k + k + j"
  shows "2 ^ (32 - k) \<le> unat y" "unat y = unat x * 2 ^ (n' - n)" "n \<le> n'" "n' \<le> n + k"
proof -
  have "2 ^ (32 - k) \<le> unat y \<and> unat y = unat x * 2 ^ (n' - n) \<and> n \<le> n' \<and> n' \<le> n + k"
  proof (cases "x \<le> lim")
    case True
    then have "unat x < 2 ^ (32 - k)"
      using assms(2) zero_less_power[of "2 :: nat" "32 - k"] unfolding word_le_nat_alt by linarith
    then have "unat x * 2 ^ k < 2 ^ (32 - k) * 2 ^ k"
      by simp
    then have "unat x * 2 ^ k < 2 ^ 32"
      using assms(3) by (simp add: power_add[symmetric])
    moreover have "(2::nat) ^ (32 - k) \<le> 2 ^ (j + k)"
      using assms(5) by (intro power_increasing) auto
    then have "(2::nat) ^ (32 - k) \<le> 2 ^ j * 2 ^ k"
      by (simp add: power_add)
    with assms(4) have "2 ^ (32 - k) \<le> unat x * 2 ^ k"
      by (meson le_trans mult_le_mono1)
    ultimately show ?thesis
      using True assms(1) by (auto simp: unat_push_bit_small)
  next
    case False
    then show ?thesis
      using assms(1,2) by (auto simp: word_le_nat_alt)
  qed
  then show "2 ^ (32 - k) \<le> unat y" "unat y = unat x * 2 ^ (n' - n)" "n \<le> n'" "n' \<le> n + k"
    by auto
qed

lemma nlz_normalizes:
  assumes "x \<noteq> 0"
  shows "nlz x \<le> 31" "2 ^ 31 \<le> unat x * 2 ^ nlz x" "unat x * 2 ^ nlz x < 2 ^ 32"
proof -
  obtain n1 x1 where 1: "(if x \<le> 0x0000FFFF then (0 + 16, push_bit 16 x) else (0 :: nat, x)) = (n1, x1)"
    by fastforce
  obtain n2 x2 where 2: "(if x1 \<le> 0x00FFFFFF then (n1 + 8, push_bit 8 x1) else (n1, x1)) = (n2, x2)"
    by fastforce
  obtain n3 x3 where 3: "(if x2 \<le> 0x0FFFFFFF then (n2 + 4, push_bit 4 x2) else (n2, x2)) = (n3, x3)"
    by fastforce
  obtain n4 x4 where 4: "(if x3 \<le> 0x3FFFFFFF then (n3 + 2, push_bit 2 x3) else (n3, x3)) = (n4, x4)"
    by fastforce
  have r: "nlz x = (if x4 \<le> 0x7FFFFFFF then n4 + 1 else n4)"
    using 1 2 3 4 by (simp add: nlz_def)
  have "2 ^ 0 \<le> unat x"
    using assms by (simp add: Suc_le_eq unat_gt_0)
  then have s1: "2 ^ 16 \<le> unat x1" "unat x1 = unat x * 2 ^ n1" "n1 \<le> 16"
    using nlz_step[OF 1, of 0] by simp_all
  then have s2: "2 ^ 24 \<le> unat x2" "unat x2 = unat x1 * 2 ^ (n2 - n1)" "n1 \<le> n2" "n2 \<le> n1 + 8"
    using nlz_step[OF 2, of 16] by simp_all
  then have s3: "2 ^ 28 \<le> unat x3" "unat x3 = unat x2 * 2 ^ (n3 - n2)" "n2 \<le> n3" "n3 \<le> n2 + 4"
    using nlz_step[OF 3, of 24] by simp_all
  then have s4: "2 ^ 30 \<le> unat x4" "unat x4 = unat x3 * 2 ^ (n4 - n3)" "n3 \<le> n4" "n4 \<le> n3 + 2"
    using nlz_step[OF 4, of 28] by simp_all
  have "unat x4 = unat x * 2 ^ (n1 + (n2 - n1) + (n3 - n2) + (n4 - n3))"
    using s1(2) s2(2) s3(2) s4(2) by (simp only: power_add mult.assoc)
  also have "n1 + (n2 - n1) + (n3 - n2) + (n4 - n3) = n4"
    using s2(3) s3(3) s4(3) by simp
  finally have x4: "unat x4 = unat x * 2 ^ n4" .
  show "nlz x \<le> 31"
    using r s1(3) s2(4) s3(4) s4(4) by (simp split: if_splits)
  show "2 ^ 31 \<le> unat x * 2 ^ nlz x"
    using r s4(1) x4 by (auto simp: word_le_nat_alt split: if_splits)
  have "unat x4 < 2 ^ LENGTH(32)"
    by (rule unsigned_less)
  then show "unat x * 2 ^ nlz x < 2 ^ 32"
    using r x4 by (auto simp: word_le_nat_alt split: if_splits)
qed


section \<open>The quotient estimate\<close>

text \<open>Dividing half of \<open>n\<close> by the 32 leading bits \<open>v\<close> of the normalised divisor estimates the quotient, never
  too low and at most one too high.\<close>

lemma quotient_estimate:
  fixes n d s v :: nat
  assumes n: "n < 2 ^ 64" and s: "s \<le> 31" and v: "v = d * 2 ^ s div 2 ^ 32" "2 ^ 31 \<le> v"
  defines "q \<equiv> n div 2 div v div 2 ^ (31 - s)"
  shows "n div d \<le> q" "q \<le> n div d + 1" "q < 2 ^ (s + 1)"
proof -
  define e where "e = (2::nat) ^ (32 - s)"
  define w where "w = v * e"
  have e: "e * 2 ^ s = 2 ^ 32" "0 < e" "e = 2 * 2 ^ (31 - s)"
    using s by (auto simp: e_def power_add[symmetric] power_Suc[symmetric] Suc_diff_le simp del: power_Suc)
  have q: "q = n div w"
    using e(3) by (simp add: q_def w_def div_mult2_eq[symmetric] ac_simps)
  have "v * 2 ^ 32 \<le> d * 2 ^ s"
    unfolding v(1) by (rule div_times_less_eq_dividend)
  then have "w * 2 ^ s \<le> d * 2 ^ s"
    using e(1) by (simp add: w_def mult.assoc)
  then have wd: "w \<le> d" by simp
  have "d * 2 ^ s < (v + 1) * 2 ^ 32"
    unfolding v(1) using dividend_less_div_times[of "2 ^ 32" "d * 2 ^ s"] by simp
  moreover have "(w + e) * 2 ^ s = (v + 1) * (e * 2 ^ s)"
    by (simp add: w_def algebra_simps)
  ultimately have "d * 2 ^ s < (w + e) * 2 ^ s"
    using e(1) by simp
  then have dw: "d \<le> w + (e - 1)" by simp
  have exps: "63 - s = 31 + (32 - s)" "64 = (s + 1) + (63 - s)" "33 = (s + 1) + (32 - s)"
    using s by simp_all
  have "2 ^ (63 - s) = 2 ^ 31 * e"
    unfolding exps(1) e_def by (rule power_add)
  also have "\<dots> \<le> w"
    using v(2) by (simp add: w_def)
  finally have w: "2 ^ (63 - s) \<le> w" .
  then have w0: "0 < w"
    by (meson less_le_trans zero_less_numeral zero_less_power)
  show "n div d \<le> q"
    unfolding q using wd w0 by (rule div_le_mono2[rotated])
  have "q * 2 ^ (63 - s) \<le> q * w"
    using w by simp
  also have "\<dots> \<le> n"
    unfolding q by (rule div_times_less_eq_dividend)
  also have "\<dots> < 2 ^ (s + 1) * 2 ^ (63 - s)"
    using n unfolding exps(2) power_add .
  finally show qs: "q < 2 ^ (s + 1)"
    by simp
  have small: "(q - 1) * (e - 1) \<le> w"
  proof (cases "s = 31")
    case True
    then show ?thesis using qs w by (simp add: e_def)
  next
    case False
    have "(q - 1) * (e - 1) \<le> q * e"
      by (intro mult_mono) auto
    also have "\<dots> \<le> 2 ^ (s + 1) * e"
      using qs by simp
    also have "\<dots> = 2 ^ 33"
      unfolding e_def by (simp only: exps(3) power_add)
    also have "\<dots> \<le> 2 ^ (63 - s)"
      using s False by (intro power_increasing) auto
    finally show ?thesis using w by simp
  qed
  have "(q - 1) * d \<le> n" if "q \<noteq> 0"
  proof -
    have "(q - 1) * d \<le> (q - 1) * (w + (e - 1))"
      using dw by (rule mult_le_mono2)
    also have "\<dots> \<le> (q - 1) * w + w"
      using small by (simp add: algebra_simps)
    also have "\<dots> = q * w"
      using that by (cases q) auto
    also have "\<dots> \<le> n"
      unfolding q by (rule div_times_less_eq_dividend)
    finally show ?thesis .
  qed
  then show "q \<le> n div d + 1"
    using wd w0 less_eq_div_iff_mult_less_eq[of d "q - 1" n] by (cases "q = 0") auto
qed


section \<open>Unsigned division\<close>

lemma unat_drop_bit: "unat (drop_bit k x) = unat x div 2 ^ k"
  unfolding unsigned_drop_bit_eq by (simp add: drop_bit_eq_div take_bit_nat_eq_self)

lemma unat_ucast_mod: "unat (ucast x :: 'b::len word) = unat x mod 2 ^ LENGTH('b)"
  by (simp add: unsigned_ucast_eq take_bit_eq_mod)

lemma drop_bit_32_zero: "drop_bit 32 d = 0 \<longleftrightarrow> unat d < 2 ^ 32" for d :: u64
  by (simp add: unat_eq_zero[symmetric] unat_drop_bit div_eq_0_iff del: unat_eq_zero)

lemma divl_eq:
  assumes "0 < d" "unat n div unat d < 2 ^ 32"
  shows "\<exists>q. divl n d = Some q \<and> unat q = unat n div unat d"
proof -
  have "unat (ucast d :: u64) = unat d"
    using unsigned_less[of d, where ?'a = nat] by (simp add: unat_ucast_mod)
  then have "unat (ucast (n div ucast d) :: u32) = unat n div unat d"
    using assms by (simp add: unat_ucast_mod unat_div)
  then show ?thesis
    using assms by (auto simp: divl_def)
qed

lemma split_quotient:
  fixes b n1 n0 d :: nat
  assumes "0 < d"
  shows "(b * n1 + n0) div d = (b * (n1 mod d) + n0) div d + b * (n1 div d)"
proof -
  have "b * n1 = b * (n1 div d * d + n1 mod d)"
    by simp
  also have "\<dots> = b * (n1 mod d) + b * (n1 div d) * d"
    by (simp only: distrib_left mult.assoc add.commute)
  finally have eq: "b * n1 + n0 = b * (n1 mod d) + n0 + b * (n1 div d) * d"
    by simp
  have "(b * (n1 mod d) + n0 + b * (n1 div d) * d) div d = b * (n1 div d) + (b * (n1 mod d) + n0) div d"
    using assms by (intro div_mult_self1) simp
  then show ?thesis
    unfolding eq by (simp only: add.commute)
qed

lemma udiv64_short:
  fixes n d :: u64
  assumes "0 < d" "unat d < 2 ^ 32"
  shows "udiv64 n d = Some (n div d)"
proof -
  define n1 where "n1 = (ucast (drop_bit 32 n) :: u32)"
  define n0 where "n0 = (ucast n :: u32)"
  define d0 where "d0 = (ucast d :: u32)"
  define b where "b = (push_bit 32 1 :: u64)"
  define x where "x = b * ucast (n1 mod d0) + ucast n0"
  have n: "unat n1 = unat n div 2 ^ 32" "unat n0 = unat n mod 2 ^ 32" and d: "unat d0 = unat d"
    using assms unsigned_less[of n, where ?'a = nat]
    by (simp_all add: n1_def n0_def d0_def unat_ucast_mod unat_drop_bit less_mult_imp_div_less)
  have d_pos: "0 < unat d" "0 < d0"
    using assms(1) d by (simp_all add: unat_gt_0 word_less_nat_alt)
  have b: "unat b = 2 ^ 32"
    by (simp add: b_def)
  have up: "unat (ucast y :: u64) = unat y" for y :: u32
    using unsigned_less[of y, where ?'a = nat] by (simp add: unat_ucast_mod)
  have "2 ^ 32 * (unat n1 mod unat d + 1) \<le> 2 ^ 32 * unat d"
    using mod_less_divisor[OF d_pos(1), of "unat n1"] by (intro mult_le_mono2) simp
  then have lt: "2 ^ 32 * (unat n1 mod unat d) + unat n mod 2 ^ 32 < 2 ^ 32 * unat d"
    using mod_less_divisor[of "2 ^ 32" "unat n"] by (simp add: algebra_simps)
  have x: "unat x = 2 ^ 32 * (unat n1 mod unat d) + unat n mod 2 ^ 32"
    using lt assms(2) by (simp add: x_def unat_word_ariths b up unat_mod d n(2))
  have "unat x div unat d < 2 ^ 32"
    using lt x d_pos by (simp add: less_mult_imp_div_less)
  then obtain q where q: "divl x d0 = Some q" "unat q = unat x div unat d"
    using divl_eq[of d0 x] d d_pos by auto
  have "unat n = 2 ^ 32 * unat n1 + unat n mod 2 ^ 32"
    unfolding n(1) by (simp only: mult_div_mod_eq)
  then have "unat n div unat d = unat x div unat d + 2 ^ 32 * (unat n1 div unat d)"
    unfolding x using split_quotient[OF d_pos(1), of "2 ^ 32" "unat n1" "unat n mod 2 ^ 32"] by (simp only:)
  moreover have "unat n div unat d < 2 ^ 64"
    using unsigned_less[of n, where ?'a = nat] le_less_trans[OF div_le_dividend] by simp
  ultimately have "unat (ucast q + b * ucast (n1 div d0)) = unat n div unat d"
    by (simp add: unat_word_ariths b up q(2) unat_div d)
  then have "ucast q + b * ucast (n1 div d0) = n div d"
    by (simp add: word_unat_eq_iff unat_div)
  then show ?thesis
    using assms(2) q(1)
    by (simp add: udiv64_def drop_bit_32_zero Let_def n1_def n0_def d0_def b_def x_def)
qed


lemma correct_estimate:
  fixes n d q :: nat
  assumes "n div d \<le> q" "q \<le> n div d + 1" "d \<le> n" "0 < d"
  shows "(q - 1) * d \<le> n" "(if n - (q - 1) * d < d then q - 1 else q) = n div d"
proof -
  have Q: "1 \<le> n div d"
    using assms(3,4) div_le_mono[of d n d] by simp
  have n: "n div d * d + n mod d = n" "n mod d < d"
    using assms(4) by simp_all
  have "(q - 1) * d \<le> n \<and> (if n - (q - 1) * d < d then q - 1 else q) = n div d"
  proof (cases "q = n div d")
    case True
    have "n - (n div d - 1) * d = d + n mod d"
    proof -
      have "n div d * d = (n div d - 1) * d + d"
        using Q by (metis Suc_eq_plus1 Suc_pred' add.commute less_eq_Suc_le mult_Suc One_nat_def)
      then show ?thesis using n(1) by linarith
    qed
    then show ?thesis using True assms(4) diff_le_self[of "n div d" 1] n(1)
      by (metis add_leD1 diff_is_0_eq' le_add1 mult_le_mono1 nat_le_linear not_add_less1 order_trans)
  next
    case False
    then have "q = n div d + 1" using assms(1,2) by simp
    then show ?thesis using n by (simp add: minus_div_mult_eq_mod)
  qed
  then show "(q - 1) * d \<le> n" "(if n - (q - 1) * d < d then q - 1 else q) = n div d"
    by auto
qed

text \<open>The 32 leading bits of the normalised divisor.\<close>

lemma normalized_divisor:
  fixes d :: u64
  assumes "2 ^ 32 \<le> unat d"
  defines "s \<equiv> nlz (ucast (drop_bit 32 d))"
  defines "v \<equiv> (ucast (drop_bit 32 (push_bit s d)) :: u32)"
  shows "s \<le> 31" "unat v = unat d * 2 ^ s div 2 ^ 32" "2 ^ 31 \<le> unat v"
proof -
  define d1 where "d1 = (ucast (drop_bit 32 d) :: u32)"
  have d1: "unat d1 = unat d div 2 ^ 32"
    using unsigned_less[of d, where ?'a = nat] by (simp add: d1_def unat_ucast_mod unat_drop_bit less_mult_imp_div_less)
  then have "1 \<le> unat d1"
    using assms(1) div_le_mono[of "2 ^ 32" "unat d" "2 ^ 32"] by simp
  then have "d1 \<noteq> 0" by auto
  note norm = nlz_normalizes[OF this]
  have s: "s = nlz d1" by (simp add: s_def d1_def)
  show s31: "s \<le> 31" using norm(1) s by simp
  define e where "e = (2::nat) ^ (32 - s)"
  have e: "e * 2 ^ s = 2 ^ 32"
    using s31 by (simp add: e_def power_add[symmetric])
  have "unat d1 * 2 ^ s < e * 2 ^ s"
    using norm(3)[folded s] by (simp only: e)
  then have "unat d1 + 1 \<le> e" by simp
  then have "(unat d1 + 1) * 2 ^ 32 \<le> e * 2 ^ 32" by simp
  moreover have "unat d < (unat d1 + 1) * 2 ^ 32"
    unfolding d1 using dividend_less_div_times[of "2 ^ 32" "unat d"] by simp
  ultimately have "unat d < e * 2 ^ 32" by linarith
  then have "unat d * 2 ^ s < e * 2 ^ 32 * 2 ^ s" by simp
  also have "\<dots> = e * 2 ^ s * 2 ^ 32" by simp
  also have "\<dots> = 2 ^ 64" by (simp add: e)
  finally have lt: "unat d * 2 ^ s < 2 ^ 64" .
  then have "unat (push_bit s d) = unat d * 2 ^ s"
    by (intro unat_push_bit_small) simp
  moreover have "unat d * 2 ^ s div 2 ^ 32 < 2 ^ 32"
    using lt by (intro less_mult_imp_div_less) simp
  ultimately show v: "unat v = unat d * 2 ^ s div 2 ^ 32"
    by (simp add: v_def unat_ucast_mod unat_drop_bit)
  have "2 ^ 31 * 2 ^ 32 \<le> unat d1 * 2 ^ s * 2 ^ 32"
    using norm(2) by (simp add: s)
  also have "\<dots> = unat d1 * 2 ^ 32 * 2 ^ s" by simp
  also have "\<dots> \<le> unat d * 2 ^ s"
    unfolding d1 by (intro mult_le_mono1 div_times_less_eq_dividend)
  finally have "2 ^ 31 * 2 ^ 32 div 2 ^ 32 \<le> unat d * 2 ^ s div 2 ^ 32"
    by (rule div_le_mono)
  then show "2 ^ 31 \<le> unat v"
    by (simp add: v)
qed

lemma udiv64_long:
  fixes n d :: u64
  assumes "2 ^ 32 \<le> unat d"
  shows "udiv64 n d = Some (n div d)"
proof (cases "n < d")
  case True
  then have "n div d = 0"
    by (simp add: word_unat_eq_iff unat_div word_less_nat_alt)
  then show ?thesis
    using True assms by (simp add: udiv64_def drop_bit_32_zero)
next
  case False
  define s where "s = nlz (ucast (drop_bit 32 d))"
  define v where "v = (ucast (drop_bit 32 (push_bit s d)) :: u32)"
  note norm = normalized_divisor[OF assms, folded s_def, folded v_def]
  have n: "unat n < 2 ^ 64" "unat d \<le> unat n" "0 < unat d"
    using unsigned_less[of n, where ?'a = nat] False assms by (simp_all add: word_less_nat_alt)
  have "unat n div 2 < 2 ^ 32 * 2 ^ 31"
    using n(1) by simp
  also have "\<dots> \<le> 2 ^ 32 * unat v"
    using norm(3) by simp
  finally have "unat (drop_bit 1 n) div unat v < 2 ^ 32"
    by (simp add: unat_drop_bit less_mult_imp_div_less)
  moreover have "0 < v"
    using norm(3) by (simp add: word_less_nat_alt)
  ultimately obtain q0 where q0: "divl (drop_bit 1 n) v = Some q0" "unat q0 = unat n div 2 div unat v"
    using divl_eq[of v "drop_bit 1 n"] by (auto simp: unat_drop_bit)
  define q where "q = (ucast (drop_bit (31 - s) q0) :: u64)"
  have q: "unat q = unat n div 2 div unat v div 2 ^ (31 - s)"
    using unsigned_less[of q0, where ?'a = nat] le_less_trans[OF div_le_dividend, of "unat q0" "2 ^ 64" "2 ^ (31 - s)"]
    by (simp add: q_def unat_ucast_mod unat_drop_bit q0(2))
  have est: "unat n div unat d \<le> unat q" "unat q \<le> unat n div unat d + 1"
    using quotient_estimate[OF n(1) norm(1-3)] by (simp_all only: q)
  note fin = correct_estimate[OF est n(2,3)]
  have "1 \<le> unat n div unat d"
    using n(2,3) div_le_mono[of "unat d" "unat n" "unat d"] by simp
  then have q1: "unat (q - 1) = unat q - 1"
    using est(1) by (simp add: unat_sub_if')
  then have "unat ((q - 1) * d) = (unat q - 1) * unat d"
    using fin(1) n(1) by (simp add: unat_word_ariths)
  then have "unat (n - (q - 1) * d) = unat n - (unat q - 1) * unat d"
    using fin(1) by (simp add: unat_sub_if')
  then have "unat (if n - (q - 1) * d < d then q - 1 else q) = unat n div unat d"
    using fin(2) q1 by (simp add: word_less_nat_alt split: if_splits)
  then have "(if n - (q - 1) * d < d then q - 1 else q) = n div d"
    by (simp only: word_unat_eq_iff unat_div)
  then show ?thesis
    using False assms q0(1) by (simp add: udiv64_def drop_bit_32_zero Let_def s_def[symmetric] v_def[symmetric] q_def[symmetric]
        split: if_splits)
qed


lemma udiv64_div: "udiv64 n d = (if d = 0 then None else Some (n div d))"
proof (cases "d = 0")
  case True
  then show ?thesis by (simp add: udiv64_def divl_def)
next
  case False
  then show ?thesis
    using udiv64_short[of d n] udiv64_long[of d n] by (cases "unat d < 2 ^ 32") (auto simp: word_gt_0)
qed

section \<open>Signed division\<close>

lemma uint_word_abs:
  fixes n :: "'a::len word"
  shows "uint (if 0 \<le> sint n then n else - n) = \<bar>sint n\<bar>"
proof -
  have "(2::int) ^ (LENGTH('a) - 1) < 2 ^ LENGTH('a)"
    by (intro power_strict_increasing) simp_all
  moreover have "- (2 ^ (LENGTH('a) - 1)) \<le> sint n" "sint n < 2 ^ (LENGTH('a) - 1)"
    using sint_greater_eq[of n] sint_less[of n] by simp_all
  ultimately have "\<bar>sint n\<bar> < 2 ^ LENGTH('a)"
    by linarith
  then have "take_bit LENGTH('a) \<bar>sint n\<bar> = \<bar>sint n\<bar>"
    by (intro take_bit_int_eq_self) auto
  moreover have "(if 0 \<le> sint n then n else - n) = word_of_int \<bar>sint n\<bar>"
    by simp
  ultimately show ?thesis
    by (simp only: uint_word_of_int_eq)
qed

lemma sdiv64_sdiv: "sdiv64 n d = (if d = 0 then None else Some (word_of_int (sint n sdiv sint d)))"
proof (cases "d = 0")
  case True
  then show ?thesis by (simp add: sdiv64_def udiv64_div)
next
  case False
  define n_abs where "n_abs = (if 0 \<le> sint n then n else - n)"
  define d_abs where "d_abs = (if 0 \<le> sint d then d else - d)"
  have "d_abs \<noteq> 0" using False by (simp add: d_abs_def)
  then have "sdiv64 n d = Some (if (sint n < 0) = (sint d < 0) then n_abs div d_abs else - (n_abs div d_abs))"
    by (simp add: sdiv64_def udiv64_div Let_def n_abs_def[symmetric] d_abs_def[symmetric])
  moreover have "n_abs div d_abs = word_of_int (\<bar>sint n\<bar> div \<bar>sint d\<bar>)"
    using uint_word_abs[of n] uint_word_abs[of d]
    by (simp add: n_abs_def[symmetric] d_abs_def[symmetric] word_div_def)
  ultimately show ?thesis
    using False by (auto simp: signed_divide_int_def sgn_if)
qed


lemma ucast_word_of_int: "(ucast (word_of_int k :: 64 word) :: 32 word) = word_of_int k"
  by (simp add: unsigned_of_int word_of_int_eq_iff take_bit_take_bit)

lemma smod64_smod: "smod64 n d = (if d = 0 then None else Some (word_of_int (sint n smod sint d)))"
proof (cases "d = 0")
  case True
  then show ?thesis by (simp add: smod64_def sdiv64_sdiv)
next
  case False
  have "sint n smod sint d = sint n - sint d * (sint n sdiv sint d)"
    by (simp only: minus_mult_sdiv_eq_smod)
  then have "n - d * word_of_int (sint n sdiv sint d) = word_of_int (sint n smod sint d)"
    by simp
  then have "(ucast (n - d * word_of_int (sint n sdiv sint d)) :: 32 word) = word_of_int (sint n smod sint d)"
    by (simp only: ucast_word_of_int)
  then show ?thesis
    using False by (simp add: smod64_def sdiv64_sdiv)
qed

lemma ucast_u32_back: "(ucast (ucast x :: u32) :: u64) = x \<longleftrightarrow> unat x < 2 ^ 32" for x :: u64
proof -
  have "unat x < 2 ^ LENGTH(64)" by (rule unsigned_less)
  then have "unat (ucast (ucast x :: u32) :: u64) = unat x mod 2 ^ 32"
    by (simp add: unat_ucast_mod)
  then show ?thesis
    unfolding word_unat_eq_iff[of _ x] by (metis mod_less mod_less_divisor zero_less_numeral zero_less_power)
qed

lemma umoddi3_ucast: "d \<noteq> 0 \<Longrightarrow> umoddi3 n d = Some (ucast (ucast (n mod d) :: u32))"
  by (simp add: umoddi3_def umod64_def udiv64_div minus_mult_div_eq_mod)

lemma smod_range_64:
  assumes "d \<noteq> (0 :: 64 word)"
  shows "- (2 ^ 63) \<le> a smod sint d \<and> a smod sint d < 2 ^ 63"
proof -
  have "sint d \<noteq> sint (0 :: 64 word)"
    using assms signed_word_eqI by blast
  then have "sint d \<noteq> 0"
    by simp
  then have "\<bar>a smod sint d\<bar> < \<bar>sint d\<bar>"
    using smod_int_range[of "sint d" a] by auto
  moreover have "- (2 ^ 63) \<le> sint d" "sint d < 2 ^ 63"
    using sint_greater_eq[of d] sint_less[of d] by simp_all
  then have "\<bar>sint d\<bar> \<le> 2 ^ 63"
    by arith
  ultimately show ?thesis
    by arith
qed

lemma scast_s32_back:
  assumes "- (2 ^ 63) \<le> r" "r < 2 ^ 63"
  shows "(scast (word_of_int r :: 32 word) :: 64 word) = word_of_int r \<longleftrightarrow> - (2 ^ 31) \<le> r \<and> r < 2 ^ 31"
proof -
  define t where "t = sint (word_of_int r :: 32 word)"
  have "- (2 ^ 31) \<le> t" "t < 2 ^ 31"
    unfolding t_def using sint_greater_eq[of "word_of_int r :: 32 word"] sint_less[of "word_of_int r :: 32 word"]
    by simp_all
  then have "sint (word_of_int t :: 64 word) = t"
    by (intro sint_of_int_small) simp_all
  moreover have "sint (word_of_int r :: 64 word) = r"
    using assms by (intro sint_of_int_small) simp_all
  ultimately have "(word_of_int t :: 64 word) = word_of_int r \<longleftrightarrow> t = r"
    by metis
  moreover have "t = r \<longleftrightarrow> - (2 ^ 31) \<le> r \<and> r < 2 ^ 31"
    unfolding t_def by (simp add: signed_of_int signed_take_bit_int_eq_self_iff)
  moreover have "(scast (word_of_int r :: 32 word) :: 64 word) = word_of_int t"
    by (simp add: t_def)
  ultimately show ?thesis by simp
qed

section \<open>Properties\<close>

text \<open>C14: the routine for unsigned 64-bit division returns the exact quotient for every pair of operands and
  traps exactly when the divisor is zero: neither 32-bit division it is built from ever overflows.\<close>

theorem udivdi3_exact: "udivdi3 n d = (if d = 0 then None else Some (n div d))"
  by (simp add: udivdi3_def udiv64_div)

text \<open>C35: the routine for signed 64-bit division returns the quotient rounded towards zero, reduced modulo
  two to the 64, and traps exactly when the divisor is zero.\<close>

theorem divdi3_exact: "divdi3 n d = (if d = 0 then None else Some (word_of_int (sint n sdiv sint d)))"
  by (simp add: divdi3_def sdiv64_sdiv)

text \<open>C36: the remainder routines are right exactly when the remainder fits in 32 bits, because the helper
  functions return 32-bit integers.\<close>

theorem remainder_exact_iff_fits:
  assumes "d \<noteq> 0"
  shows "(umoddi3 n d = Some (n mod d) \<longleftrightarrow> unat (n mod d) < 2 ^ 32) \<and>
         (moddi3 m d = Some (word_of_int (sint m smod sint d)) \<longleftrightarrow> 
            - (2 ^ 31) \<le> sint m smod sint d \<and> sint m smod sint d < 2 ^ 31)"
  using assms ucast_u32_back[of "n mod d"] scast_s32_back[of "sint m smod sint d"] smod_range_64[OF assms, of "sint m"]
  by (simp only: umoddi3_ucast[OF assms] moddi3_def smod64_smod option.map option.inject if_False)

theorem remainder_exact_iff_fits_witness:
  "umoddi3 0x1FFFFFFFF 0x200000000 \<noteq> Some (0x1FFFFFFFF mod 0x200000000)"
proof -
  have "(0x200000000 :: u64) \<noteq> 0"
    by simp
  moreover have "\<not> unat (0x1FFFFFFFF mod 0x200000000 :: u64) < 2 ^ 32"
    by (simp add: unat_mod)
  ultimately show ?thesis
    using remainder_exact_iff_fits[of "0x200000000" "0x1FFFFFFFF" 0] by blast
qed

end
