(* ===== verification/Kstdlib.thy ===== *)
theory Kstdlib
  imports Kstring "HOL-Library.Multiset"
begin

text \<open>
  The character classes of \<open>lib/ctype.h\<close> and the functions of \<open>lib/stdlib.c\<close>: conversion of decimal numbers,
  heap sort and binary search. Arrays live in the byte memory of the string functions; an element of an array
  is the list of its bytes, and a comparison function is a function of the bytes of two elements. Element
  indexes are one-based as in the source, and natural numbers: for fewer than \<open>2 ^ 31\<close> elements, twice an index does
  not wrap around in a \<open>size_t\<close>.
\<close>

section \<open>Character classes\<close>

definition islower :: "int \<Rightarrow> bool" where
  "islower c \<longleftrightarrow> c \<ge> 97 \<and> c \<le> 122"

definition isupper :: "int \<Rightarrow> bool" where
  "isupper c \<longleftrightarrow> c \<ge> 65 \<and> c \<le> 90"

definition isalpha :: "int \<Rightarrow> bool" where
  "isalpha c \<longleftrightarrow> islower c \<or> isupper c"

definition isdigit :: "int \<Rightarrow> bool" where
  "isdigit c \<longleftrightarrow> c \<ge> 48 \<and> c \<le> 57"

definition isalnum :: "int \<Rightarrow> bool" where
  "isalnum c \<longleftrightarrow> isalpha c \<or> isdigit c"

definition isxdigit :: "int \<Rightarrow> bool" where
  "isxdigit c \<longleftrightarrow> isdigit c \<or> (c \<ge> 97 \<and> c \<le> 102) \<or> (c \<ge> 65 \<and> c \<le> 70)"

definition isspace :: "int \<Rightarrow> bool" where
  "isspace c \<longleftrightarrow> c = 32 \<or> c = 12 \<or> c = 10 \<or> c = 13 \<or> c = 9 \<or> c = 11"

definition isblank :: "int \<Rightarrow> bool" where
  "isblank c \<longleftrightarrow> c = 32 \<or> c = 9"

definition isgraph :: "int \<Rightarrow> bool" where
  "isgraph c \<longleftrightarrow> c > 32 \<and> c < 127"

definition isprint :: "int \<Rightarrow> bool" where
  "isprint c \<longleftrightarrow> c \<ge> 32 \<and> c < 127"

definition iscntrl :: "int \<Rightarrow> bool" where
  "iscntrl c \<longleftrightarrow> (c \<ge> 0 \<and> c < 32) \<or> c = 127"

definition isascii :: "int \<Rightarrow> bool" where
  "isascii c \<longleftrightarrow> c \<ge> 0 \<and> c < 128"

definition ispunct :: "int \<Rightarrow> bool" where
  "ispunct c \<longleftrightarrow> isprint c \<and> \<not> isalnum c \<and> \<not> isspace c"

definition tolower :: "int \<Rightarrow> int" where
  "tolower c = (if isupper c then c - 65 + 97 else c)"

definition toupper :: "int \<Rightarrow> int" where
  "toupper c = (if islower c then c - 97 + 65 else c)"

section \<open>Decimal numbers\<close>

partial_function (option) atoi_space :: "mem \<Rightarrow> ptr \<Rightarrow> ptr option" where
  "atoi_space m s = (if isspace (uint (m s)) then atoi_space m (s + 1) else Some s)"

partial_function (option) atoi_digits :: "mem \<Rightarrow> ptr \<Rightarrow> 32 word \<Rightarrow> 32 word option" where
  "atoi_digits m s val =
     (if isdigit (sint (m s)) then atoi_digits m (s + 1) (val * 10 - (scast (m s) - 48)) else Some val)"

definition atoi :: "mem \<Rightarrow> ptr \<Rightarrow> 32 word option" where
  "atoi m s = do {
     ASSERT (s \<noteq> NULL);
     s \<leftarrow> atoi_space m s;
     let negative = (m s = 45);
     let s = (if m s = 43 \<or> m s = 45 then s + 1 else s);
     val \<leftarrow> atoi_digits m s 0;
     Some (if \<not> negative then - val else val)
   }"

declare atoi_space.simps [code] atoi_digits.simps [code]

section \<open>Heap sort\<close>

type_synonym cmp = "u8 list \<Rightarrow> u8 list \<Rightarrow> int"

text \<open>The bytes of the element with one-based index \<open>i\<close>.\<close>

definition elt :: "mem \<Rightarrow> ptr \<Rightarrow> nat \<Rightarrow> nat \<Rightarrow> u8 list" where
  "elt m array sz i = map (\<lambda>k. m (array + (i - 1) * sz + k)) [0..<sz]"

primrec swap_loop :: "nat \<Rightarrow> mem \<Rightarrow> ptr \<Rightarrow> ptr \<Rightarrow> mem" where
  "swap_loop 0 m a b = m"
| "swap_loop (Suc n) m a b = swap_loop n (m(a := m b, b := m a)) (a + 1) (b + 1)"

definition do_swap :: "mem \<Rightarrow> ptr \<Rightarrow> nat \<Rightarrow> nat \<Rightarrow> nat \<Rightarrow> mem" where
  "do_swap m array a_idx b_idx sz =
     (let a = array + (a_idx - 1) * sz;
          b = array + (b_idx - 1) * sz
      in swap_loop sz m a b)"

definition do_compare :: "mem \<Rightarrow> ptr \<Rightarrow> nat \<Rightarrow> nat \<Rightarrow> nat \<Rightarrow> cmp \<Rightarrow> int" where
  "do_compare m array a_idx b_idx sz compare = compare (elt m array sz a_idx) (elt m array sz b_idx)"

text \<open>The index of the largest element among \<open>i\<close> and its children, as one round of \<open>heapify\<close> computes it.\<close>

definition heapify_max :: "mem \<Rightarrow> ptr \<Rightarrow> nat \<Rightarrow> nat \<Rightarrow> nat \<Rightarrow> cmp \<Rightarrow> nat" where
  "heapify_max m array i cnt sz compare =
     (let left = 2 * i;
          right = 2 * i + 1;
          max = i;
          max = (if left \<le> cnt \<and> do_compare m array left max sz compare > 0 then left else max)
      in if right \<le> cnt \<and> do_compare m array right max sz compare > 0 then right else max)"

lemma heapify_max_cases:
  "heapify_max m array i cnt sz compare \<noteq> i \<Longrightarrow>
   i < heapify_max m array i cnt sz compare \<and> heapify_max m array i cnt sz compare \<le> cnt"
  by (auto simp: heapify_max_def Let_def split: if_splits)

function heapify :: "mem \<Rightarrow> ptr \<Rightarrow> nat \<Rightarrow> nat \<Rightarrow> nat \<Rightarrow> cmp \<Rightarrow> mem" where
  "heapify m array i cnt sz compare =
     (let max = heapify_max m array i cnt sz compare
      in if max = i then m else heapify (do_swap m array i max sz) array max cnt sz compare)"
  by auto
termination
proof (relation "measure (\<lambda>(m, array, i, cnt, sz, compare). cnt - i)", goal_cases)
  case 1
  show ?case by simp
next
  case (2 m array i cnt sz compare max)
  then show ?case using heapify_max_cases[of m array i cnt sz compare] by auto
qed

declare heapify.simps [simp del]

primrec sort_build :: "nat \<Rightarrow> mem \<Rightarrow> ptr \<Rightarrow> nat \<Rightarrow> nat \<Rightarrow> cmp \<Rightarrow> mem" where
  "sort_build 0 m array cnt sz compare = m"
| "sort_build (Suc i) m array cnt sz compare =
     sort_build i (heapify m array (Suc i) cnt sz compare) array cnt sz compare"

fun sort_drain :: "nat \<Rightarrow> mem \<Rightarrow> ptr \<Rightarrow> nat \<Rightarrow> cmp \<Rightarrow> mem" where
  "sort_drain (Suc (Suc i)) m array sz compare =
     sort_drain (Suc i) (heapify (do_swap m array 1 (Suc (Suc i)) sz) array 1 (Suc i) sz compare) array sz compare"
| "sort_drain _ m array sz compare = m"

text \<open>The sort routine of the library; the comparison function is never the null pointer in the model.\<close>

definition sort_array :: "mem \<Rightarrow> ptr \<Rightarrow> nat \<Rightarrow> nat \<Rightarrow> cmp \<Rightarrow> mem option" where
  "sort_array m array cnt sz compare = do {
     ASSERT (array \<noteq> NULL \<or> cnt = 0);
     ASSERT (sz > 0);
     Some (sort_drain cnt (sort_build (cnt div 2) m array cnt sz compare) array sz compare)
   }"

definition compare_thunk :: "u8 list \<Rightarrow> u8 list \<Rightarrow> cmp \<Rightarrow> int" where
  "compare_thunk a b aux = aux a b"

definition qsort :: "mem \<Rightarrow> ptr \<Rightarrow> nat \<Rightarrow> nat \<Rightarrow> cmp \<Rightarrow> mem option" where
  "qsort m array cnt sz compare = sort_array m array cnt sz (\<lambda>a b. compare_thunk a b compare)"

section \<open>Binary search\<close>

function binary_search_loop :: "mem \<Rightarrow> u8 list \<Rightarrow> ptr \<Rightarrow> ptr \<Rightarrow> nat \<Rightarrow> cmp \<Rightarrow> ptr option" where
  "binary_search_loop m key first lst sz compare =
     (if first < lst then
        if sz = 0 then None
        else
          let range = (lst - first) div sz;
              middle = first + (range div 2) * sz;
              c = compare key (map (\<lambda>k. m (middle + k)) [0..<sz])
          in if c < 0 then binary_search_loop m key first middle sz compare
             else if c > 0 then binary_search_loop m key (middle + sz) lst sz compare
             else Some middle
      else Some NULL)"
  by auto
termination
proof (relation "measure (\<lambda>(m, key, first, lst, sz, compare). lst - first)", goal_cases)
  case 1
  show ?case by simp
next
  case (2 m key first lst sz compare range middle c)
  have "range div 2 * sz \<le> range * sz div 2"
    by (metis div_mult_self1_is_m div_le_mono div_times_less_eq_dividend mult.assoc mult.commute mult_le_mono1 zero_less_numeral)
  also have "\<dots> \<le> (lst - first) div 2"
    using 2 by (intro div_le_mono) (simp add: div_times_less_eq_dividend)
  also have "\<dots> < lst - first"
    using 2(1) by auto
  finally show ?case using 2 by auto
next
  case (3 m key first lst sz compare range middle c)
  then have "first < middle + sz" by simp
  then show ?case using 3(1) by (auto intro: diff_less_mono2)
qed

declare binary_search_loop.simps [simp del]

definition binary_search :: "mem \<Rightarrow> u8 list \<Rightarrow> ptr \<Rightarrow> nat \<Rightarrow> nat \<Rightarrow> cmp \<Rightarrow> ptr option" where
  "binary_search m key array cnt sz compare = binary_search_loop m key array (array + sz * cnt) sz compare"

definition bsearch :: "mem \<Rightarrow> u8 list \<Rightarrow> ptr \<Rightarrow> nat \<Rightarrow> nat \<Rightarrow> cmp \<Rightarrow> ptr option" where
  "bsearch m key array cnt sz compare = binary_search m key array cnt sz (\<lambda>a b. compare_thunk a b compare)"


section \<open>Swapping elements\<close>

lemma swap_loop_apply:
  "a + n \<le> b \<or> b + n \<le> a \<Longrightarrow>
   swap_loop n m a b x = (if a \<le> x \<and> x < a + n then m (b + (x - a))
                          else if b \<le> x \<and> x < b + n then m (a + (x - b)) else m x)"
proof (induction n arbitrary: m a b)
  case 0
  then show ?case by auto
next
  case (Suc n)
  define m' where "m' = m(a := m b, b := m a)"
  have *: "swap_loop (Suc n) m a b x = (if a + 1 \<le> x \<and> x < a + 1 + n then m' (b + 1 + (x - (a + 1)))
      else if b + 1 \<le> x \<and> x < b + 1 + n then m' (a + 1 + (x - (b + 1))) else m' x)"
  proof -
    have "a + 1 + n \<le> b + 1 \<or> b + 1 + n \<le> a + 1"
      using Suc.prems by auto
    then show ?thesis
      unfolding swap_loop.simps m'_def[symmetric] by (rule Suc.IH)
  qed
  have m': "m' y = m y" if "y \<noteq> a" "y \<noteq> b" for y
    using that by (simp add: m'_def)
  have ab: "m' a = m b" "m' b = m a" "a \<noteq> b"
    using Suc.prems by (auto simp: m'_def)
  consider (a) "x = a" | (b) "x = b" | (up_a) "a < x" "x < a + Suc n" | (up_b) "b < x" "x < b + Suc n"
    | (out) "x \<noteq> a" "x \<noteq> b" "\<not> (a \<le> x \<and> x < a + Suc n)" "\<not> (b \<le> x \<and> x < b + Suc n)"
    by linarith
  then show ?case
  proof cases
    case a
    then show ?thesis unfolding * using ab Suc.prems by auto
  next
    case b
    then show ?thesis unfolding * using ab Suc.prems by auto
  next
    case up_a
    then have "b + 1 + (x - (a + 1)) = b + (x - a)" "b + (x - a) \<noteq> a" "b + (x - a) \<noteq> b"
      using Suc.prems by auto
    then show ?thesis unfolding * using up_a m' by simp
  next
    case up_b
    then have "a + 1 + (x - (b + 1)) = a + (x - b)" "a + (x - b) \<noteq> a" "a + (x - b) \<noteq> b"
      "\<not> (a \<le> x \<and> x < a + Suc n)"
      using Suc.prems by auto
    then show ?thesis unfolding * using up_b m' by auto
  next
    case out
    then show ?thesis unfolding * using m' by auto
  qed
qed

lemma swap_loop_same: "swap_loop n m a a = m"
  by (induction n arbitrary: a) auto

lemma index_block: "i < j \<Longrightarrow> i * sz + sz \<le> j * (sz::nat)"
  by (metis Suc_leI add.commute mult_Suc mult_le_mono1)

lemma index_block_1:
  assumes "1 \<le> i" "i < j"
  shows "(i - 1) * sz + sz \<le> (j - 1) * (sz::nat)"
  using assms index_block[of "i - 1" "j - 1" sz] by auto

lemma block_iff:
  assumes "1 \<le> j" "1 \<le> k" "t < sz"
  shows "(array + (j - 1) * sz \<le> array + (k - 1) * sz + t \<and>
          array + (k - 1) * sz + t < array + (j - 1) * sz + sz) = (k = (j :: nat))"
proof (cases k j rule: linorder_cases)
  case less
  have "(k - 1) * sz + sz \<le> (j - 1) * sz" using index_block_1[OF assms(2) less] .
  then show ?thesis using less assms(3) by linarith
next
  case equal
  then show ?thesis using assms(3) by simp
next
  case greater
  have "(j - 1) * sz + sz \<le> (k - 1) * sz" using index_block_1[OF assms(1) greater] .
  then show ?thesis using greater by linarith
qed

lemma blocks_apart:
  assumes "1 \<le> a" "1 \<le> b" "a \<noteq> b"
  shows "array + (a - 1) * sz + sz \<le> array + (b - 1) * sz \<or>
         array + (b - 1) * sz + sz \<le> array + (a - 1) * (sz :: nat)"
  using index_block_1[of a b sz] index_block_1[of b a sz] assms by linarith

lemma do_swap_apply:
  assumes "1 \<le> a" "1 \<le> b" "1 \<le> k" "t < sz"
  shows "do_swap m array a b sz (array + (k - 1) * sz + t) =
           m (array + ((if k = a then b else if k = b then a else k) - 1) * sz + t)"
proof (cases "a = b")
  case True
  then show ?thesis by (simp add: do_swap_def swap_loop_same)
next
  case False
  show ?thesis
    unfolding do_swap_def Let_def swap_loop_apply[OF blocks_apart[OF assms(1,2) False]]
      block_iff[OF assms(1,3,4)] block_iff[OF assms(2,3,4)] by simp
qed

lemma elt_do_swap:
  assumes "1 \<le> a" "1 \<le> b" "1 \<le> k"
  shows "elt (do_swap m array a b sz) array sz k = elt m array sz (if k = a then b else if k = b then a else k)"
  unfolding elt_def using do_swap_apply[OF assms] by (intro map_cong refl) auto

lemma do_swap_frame:
  assumes "1 \<le> a" "a \<le> cnt" "1 \<le> b" "b \<le> cnt" "x < array \<or> array + cnt * sz \<le> x"
  shows "do_swap m array a b sz x = m x"
proof (cases "a = b")
  case True
  then show ?thesis by (simp add: do_swap_def swap_loop_same)
next
  case False
  have "(a - 1) * sz + sz \<le> cnt * sz" "(b - 1) * sz + sz \<le> cnt * sz"
    using index_block[of "a - 1" cnt sz] index_block[of "b - 1" cnt sz] assms by auto
  then have out: "\<not> (array + (j - 1) * sz \<le> x \<and> x < array + (j - 1) * sz + sz)" if "j = a \<or> j = b" for j
    using assms(5) that by auto
  show ?thesis
    unfolding do_swap_def Let_def swap_loop_apply[OF blocks_apart[OF assms(1,3) False]]
    using out[OF disjI1, OF refl] out[OF disjI2, OF refl] by (simp only: if_False)
qed

text \<open>The elements of an array.\<close>

definition elts :: "mem \<Rightarrow> ptr \<Rightarrow> nat \<Rightarrow> nat \<Rightarrow> u8 list list" where
  "elts m array cnt sz = map (elt m array sz) [1..<cnt + 1]"

lemma mset_elts_do_swap:
  assumes "1 \<le> a" "a \<le> cnt" "1 \<le> b" "b \<le> cnt"
  shows "mset (elts (do_swap m array a b sz) array cnt sz) = mset (elts m array cnt sz)"
proof -
  define f where "f k = (if k = a then b else if k = b then a else k)" for k
  have involution: "f (f k) = k" and closed: "f k \<in> {1..cnt} \<longleftrightarrow> k \<in> {1..cnt}" for k
    using assms by (auto simp: f_def)
  have "{1..cnt} \<subseteq> f ` {1..cnt}"
    using involution closed by (metis image_eqI subsetI)
  moreover have "f ` {1..cnt} \<subseteq> {1..cnt}"
    using closed by blast
  moreover have "inj_on f {1..cnt}"
    using involution by (metis inj_onI)
  ultimately have "image_mset f (mset_set {1..cnt}) = mset_set {1..cnt}"
    by (simp add: image_mset_mset_set)
  then have "image_mset (elt m array sz) (image_mset f (mset_set {1..cnt})) = image_mset (elt m array sz) (mset_set {1..cnt})"
    by simp
  moreover have "image_mset (elt (do_swap m array a b sz) array sz) (mset_set {1..cnt})
      = image_mset (\<lambda>k. elt m array sz (f k)) (mset_set {1..cnt})"
    using elt_do_swap[OF assms(1,3)] by (intro image_mset_cong) (auto simp: f_def)
  moreover have "mset [1..<cnt + 1] = mset_set {1..cnt}"
    by (simp add: mset_upt atLeastLessThanSuc_atLeastAtMost del: upt_Suc)
  ultimately show ?thesis
    by (simp add: elts_def multiset.map_comp comp_def del: upt_Suc mset_upt)
qed


lemma set_elts: "set (elts m array cnt sz) = elt m array sz ` {1..cnt}"
  by (simp add: elts_def atLeastLessThanSuc_atLeastAtMost del: upt_Suc)

section \<open>Heaps\<close>

text \<open>What a comparison function promises: its sign flips with its arguments, and it is transitive.\<close>

locale comparator =
  fixes cmp :: "'a \<Rightarrow> 'a \<Rightarrow> int"
  assumes cmp_flip: "0 < cmp a b \<longleftrightarrow> cmp b a < 0"
    and cmp_trans: "cmp a b \<le> 0 \<Longrightarrow> cmp b c \<le> 0 \<Longrightarrow> cmp a c \<le> 0"
begin

lemma cmp_refl: "cmp a a \<le> 0"
  using cmp_flip[of a a] by linarith

lemma cmp_total: "\<not> 0 < cmp a b \<longleftrightarrow> cmp a b \<le> 0" "0 < cmp a b \<Longrightarrow> cmp b a \<le> 0"
  using cmp_flip[of a b] by linarith+

end

text \<open>No element of the one-based array \<open>x\<close> at an index from \<open>lo\<close> on is less than its children; and the same
  except at index \<open>i\<close>, whose children are not greater than its parent.\<close>

definition heap_ok :: "('a \<Rightarrow> 'a \<Rightarrow> int) \<Rightarrow> (nat \<Rightarrow> 'a) \<Rightarrow> nat \<Rightarrow> nat \<Rightarrow> bool" where
  "heap_ok cmp x lo cnt \<longleftrightarrow> (\<forall>j k. lo \<le> j \<and> k div 2 = j \<and> k \<le> cnt \<longrightarrow> cmp (x k) (x j) \<le> 0)"

definition heap_except :: "('a \<Rightarrow> 'a \<Rightarrow> int) \<Rightarrow> (nat \<Rightarrow> 'a) \<Rightarrow> nat \<Rightarrow> nat \<Rightarrow> nat \<Rightarrow> bool" where
  "heap_except cmp x lo cnt i \<longleftrightarrow>
     (\<forall>j k. lo \<le> j \<and> j \<noteq> i \<and> k div 2 = j \<and> k \<le> cnt \<longrightarrow> cmp (x k) (x j) \<le> 0) \<and>
     (\<forall>k. lo \<le> i div 2 \<and> k div 2 = i \<and> k \<le> cnt \<longrightarrow> cmp (x k) (x (i div 2)) \<le> 0)"

lemma child_iff: "k div 2 = i \<longleftrightarrow> k = 2 * i \<or> k = 2 * i + (1::nat)"
  by auto

context comparator
begin

lemma heap_max_root:
  assumes "heap_ok cmp x 1 cnt" "1 \<le> k" "k \<le> cnt"
  shows "cmp (x k) (x 1) \<le> 0"
  using assms(2,3)
proof (induction k rule: less_induct)
  case (less k)
  show ?case
  proof (cases "k = 1")
    case True
    then show ?thesis by (simp add: cmp_refl)
  next
    case False
    then have "1 \<le> k div 2" "k div 2 < k"
      using less.prems(1) by auto
    moreover have "cmp (x k) (x (k div 2)) \<le> 0"
      using assms(1) less.prems \<open>1 \<le> k div 2\<close> unfolding heap_ok_def by blast
    ultimately show ?thesis
      using less.IH[of "k div 2"] less.prems(2) cmp_trans by (meson le_trans less_imp_le)
  qed
qed

lemma heap_except_swap:
  assumes "heap_except cmp x lo cnt i" "1 \<le> lo" "lo \<le> i" "mx div 2 = i" "mx \<le> cnt"
    and "cmp (x i) (x mx) \<le> 0" "\<And>k. k div 2 = i \<Longrightarrow> k \<le> cnt \<Longrightarrow> cmp (x k) (x mx) \<le> 0"
    and y: "\<And>k. 1 \<le> k \<Longrightarrow> y k = x (if k = i then mx else if k = mx then i else k)"
  shows "heap_except cmp y lo cnt mx"
proof -
  have i: "1 \<le> i" "i < mx" "i div 2 < i" using assms(2,3,4) by auto
  have ok: "cmp (x k) (x j) \<le> 0" if "lo \<le> j" "j \<noteq> i" "k div 2 = j" "k \<le> cnt" for j k
    using assms(1) that unfolding heap_except_def by blast
  have par: "cmp (x k) (x (i div 2)) \<le> 0" if "lo \<le> i div 2" "k div 2 = i" "k \<le> cnt" for k
    using assms(1) that unfolding heap_except_def by blast
  have "cmp (y k) (y j) \<le> 0" if "lo \<le> j" "j \<noteq> mx" "k div 2 = j" "k \<le> cnt" for j k
  proof -
    have k: "1 \<le> j" "j < k" "1 \<le> k" using that assms(2) by auto
    have yj: "y j = (if j = i then x mx else x j)" "y k = x (if k = i then mx else if k = mx then i else k)"
      using y[of j] y[of k] k that by auto
    show ?thesis
    proof (cases "j = i")
      case True
      then show ?thesis using yj assms(6) assms(7)[of k] that k by auto
    next
      case False
      then have "k \<noteq> mx" using that assms(4) by auto
      then show ?thesis
        using False yj ok[OF that(1) False that(3,4)] par[of mx] that assms(4,5) by auto
    qed
  qed
  moreover have "cmp (y k) (y (mx div 2)) \<le> 0" if "k div 2 = mx" "k \<le> cnt" for k
  proof -
    have "mx < k" using that i by auto
    then have "y k = x k" "y (mx div 2) = x mx"
      using y[of k] y[of i] i assms(4) by auto
    then show ?thesis using ok[of mx k] that i assms(3) by auto
  qed
  ultimately show ?thesis
    unfolding heap_except_def by blast
qed

lemma heap_except_done:
  assumes "heap_except cmp x lo cnt i" "\<And>k. k div 2 = i \<Longrightarrow> k \<le> cnt \<Longrightarrow> cmp (x k) (x i) \<le> 0"
  shows "heap_ok cmp x lo cnt"
  using assms unfolding heap_ok_def heap_except_def by blast

lemma heap_extend: "heap_ok cmp x (Suc i) cnt \<Longrightarrow> 0 < i \<Longrightarrow> heap_except cmp x i cnt i"
  unfolding heap_ok_def heap_except_def by (auto simp: Suc_le_eq)

lemma heap_drop_last:
  assumes "heap_ok cmp x 1 (Suc n)"
    and "\<And>k. 1 \<le> k \<Longrightarrow> y k = x (if k = 1 then Suc n else if k = Suc n then 1 else k)"
  shows "heap_except cmp y 1 n 1"
proof -
  have "cmp (y k) (y j) \<le> 0" if "1 \<le> j" "j \<noteq> 1" "k div 2 = j" "k \<le> n" for j k
  proof -
    have "j < k" "1 < k" using that by auto
    then have "y k = x k" "y j = x j" using assms(2)[of k] assms(2)[of j] that by auto
    then show ?thesis using assms(1) that unfolding heap_ok_def by auto
  qed
  then show ?thesis unfolding heap_except_def by simp
qed

end


section \<open>Sorting\<close>

lemma heapify_frame:
  "1 \<le> i \<Longrightarrow> i \<le> cnt \<Longrightarrow>
     mset (elts (heapify m array i cnt sz compare) array cnt sz) = mset (elts m array cnt sz) \<and>
     (\<forall>x. x < array \<or> array + cnt * sz \<le> x \<longrightarrow> heapify m array i cnt sz compare x = m x) \<and>
     (\<forall>k>cnt. elt (heapify m array i cnt sz compare) array sz k = elt m array sz k)"
proof (induction m array i cnt sz compare rule: heapify.induct)
  case (1 m array i cnt sz compare)
  define mx where "mx = heapify_max m array i cnt sz compare"
  show ?case
  proof (cases "mx = i")
    case True
    then show ?thesis by (simp add: heapify.simps[of m] mx_def)
  next
    case False
    have mx: "i < mx" "mx \<le> cnt"
      using heapify_max_cases False unfolding mx_def by blast+
    define m' where "m' = do_swap m array i mx sz"
    have eq: "heapify m array i cnt sz compare = heapify m' array mx cnt sz compare"
      using False by (simp add: heapify.simps[of m] mx_def m'_def Let_def)
    note IH = 1(1)[OF mx_def False, folded m'_def]
    have "mset (elts m' array cnt sz) = mset (elts m array cnt sz)"
      unfolding m'_def using 1(2,3) mx by (intro mset_elts_do_swap) auto
    moreover have "m' x = m x" if "x < array \<or> array + cnt * sz \<le> x" for x
      unfolding m'_def using 1(2,3) mx that by (intro do_swap_frame[of _ cnt]) auto
    moreover have "elt m' array sz k = elt m array sz k" if "k > cnt" for k
      unfolding m'_def using 1(2,3) mx that by (subst elt_do_swap) auto
    ultimately show ?thesis
      unfolding eq using IH mx 1(2) by auto
  qed
qed

lemma heapify_max_child: "heapify_max m array i cnt sz compare \<noteq> i \<Longrightarrow> heapify_max m array i cnt sz compare div 2 = i"
  by (auto simp: heapify_max_def Let_def split: if_splits)

text \<open>A comparison function on the bytes of elements, as the sort and search routines are given one.\<close>

locale byte_comparator = comparator cmp for cmp :: cmp
begin

lemma heapify_max_greatest:
  shows "cmp (elt m array sz i) (elt m array sz (heapify_max m array i cnt sz cmp)) \<le> 0"
    and "k div 2 = i \<Longrightarrow> k \<le> cnt \<Longrightarrow>
      cmp (elt m array sz k) (elt m array sz (heapify_max m array i cnt sz cmp)) \<le> 0"
proof -
  define l r where "l = 2 * i" and "r = 2 * i + 1"
  define a where "a = (if l \<le> cnt \<and> cmp (elt m array sz l) (elt m array sz i) > 0 then l else i)"
  define b where "b = (if r \<le> cnt \<and> cmp (elt m array sz r) (elt m array sz a) > 0 then r else a)"
  have mx: "heapify_max m array i cnt sz cmp = b"
    unfolding heapify_max_def Let_def do_compare_def a_def b_def l_def r_def by (rule refl)
  have a: "cmp (elt m array sz i) (elt m array sz a) \<le> 0" "l \<le> cnt \<Longrightarrow> cmp (elt m array sz l) (elt m array sz a) \<le> 0"
    unfolding a_def using cmp_refl cmp_total by auto
  have ab: "cmp (elt m array sz a) (elt m array sz b) \<le> 0" "r \<le> cnt \<Longrightarrow> cmp (elt m array sz r) (elt m array sz b) \<le> 0"
    unfolding b_def using cmp_refl cmp_total by auto
  show "cmp (elt m array sz i) (elt m array sz (heapify_max m array i cnt sz cmp)) \<le> 0"
    unfolding mx using cmp_trans[OF a(1) ab(1)] .
  show "cmp (elt m array sz k) (elt m array sz (heapify_max m array i cnt sz cmp)) \<le> 0"
    if "k div 2 = i" "k \<le> cnt"
    unfolding mx using cmp_trans[OF a(2) ab(1)] ab(2) that unfolding child_iff l_def r_def by auto
qed

lemma heapify_heap:
  "heap_except cmp (elt m array sz) lo cnt i \<Longrightarrow> 1 \<le> lo \<Longrightarrow> lo \<le> i \<Longrightarrow>
   heap_ok cmp (elt (heapify m array i cnt sz cmp) array sz) lo cnt"
proof (induction "cnt - i" arbitrary: m i rule: less_induct)
  case less
  define mx where "mx = heapify_max m array i cnt sz cmp"
  note gr = heapify_max_greatest[where m = m and array = array and sz = sz and i = i and cnt = cnt, folded mx_def]
  show ?case
  proof (cases "mx = i")
    case True
    then have "heapify m array i cnt sz cmp = m"
      by (simp add: heapify.simps[of m] mx_def)
    then show ?thesis
      using heap_except_done[OF less.prems(1)] gr(2) True by auto
  next
    case False
    have mx: "i < mx" "mx \<le> cnt" "mx div 2 = i"
      using heapify_max_cases heapify_max_child False unfolding mx_def by blast+
    define m' where "m' = do_swap m array i mx sz"
    have "heap_except cmp (elt m' array sz) lo cnt mx"
    proof (rule heap_except_swap[OF less.prems mx(3,2) gr])
      show "elt m' array sz k = elt m array sz (if k = i then mx else if k = mx then i else k)" if "1 \<le> k" for k
        unfolding m'_def using less.prems mx that by (intro elt_do_swap) auto
    qed
    moreover have "heapify m array i cnt sz cmp = heapify m' array mx cnt sz cmp"
      using False by (simp add: heapify.simps[of m] mx_def m'_def Let_def)
    moreover have "cnt - mx < cnt - i" "lo \<le> mx"
      using mx less.prems by auto
    ultimately show ?thesis
      using less.hyps[of mx m'] less.prems(2) by simp
  qed
qed

lemma sort_build_heap:
  "i \<le> cnt \<Longrightarrow> heap_ok cmp (elt m array sz) (Suc i) cnt \<Longrightarrow>
   heap_ok cmp (elt (sort_build i m array cnt sz cmp) array sz) 1 cnt"
proof (induction i arbitrary: m)
  case 0
  then show ?case by simp
next
  case (Suc i)
  have "heap_ok cmp (elt (heapify m array (Suc i) cnt sz cmp) array sz) (Suc i) cnt"
    using Suc.prems by (intro heapify_heap heap_extend) auto
  then show ?case using Suc by simp
qed

lemma sort_drain_sorted:
  assumes ab: "1 \<le> a" "a < b" "b \<le> cnt"
  shows "n \<le> cnt \<Longrightarrow> heap_ok cmp (elt m array sz) 1 n \<Longrightarrow>
    (\<And>a b. 1 \<le> a \<Longrightarrow> a < b \<Longrightarrow> n < b \<Longrightarrow> b \<le> cnt \<Longrightarrow> cmp (elt m array sz a) (elt m array sz b) \<le> 0) \<Longrightarrow>
    cmp (elt (sort_drain n m array sz cmp) array sz a) (elt (sort_drain n m array sz cmp) array sz b) \<le> 0"
proof (induction n arbitrary: m)
  case 0
  then show ?case using ab by simp
next
  case (Suc n)
  show ?case
  proof (cases n)
    case 0
    then show ?thesis using ab Suc.prems by auto
  next
    case (Suc i)
    then have n: "1 \<le> n" "n < cnt" using Suc.prems(1) by auto
    define m1 where "m1 = do_swap m array 1 (Suc n) sz"
    define m2 where "m2 = heapify m1 array 1 n sz cmp"
    have m1: "elt m1 array sz k = elt m array sz (if k = 1 then Suc n else if k = Suc n then 1 else k)" if "1 \<le> k" for k
      unfolding m1_def using that by (intro elt_do_swap) auto
    have heap: "heap_ok cmp (elt m2 array sz) 1 n"
      unfolding m2_def using heap_drop_last[OF Suc.prems(2) m1] by (intro heapify_heap) auto
    have fr: "mset (elts m2 array n sz) = mset (elts m1 array n sz)"
        "\<And>k. n < k \<Longrightarrow> elt m2 array sz k = elt m1 array sz k"
      using heapify_frame[of 1 n m1 array sz cmp] n unfolding m2_def by auto
    have low: "\<exists>c. 1 \<le> c \<and> c \<le> Suc n \<and> elt m2 array sz k = elt m array sz c" if "1 \<le> k" "k \<le> Suc n" for k
    proof (cases "k = Suc n")
      case True
      then show ?thesis using fr(2)[of k] m1[of k] by (intro exI[of _ 1]) auto
    next
      case False
      then have "elt m2 array sz k \<in> set (elts m1 array n sz)"
        using that mset_eq_setD[OF fr(1)] unfolding set_elts by auto
      then obtain c where "1 \<le> c" "c \<le> n" "elt m2 array sz k = elt m1 array sz c"
        unfolding set_elts by auto
      then show ?thesis using m1[of c] by (intro exI[of _ "if c = 1 then Suc n else c"]) auto
    qed
    have "cmp (elt m2 array sz a) (elt m2 array sz b) \<le> 0"
      if lt: "1 \<le> a" "a < b" "n < b" "b \<le> cnt" for a b
    proof (cases "b = Suc n")
      case True
      have "elt m2 array sz b = elt m array sz 1" using True fr(2)[of b] m1[of b] lt n by auto
      then show ?thesis using low[of a] heap_max_root[OF Suc.prems(2)] lt True by fastforce
    next
      case False
      then have b: "Suc n < b" using lt by simp
      then have "elt m2 array sz b = elt m array sz b" using fr(2)[of b] m1[of b] n by auto
      moreover have "\<exists>c. 1 \<le> c \<and> c < b \<and> elt m2 array sz a = elt m array sz c"
      proof (cases "a \<le> Suc n")
        case True
        then show ?thesis using low[OF lt(1) True] b by force
      next
        case False
        then show ?thesis using fr(2)[of a] m1[of a] n lt by (intro exI[of _ a]) auto
      qed
      ultimately show ?thesis using Suc.prems(3)[of _ b] b lt by auto
    qed
    then have "cmp (elt (sort_drain n m2 array sz cmp) array sz a) (elt (sort_drain n m2 array sz cmp) array sz b) \<le> 0"
      using Suc.IH[of m2] heap n by auto
    then show ?thesis
      using Suc by (simp add: m1_def m2_def)
  qed
qed

lemma binary_search_loop_finds:
  assumes sz: "0 < sz" and array: "array \<noteq> NULL"
    and sorted: "\<And>a b. 1 \<le> a \<Longrightarrow> a < b \<Longrightarrow> b \<le> cnt \<Longrightarrow> cmp (elt m array sz a) (elt m array sz b) \<le> 0"
  shows "i \<le> j \<Longrightarrow> j \<le> cnt \<Longrightarrow> (\<And>k. k < i \<Longrightarrow> cmp key (elt m array sz (k + 1)) > 0) \<Longrightarrow>
    (\<And>k. j \<le> k \<Longrightarrow> k < cnt \<Longrightarrow> cmp key (elt m array sz (k + 1)) < 0) \<Longrightarrow>
    \<exists>r. binary_search_loop m key (array + i * sz) (array + j * sz) sz cmp = Some r \<and>
      (if \<exists>k<cnt. cmp key (elt m array sz (k + 1)) = 0
       then \<exists>k<cnt. cmp key (elt m array sz (k + 1)) = 0 \<and> r = array + k * sz
       else r = NULL)"
proof (induction "j - i" arbitrary: i j rule: less_induct)
  case less
  let ?cmp = "\<lambda>k. cmp key (elt m array sz (k + 1))"
  show ?case
  proof (cases "i < j")
    case False
    then have "?cmp k \<noteq> 0" if "k < cnt" for k
      using less.prems(3)[of k] less.prems(4)[of k] that by (cases "k < i") auto
    moreover have "binary_search_loop m key (array + i * sz) (array + j * sz) sz cmp = Some NULL"
      using False by (simp add: binary_search_loop.simps[of m key "array + i * sz"])
    ultimately show ?thesis by auto
  next
    case True
    define h where "h = i + (j - i) div 2"
    have h: "i \<le> h" "h < j" using True by (auto simp: h_def)
    have range: "(array + j * sz - (array + i * sz)) div sz = j - i"
      using sz by (simp add: diff_mult_distrib[symmetric])
    have mid: "array + i * sz + (j - i) div 2 * sz = array + h * sz"
      by (simp add: h_def algebra_simps)
    have el: "map (\<lambda>k. m (array + h * sz + k)) [0..<sz] = elt m array sz (h + 1)"
      by (simp add: elt_def)
    have step: "binary_search_loop m key (array + i * sz) (array + j * sz) sz cmp =
        (if ?cmp h < 0 then binary_search_loop m key (array + i * sz) (array + h * sz) sz cmp
         else if ?cmp h > 0 then binary_search_loop m key (array + (h + 1) * sz) (array + j * sz) sz cmp
         else Some (array + h * sz))"
      using True sz unfolding binary_search_loop.simps[of m key "array + i * sz" "array + j * sz"] Let_def range mid el
      by (simp add: algebra_simps)
    consider (lt) "?cmp h < 0" | (gt) "?cmp h > 0" | (eq) "?cmp h = 0" by linarith
    then show ?thesis
    proof cases
      case lt
      have "?cmp k < 0" if "h \<le> k" "k < cnt" for k
      proof (rule ccontr)
        assume "\<not> ?cmp k < 0"
        then have "cmp (elt m array sz (k + 1)) key \<le> 0"
          using cmp_flip[of "elt m array sz (k + 1)" key] by linarith
        moreover have "cmp (elt m array sz (h + 1)) (elt m array sz (k + 1)) \<le> 0"
          using sorted[of "h + 1" "k + 1"] cmp_refl that by (cases "h = k") auto
        ultimately have "cmp (elt m array sz (h + 1)) key \<le> 0"
          using cmp_trans by blast
        then show False using lt cmp_flip[of "elt m array sz (h + 1)" key] by linarith
      qed
      then show ?thesis
        using less.hyps[of h i] h less.prems lt step by auto
    next
      case gt
      have pos: "?cmp k > 0" if "k < h + 1" for k
      proof (rule ccontr)
        assume "\<not> ?cmp k > 0"
        then have "?cmp k \<le> 0" by simp
        moreover have "cmp (elt m array sz (k + 1)) (elt m array sz (h + 1)) \<le> 0"
          using sorted[of "k + 1" "h + 1"] cmp_refl that h less.prems(2) by (cases "h = k") auto
        ultimately have "?cmp h \<le> 0" using cmp_trans by blast
        then show False using gt by simp
      qed
      have next_round: "binary_search_loop m key (array + i * sz) (array + j * sz) sz cmp =
          binary_search_loop m key (array + (h + 1) * sz) (array + j * sz) sz cmp"
        using step gt by simp
      have "j - (h + 1) < j - i" "h + 1 \<le> j" using h by simp_all
      then show ?thesis
        unfolding next_round using less.prems(2,4) pos by (intro less.hyps) auto
    next
      case eq
      then have "h < cnt" using h less.prems(2) by simp
      then show ?thesis using eq step by auto
    qed
  qed
qed

end

lemma elts_split: "n \<le> cnt \<Longrightarrow> elts m array cnt sz = elts m array n sz @ map (elt m array sz) [n + 1..<cnt + 1]"
  unfolding elts_def using upt_add_eq_append[of 1 "n + 1" "cnt - n"] by (simp del: upt_Suc)

lemma sort_build_frame:
  "i \<le> cnt \<Longrightarrow> mset (elts (sort_build i m array cnt sz compare) array cnt sz) = mset (elts m array cnt sz) \<and>
     (\<forall>x. x < array \<or> array + cnt * sz \<le> x \<longrightarrow> sort_build i m array cnt sz compare x = m x)"
proof (induction i arbitrary: m)
  case 0
  then show ?case by simp
next
  case (Suc i)
  then show ?case using heapify_frame[of "Suc i" cnt m array sz compare] by simp
qed

lemma sort_drain_frame:
  "n \<le> cnt \<Longrightarrow> mset (elts (sort_drain n m array sz compare) array cnt sz) = mset (elts m array cnt sz) \<and>
     (\<forall>x. x < array \<or> array + cnt * sz \<le> x \<longrightarrow> sort_drain n m array sz compare x = m x)"
proof (induction n arbitrary: m)
  case 0
  then show ?case by simp
next
  case (Suc n)
  show ?case
  proof (cases n)
    case 0
    then show ?thesis by simp
  next
    case (Suc i)
    define m1 where "m1 = do_swap m array 1 (Suc n) sz"
    define m2 where "m2 = heapify m1 array 1 n sz compare"
    have fr: "mset (elts m2 array n sz) = mset (elts m1 array n sz)"
        "\<And>x. x < array \<or> array + n * sz \<le> x \<Longrightarrow> m2 x = m1 x" "\<And>k. n < k \<Longrightarrow> elt m2 array sz k = elt m1 array sz k"
      using heapify_frame[of 1 n m1 array sz compare] Suc unfolding m2_def by auto
    have "map (elt m2 array sz) [n + 1..<cnt + 1] = map (elt m1 array sz) [n + 1..<cnt + 1]"
      using fr(3) by (intro map_cong) auto
    then have "mset (elts m2 array cnt sz) = mset (elts m1 array cnt sz)"
      unfolding elts_split[OF Suc_leD[OF Suc.prems]] mset_append using fr(1) by (simp only:)
    also have "\<dots> = mset (elts m array cnt sz)"
      unfolding m1_def using Suc.prems by (intro mset_elts_do_swap) auto
    finally have "mset (elts m2 array cnt sz) = mset (elts m array cnt sz)" .
    moreover have "m2 x = m x" if "x < array \<or> array + cnt * sz \<le> x" for x
    proof -
      have "n * sz \<le> cnt * sz" using Suc.prems by simp
      then have "m2 x = m1 x" using fr(2)[of x] that by linarith
      also have "m1 x = m x"
        unfolding m1_def using Suc.prems that by (intro do_swap_frame[of _ cnt]) auto
      finally show ?thesis .
    qed
    moreover have "sort_drain (Suc n) m array sz compare = sort_drain n m2 array sz compare"
      using Suc by (simp add: m1_def m2_def)
    ultimately show ?thesis using Suc.IH[of m2] Suc.prems by auto
  qed
qed

context byte_comparator
begin

lemma qsort_correct:
  assumes "array \<noteq> NULL" "0 < sz"
  shows "\<exists>m'. qsort m array cnt sz cmp = Some m' \<and>
    (\<forall>a b. 1 \<le> a \<and> a < b \<and> b \<le> cnt \<longrightarrow> cmp (elt m' array sz a) (elt m' array sz b) \<le> 0) \<and>
    mset (elts m' array cnt sz) = mset (elts m array cnt sz) \<and>
    (\<forall>x. x < array \<or> array + cnt * sz \<le> x \<longrightarrow> m' x = m x)"
proof -
  define m1 where "m1 = sort_build (cnt div 2) m array cnt sz cmp"
  have "heap_ok cmp (elt m array sz) (Suc (cnt div 2)) cnt"
    unfolding heap_ok_def by (auto dest: div_le_mono[of _ cnt 2])
  then have heap: "heap_ok cmp (elt m1 array sz) 1 cnt"
    unfolding m1_def by (intro sort_build_heap) auto
  have fr1: "mset (elts m1 array cnt sz) = mset (elts m array cnt sz)"
      "\<And>x. x < array \<or> array + cnt * sz \<le> x \<Longrightarrow> m1 x = m x"
    using sort_build_frame[of "cnt div 2" cnt m array sz cmp] unfolding m1_def by auto
  define m2 where "m2 = sort_drain cnt m1 array sz cmp"
  have "qsort m array cnt sz cmp = Some m2"
    using assms by (simp add: qsort_def sort_array_def compare_thunk_def m1_def m2_def)
  moreover have "cmp (elt m2 array sz a) (elt m2 array sz b) \<le> 0" if "1 \<le> a" "a < b" "b \<le> cnt" for a b
    unfolding m2_def using heap that by (intro sort_drain_sorted) auto
  ultimately show ?thesis
    using sort_drain_frame[of cnt cnt m1 array sz cmp, folded m2_def] fr1 by auto
qed

end

section \<open>Decimal numbers: what \<open>atoi\<close> computes\<close>

text \<open>The number that a list of digits denotes.\<close>

definition decimal :: "u8 list \<Rightarrow> int" where
  "decimal ds = foldl (\<lambda>v d. v * 10 + (uint d - 48)) 0 ds"

lemma sint_ascii: "uint c < 128 \<Longrightarrow> sint c = uint c" for c :: u8
proof -
  assume "uint c < 128"
  then have "signed_take_bit 7 (uint c) = uint c"
    using order_trans[OF _ uint_ge_0[of c], of "- 128"] by (intro signed_take_bit_int_eq_self) simp_all
  then show ?thesis by (simp add: sint_uint)
qed

lemma isdigit_sint: "isdigit (sint c) \<longleftrightarrow> isdigit (uint c)" for c :: u8
proof (cases "uint c < 128")
  case True
  then show ?thesis by (simp add: sint_ascii)
next
  case False
  have "128 \<le> uint c" "uint c < 256"
    using False uint_lt2p[of c] by simp_all
  then have "uint c div 128 = 1"
    by presburger
  then have "bit (uint c) 7"
    by (simp add: bit_iff_odd)
  then have "sint c < 0"
    by (simp add: sint_uint signed_take_bit_negative_iff)
  then show ?thesis using False by (simp add: isdigit_def)
qed

lemma atoi_space_skip:
  "cstring m s (sp @ cs) \<Longrightarrow> \<forall>c\<in>set sp. isspace (uint c) \<Longrightarrow> (\<forall>c. cs = c # tl cs \<longrightarrow> \<not> isspace (uint c)) \<Longrightarrow>
   atoi_space m s = Some (s + length sp)"
proof (induction sp arbitrary: s)
  case Nil
  then show ?case by (cases cs) (auto simp: atoi_space.simps[of m s] isspace_def)
next
  case (Cons c sp)
  then show ?case using Cons.IH[of "s + 1"] by (simp add: atoi_space.simps[of m s])
qed

lemma atoi_digits_value:
  "cstring m s (ds @ cs) \<Longrightarrow> \<forall>c\<in>set ds. isdigit (uint c) \<Longrightarrow> (\<forall>c. cs = c # tl cs \<longrightarrow> \<not> isdigit (uint c)) \<Longrightarrow>
   atoi_digits m s (- word_of_int v) = Some (- word_of_int (foldl (\<lambda>v d. v * 10 + (uint d - 48)) v ds))"
proof (induction ds arbitrary: s v)
  case Nil
  then show ?case by (cases cs) (auto simp: atoi_digits.simps[of m s] isdigit_sint, simp add: isdigit_def)
next
  case (Cons c ds)
  have "isdigit (uint c)" using Cons.prems(2) by simp
  then have "scast c - (48 :: 32 word) = word_of_int (uint c - 48)"
    using sint_ascii[of c] by (simp add: isdigit_def scast_eq)
  then have next_val: "- word_of_int v * 10 - (scast c - 48) = - (word_of_int (v * 10 + (uint c - 48)) :: 32 word)"
    by simp
  have "atoi_digits m s (- word_of_int v) = atoi_digits m (s + 1) (- word_of_int v * 10 - (scast c - 48))"
    using Cons.prems by (subst atoi_digits.simps) (simp add: isdigit_sint)
  also have "\<dots> = Some (- word_of_int (foldl (\<lambda>v d. v * 10 + (uint d - 48)) (v * 10 + (uint c - 48)) ds))"
    unfolding next_val using Cons.prems by (intro Cons.IH) auto
  finally show ?case by simp
qed

lemma atoi_decimal:
  assumes "s \<noteq> NULL" "cstring m s (sp @ sg @ ds @ rest)" "\<forall>c\<in>set sp. isspace (uint c)" "sg \<in> {[], [43], [45]}"
    and "ds \<noteq> []" "\<forall>c\<in>set ds. isdigit (uint c)" "rest = [] \<or> \<not> isdigit (uint (hd rest))"
  shows "atoi m s = Some (word_of_int (if sg = [45] then - decimal ds else decimal ds))"
proof -
  obtain d ds' where ds: "ds = d # ds'" "isdigit (uint d)" using assms(5,6) by (cases ds) auto
  have skip: "atoi_space m s = Some (s + length sp)"
    using assms(2,3,4) ds by (intro atoi_space_skip[of m s sp "sg @ ds @ rest"]) (auto simp: isspace_def isdigit_def)
  have c1: "cstring m (s + length sp) (sg @ ds @ rest)" using cstring_suffix[OF assms(2)] .
  have c2: "cstring m (s + length sp + length sg) (ds @ rest)" using cstring_suffix[OF c1] .
  have "atoi_digits m (s + length sp + length sg) (- word_of_int 0) = Some (- word_of_int (decimal ds))"
    unfolding decimal_def using assms(6,7) by (intro atoi_digits_value[OF c2]) (auto, metis list.sel(1))
  moreover have "m (s + length sp) = hd (sg @ ds @ rest)"
    using c1 ds assms(4) by auto
  moreover have "d \<noteq> 43" "d \<noteq> 45" using ds(2) by (auto simp: isdigit_def)
  ultimately show ?thesis
    using assms(1,4) ds skip by (auto simp: atoi_def Let_def)
qed

section \<open>The comparison function of the library's test\<close>

text \<open>A C integer from its four bytes, lowest byte first.\<close>

definition int_of_bytes :: "u8 list \<Rightarrow> int" where
  "int_of_bytes bs = sint (word_of_int (horner_sum uint 256 bs) :: 32 word)"

definition compare_ints :: cmp where
  "compare_ints a b =
     (if int_of_bytes a < int_of_bytes b then - 1 else if int_of_bytes a > int_of_bytes b then 1 else 0)"

interpretation ints: byte_comparator compare_ints
  by unfold_locales (auto simp: compare_ints_def split: if_splits)

section \<open>Properties\<close>

text \<open>C12: for a comparison function that is a total preorder, \<open>qsort\<close> terminates with the array in order; it holds
  the same elements as before, and no byte outside the array has changed.\<close>

theorem qsort_sorts:
  assumes "byte_comparator cmp" "array \<noteq> NULL" "0 < sz"
  shows "\<exists>m'. qsort m array cnt sz cmp = Some m' \<and> sorted_wrt (\<lambda>a b. cmp a b \<le> 0) (elts m' array cnt sz) \<and>
    mset (elts m' array cnt sz) = mset (elts m array cnt sz) \<and>
    (\<forall>x. x < array \<or> array + cnt * sz \<le> x \<longrightarrow> m' x = m x)"
proof -
  obtain m' where m': "qsort m array cnt sz cmp = Some m'"
      "\<And>a b. 1 \<le> a \<Longrightarrow> a < b \<Longrightarrow> b \<le> cnt \<Longrightarrow> cmp (elt m' array sz a) (elt m' array sz b) \<le> 0"
      "mset (elts m' array cnt sz) = mset (elts m array cnt sz)"
      "\<forall>x. x < array \<or> array + cnt * sz \<le> x \<longrightarrow> m' x = m x"
    using byte_comparator.qsort_correct[OF assms] by metis
  moreover have "sorted_wrt (\<lambda>a b. cmp a b \<le> 0) (elts m' array cnt sz)"
    using m'(2) by (auto simp: elts_def sorted_wrt_iff_nth_less simp del: upt_Suc)
  ultimately show ?thesis by blast
qed

definition demo_array :: mem where
  "demo_array = (\<lambda>_. 0)(16 := 7, 20 := 3, 24 := 5)"

theorem qsort_sorts_witness:
  "\<exists>m'. qsort demo_array 16 3 4 compare_ints = Some m' \<and>
     mset (elts m' 16 3 4) = mset [[7, 0, 0, 0], [3, 0, 0, 0], [5, 0, 0, 0]]"
proof -
  have "elts demo_array 16 3 4 = [[7, 0, 0, 0], [3, 0, 0, 0], [5, 0, 0, 0]]"
    by (simp add: elts_def elt_def demo_array_def upt_rec)
  then show ?thesis
    using qsort_sorts[OF ints.byte_comparator_axioms, of 16 4 demo_array 3] by (auto simp: NULL_def)
qed

text \<open>C25: on an array in order, \<open>bsearch\<close> terminates; it returns a pointer to an element equal to the key when the
  array has one, and the null pointer otherwise.\<close>

theorem bsearch_finds:
  assumes "byte_comparator cmp" "array \<noteq> NULL" "0 < sz" "sorted_wrt (\<lambda>a b. cmp a b \<le> 0) (elts m array cnt sz)"
  shows "\<exists>r. bsearch m key array cnt sz cmp = Some r \<and>
      (if \<exists>k<cnt. cmp key (elt m array sz (k + 1)) = 0
       then \<exists>k<cnt. cmp key (elt m array sz (k + 1)) = 0 \<and> r = array + k * sz
       else r = NULL)"
proof -
  have "cmp (elt m array sz a) (elt m array sz b) \<le> 0" if "1 \<le> a" "a < b" "b \<le> cnt" for a b
    using sorted_wrt_nth_less[OF assms(4), of "a - 1" "b - 1"] that by (simp add: elts_def del: upt_Suc)
  then show ?thesis
    using byte_comparator.binary_search_loop_finds[OF assms(1,3,2), of cnt m 0 cnt key]
    by (simp add: bsearch_def binary_search_def compare_thunk_def mult.commute)
qed

theorem bsearch_finds_witness:
  "\<exists>r. bsearch (demo_array(16 := 2)) [5, 0, 0, 0] 16 3 4 compare_ints = Some r \<and> r \<noteq> NULL"
proof -
  have e: "elts (demo_array(16 := 2)) 16 3 4 = [[2, 0, 0, 0], [3, 0, 0, 0], [5, 0, 0, 0]]"
    "elt (demo_array(16 := 2)) 16 4 (2 + 1) = [5, 0, 0, 0]"
    by (simp_all add: elts_def elt_def demo_array_def upt_rec)
  have "\<exists>k<3. compare_ints [5, 0, 0, 0] (elt (demo_array(16 := 2)) 16 4 (k + 1)) = 0"
    using e(2) by (intro exI[of _ 2]) (simp add: compare_ints_def)
  then show ?thesis
    using bsearch_finds[OF ints.byte_comparator_axioms, of 16 4 "demo_array(16 := 2)" 3 "[5, 0, 0, 0]"] e(1)
    by (auto simp: NULL_def compare_ints_def int_of_bytes_def)
qed

text \<open>C32: \<open>atoi\<close> skips white space, reads an optional sign and the digits up to the first other character, and
  returns the number they denote, reduced to 32 bits.\<close>

theorem atoi_reads_decimal:
  assumes "s \<noteq> NULL" "cstring m s (sp @ sg @ ds @ rest)" "\<forall>c\<in>set sp. isspace (uint c)" "sg \<in> {[], [43], [45]}"
    and "ds \<noteq> []" "\<forall>c\<in>set ds. isdigit (uint c)" "rest = [] \<or> \<not> isdigit (uint (hd rest))"
  shows "atoi m s = Some (word_of_int (if sg = [45] then - decimal ds else decimal ds))"
  using assms by (rule atoi_decimal)

theorem atoi_reads_decimal_witness:
  "atoi ((\<lambda>_. 0)(8 := 32, 9 := 45, 10 := 52, 11 := 50, 12 := 120)) 8 = Some (- 42)"
  using atoi_reads_decimal[of 8 "(\<lambda>_. 0)(8 := 32, 9 := 45, 10 := 52, 11 := 50, 12 := 120)" "[32]" "[45]" "[52, 50]" "[120]"]
  by (simp add: NULL_def isspace_def isdigit_def decimal_def)

end
