(* ===== verification/Kthread.thy ===== *)
theory Kthread
  imports Prelude
begin

text \<open>
  The state of the kernel as the thread system sees it, and the scheduler of \<open>threads/thread.c\<close> with the
  interrupt control of \<open>threads/interrupt.c\<close>. A thread is the address of its page. The kernel stack of a
  thread that is not running, or that has more to do inside the kernel, is the list of its frames: what
  remains to be executed, innermost first. Lists of threads are sequences; the list component shows that the
  linked lists of the kernel implement them. Calls into the file system, the page allocator and the page
  tables are recorded as events. An assertion failure or the use of memory that is not a live object is the
  outcome \<^const>\<open>None\<close>.
\<close>

datatype intr_level = INTR_OFF | INTR_ON

datatype thread_status = THREAD_RUNNING | THREAD_READY | THREAD_BLOCKED | THREAD_DYING

record fd_elem =
  fd :: int
  file_size :: int
  filename :: ptr
  the_file :: ptr

record thread =
  tid :: int
  status :: thread_status
  tname :: string
  stack :: nat
  priority :: int
  pagedir :: ptr
  next_fd :: int
  tid_node_exists :: bool
  executable :: ptr
  fd_list :: "fd_elem list"
  tid_node :: ptr
  child_nodes :: "ptr list"
  magic :: u32

record tid_status =
  node_tid :: int
  child :: ptr
  exit_status :: int
  loaded :: bool
  waiting :: bool

record semaphore =
  sema_value :: u32
  waiters :: "ptr list"

text \<open>What a thread has left to do inside the kernel.\<close>

datatype frame =
  Sema_down ptr intr_level \<comment> \<open>the loop of \<open>sema_down\<close>\<close>
| Lock_take ptr \<comment> \<open>\<open>lock_acquire\<close> after its \<open>sema_down\<close>\<close>
| Cond_acquire ptr \<comment> \<open>\<open>cond_wait\<close> before it takes the lock again\<close>
| Set_level intr_level \<comment> \<open>the end of \<open>thread_yield\<close>\<close>
| Intr_return \<comment> \<open>return from an external interrupt\<close>
| Kernel_thread \<comment> \<open>the entry of a new thread\<close>
| Idle_loop \<comment> \<open>the loop of the idle thread\<close>
| Idle_halt \<comment> \<open>the idle thread after \<open>thread_block\<close>\<close>
| Create_tail ptr ptr \<comment> \<open>\<open>thread_create\<close> once it holds the lock of \<open>allocate_tid\<close>\<close>
| Init_tail \<comment> \<open>\<open>thread_init\<close> once it holds the lock of \<open>allocate_tid\<close>\<close>
| Exit_files \<comment> \<open>\<open>process_exit\<close> at its loop over the open files\<close>
| Exit_close \<comment> \<open>\<open>process_exit\<close> inside that loop, holding the file lock\<close>
| Exec_created ptr ptr \<comment> \<open>\<open>process_execute\<close> after \<open>thread_create\<close>\<close>
| Exec_tail ptr int \<comment> \<open>\<open>process_execute\<close> after the child has tried to load\<close>
| Wait_tail ptr \<comment> \<open>\<open>process_wait\<close> after its \<open>sema_down\<close>\<close>
| Start_tail ptr \<comment> \<open>\<open>thread_start\<close> after \<open>thread_create\<close>\<close>
| Sleep int int \<comment> \<open>the loop of \<open>timer_sleep\<close>: start and number of ticks\<close>

datatype event =
  File_close ptr
| Exit_message string int
| Free ptr
| Write_freed ptr
| Free_fd fd_elem
| Free_page ptr
| Pagedir_activate ptr
| Pagedir_destroy ptr
| Tss_update ptr

record kernel =
  threads :: "ptr \<Rightarrow> thread option"
  nodes :: "ptr \<Rightarrow> tid_status option"
  semas :: "ptr \<Rightarrow> semaphore"
  holders :: "ptr \<Rightarrow> ptr"
  conds :: "ptr \<Rightarrow> ptr list"
  ready_list :: "ptr list"
  all_list :: "ptr list"
  idle_thread :: ptr
  initial_thread :: ptr
  running :: ptr
  level :: intr_level
  in_external_intr :: bool
  yield_on_return :: bool
  ticks :: int
  idle_ticks :: int
  kernel_ticks :: int
  user_ticks :: int
  thread_ticks :: u32
  next_tid :: int
  retval :: "ptr \<Rightarrow> int"
  frames :: "ptr \<Rightarrow> frame list"
  events :: "event list"

definition THREAD_MAGIC :: u32 where
  "THREAD_MAGIC = 0xcd6abf4b"

definition TIME_SLICE :: u32 where
  "TIME_SLICE = 4"

definition PGSIZE :: nat where
  "PGSIZE = 4096"

definition PRI_MIN :: int where "PRI_MIN = 0"
definition PRI_DEFAULT :: int where "PRI_DEFAULT = 31"
definition PRI_MAX :: int where "PRI_MAX = 63"

definition TID_ERROR :: int where
  "TID_ERROR = - 1"

section \<open>The state\<close>

definition upd_thread :: "ptr \<Rightarrow> (thread \<Rightarrow> thread) \<Rightarrow> kernel \<Rightarrow> kernel option" where
  "upd_thread t f s = do {
     th \<leftarrow> threads s t;
     Some (s\<lparr>threads := (threads s)(t \<mapsto> f th)\<rparr>)
   }"

definition emit :: "event \<Rightarrow> kernel \<Rightarrow> kernel" where
  "emit e s = s\<lparr>events := events s @ [e]\<rparr>"

definition push_frame :: "frame \<Rightarrow> kernel \<Rightarrow> kernel" where
  "push_frame f s = s\<lparr>frames := (frames s)(running s := f # frames s (running s))\<rparr>"

definition set_ret :: "int \<Rightarrow> kernel \<Rightarrow> kernel" where
  "set_ret r s = s\<lparr>retval := (retval s)(running s := r)\<rparr>"

section \<open>Interrupts\<close>

definition intr_get_level :: "kernel \<Rightarrow> intr_level" where
  "intr_get_level s = level s"

definition intr_context :: "kernel \<Rightarrow> bool" where
  "intr_context s = in_external_intr s"

definition intr_enable :: "kernel \<Rightarrow> kernel option" where
  "intr_enable s = do {
     ASSERT (\<not> intr_context s);
     Some (s\<lparr>level := INTR_ON\<rparr>)
   }"

definition intr_disable :: "kernel \<Rightarrow> kernel" where
  "intr_disable s = s\<lparr>level := INTR_OFF\<rparr>"

definition intr_set_level :: "intr_level \<Rightarrow> kernel \<Rightarrow> kernel option" where
  "intr_set_level l s = (if l = INTR_ON then intr_enable s else Some (intr_disable s))"

definition intr_yield_on_return :: "kernel \<Rightarrow> kernel option" where
  "intr_yield_on_return s = do {
     ASSERT (intr_context s);
     Some (s\<lparr>yield_on_return := True\<rparr>)
   }"

section \<open>Threads\<close>

definition running_thread :: "kernel \<Rightarrow> ptr" where
  "running_thread s = running s"

definition is_thread :: "ptr \<Rightarrow> kernel \<Rightarrow> bool option" where
  "is_thread t s = (if t = NULL then Some False else do {
     th \<leftarrow> threads s t;
     Some (magic th = THREAD_MAGIC)
   })"

definition thread_current :: "kernel \<Rightarrow> ptr option" where
  "thread_current s = do {
     let t = running_thread s;
     ok \<leftarrow> is_thread t s;
     ASSERT ok;
     th \<leftarrow> threads s t;
     ASSERT (status th = THREAD_RUNNING);
     Some t
   }"

definition thread_name :: "kernel \<Rightarrow> string option" where
  "thread_name s = do { t \<leftarrow> thread_current s; th \<leftarrow> threads s t; Some (tname th) }"

definition thread_tid :: "kernel \<Rightarrow> int option" where
  "thread_tid s = do { t \<leftarrow> thread_current s; th \<leftarrow> threads s t; Some (tid th) }"

definition thread_set_priority :: "int \<Rightarrow> kernel \<Rightarrow> kernel option" where
  "thread_set_priority p s = do { t \<leftarrow> thread_current s; upd_thread t (priority_update (\<lambda>_. p)) s }"

definition thread_get_priority :: "kernel \<Rightarrow> int option" where
  "thread_get_priority s = do { t \<leftarrow> thread_current s; th \<leftarrow> threads s t; Some (priority th) }"

definition thread_set_nice :: "int \<Rightarrow> kernel \<Rightarrow> kernel" where
  "thread_set_nice nice s = s"

definition thread_get_nice :: "kernel \<Rightarrow> int" where
  "thread_get_nice s = 0"

definition thread_get_load_avg :: "kernel \<Rightarrow> int" where
  "thread_get_load_avg s = 0"

definition thread_get_recent_cpu :: "kernel \<Rightarrow> int" where
  "thread_get_recent_cpu s = 0"

text \<open>The loops that search a list of threads, or of the records of a thread's children, for an identifier.\<close>

primrec find_thread :: "ptr list \<Rightarrow> int \<Rightarrow> kernel \<Rightarrow> ptr option" where
  "find_thread [] i s = Some NULL"
| "find_thread (t # ts) i s = do {
     th \<leftarrow> threads s t;
     if tid th = i then Some t else find_thread ts i s
   }"

definition get_thread_by_tid :: "int \<Rightarrow> kernel \<Rightarrow> ptr option" where
  "get_thread_by_tid i s = find_thread (all_list s) i s"

primrec find_node :: "ptr list \<Rightarrow> int \<Rightarrow> kernel \<Rightarrow> ptr option" where
  "find_node [] i s = Some NULL"
| "find_node (n # ns) i s = do {
     nd \<leftarrow> nodes s n;
     if node_tid nd = i then Some n else find_node ns i s
   }"

definition get_node_by_tid :: "int \<Rightarrow> kernel \<Rightarrow> ptr option" where
  "get_node_by_tid i s = do {
     cur \<leftarrow> thread_current s;
     th \<leftarrow> threads s cur;
     find_node (child_nodes th) i s
   }"

primrec foreach_loop :: "ptr list \<Rightarrow> (ptr \<Rightarrow> kernel \<Rightarrow> kernel option) \<Rightarrow> kernel \<Rightarrow> kernel option" where
  "foreach_loop [] func s = Some s"
| "foreach_loop (t # ts) func s = do { s \<leftarrow> func t s; foreach_loop ts func s }"

definition thread_foreach :: "(ptr \<Rightarrow> kernel \<Rightarrow> kernel option) \<Rightarrow> kernel \<Rightarrow> kernel option" where
  "thread_foreach func s = do {
     ASSERT (intr_get_level s = INTR_OFF);
     foreach_loop (all_list s) func s
   }"

text \<open>The structure a new thread starts with; the name keeps at most fifteen characters.\<close>

definition fresh_thread :: "ptr \<Rightarrow> string \<Rightarrow> int \<Rightarrow> thread" where
  "fresh_thread t name prio =
     \<lparr>tid = 0, status = THREAD_BLOCKED, tname = take 15 name, stack = t + PGSIZE, priority = prio,
      pagedir = NULL, next_fd = 2, tid_node_exists = False, executable = NULL, fd_list = [],
      tid_node = NULL, child_nodes = [], magic = THREAD_MAGIC\<rparr>"

text \<open>Offsets of the semaphores inside a thread, a child record and a lock.\<close>

definition load_sema :: "ptr \<Rightarrow> ptr" where "load_sema t = t + 80"
definition node_sema :: "ptr \<Rightarrow> ptr" where "node_sema n = n + 24"
definition lock_sema :: "ptr \<Rightarrow> ptr" where "lock_sema l = l + 4"

definition sema_init :: "ptr \<Rightarrow> u32 \<Rightarrow> kernel \<Rightarrow> kernel option" where
  "sema_init p v s = do {
     ASSERT (p \<noteq> NULL);
     Some (s\<lparr>semas := (semas s)(p := \<lparr>sema_value = v, waiters = []\<rparr>)\<rparr>)
   }"

text \<open>A name is absent when the caller passes the null pointer.\<close>

definition init_thread :: "ptr \<Rightarrow> string option \<Rightarrow> int \<Rightarrow> kernel \<Rightarrow> kernel option" where
  "init_thread t name prio s = do {
     ASSERT (t \<noteq> NULL);
     ASSERT (PRI_MIN \<le> prio \<and> prio \<le> PRI_MAX);
     name \<leftarrow> name;
     let s = s\<lparr>threads := (threads s)(t \<mapsto> fresh_thread t name prio)\<rparr>;
     let s = s\<lparr>all_list := all_list s @ [t]\<rparr>;
     sema_init (load_sema t) 0 s
   }"

text \<open>The result is the base of the frame and the state.\<close>

definition alloc_frame :: "ptr \<Rightarrow> nat \<Rightarrow> kernel \<Rightarrow> (nat \<times> kernel) option" where
  "alloc_frame t sz s = do {
     ok \<leftarrow> is_thread t s;
     ASSERT ok;
     ASSERT (sz mod 4 = 0);
     s \<leftarrow> upd_thread t (stack_update (\<lambda>p. p - sz)) s;
     th \<leftarrow> threads s t;
     Some (stack th, s)
   }"

section \<open>The scheduler\<close>

definition next_thread_to_run :: "kernel \<Rightarrow> ptr \<times> kernel" where
  "next_thread_to_run s = (case ready_list s of
     [] \<Rightarrow> (idle_thread s, s)
   | t # ts \<Rightarrow> (t, s\<lparr>ready_list := ts\<rparr>))"

definition process_activate :: "kernel \<Rightarrow> kernel option" where
  "process_activate s = do {
     t \<leftarrow> thread_current s;
     th \<leftarrow> threads s t;
     Some (emit (Tss_update (t + PGSIZE)) (emit (Pagedir_activate (pagedir th)) s))
   }"

definition palloc_free_thread :: "ptr \<Rightarrow> kernel \<Rightarrow> kernel" where
  "palloc_free_thread t s = emit (Free_page t) (s\<lparr>threads := (threads s)(t := None), frames := (frames s)(t := [])\<rparr>)"

definition thread_schedule_tail :: "ptr \<Rightarrow> kernel \<Rightarrow> kernel option" where
  "thread_schedule_tail prev s = do {
     let cur = running_thread s;
     ASSERT (intr_get_level s = INTR_OFF);
     s \<leftarrow> upd_thread cur (status_update (\<lambda>_. THREAD_RUNNING)) s;
     let s = s\<lparr>thread_ticks := 0\<rparr>;
     s \<leftarrow> process_activate s;
     if prev = NULL then Some s
     else do {
       p \<leftarrow> threads s prev;
       if status p = THREAD_DYING \<and> prev \<noteq> initial_thread s then do {
         ASSERT (prev \<noteq> cur);
         Some (palloc_free_thread prev s)
       } else Some s
     }
   }"

definition schedule :: "kernel \<Rightarrow> kernel option" where
  "schedule s = do {
     let cur = running_thread s;
     let (nxt, s) = next_thread_to_run s;
     ASSERT (intr_get_level s = INTR_OFF);
     c \<leftarrow> threads s cur;
     ASSERT (status c \<noteq> THREAD_RUNNING);
     ok \<leftarrow> is_thread nxt s;
     ASSERT ok;
     if cur \<noteq> nxt then thread_schedule_tail cur (s\<lparr>running := nxt\<rparr>)
     else thread_schedule_tail NULL s
   }"

definition thread_block :: "kernel \<Rightarrow> kernel option" where
  "thread_block s = do {
     ASSERT (\<not> intr_context s);
     ASSERT (intr_get_level s = INTR_OFF);
     t \<leftarrow> thread_current s;
     s \<leftarrow> upd_thread t (status_update (\<lambda>_. THREAD_BLOCKED)) s;
     schedule s
   }"

definition thread_unblock :: "ptr \<Rightarrow> kernel \<Rightarrow> kernel option" where
  "thread_unblock t s = do {
     ok \<leftarrow> is_thread t s;
     ASSERT ok;
     let old_level = intr_get_level s;
     let s = intr_disable s;
     th \<leftarrow> threads s t;
     ASSERT (status th = THREAD_BLOCKED);
     let s = s\<lparr>ready_list := ready_list s @ [t]\<rparr>;
     s \<leftarrow> upd_thread t (status_update (\<lambda>_. THREAD_READY)) s;
     intr_set_level old_level s
   }"

text \<open>The call returns when the thread is scheduled again; \<^const>\<open>Set_level\<close> is what it does then.\<close>

definition thread_yield :: "kernel \<Rightarrow> kernel option" where
  "thread_yield s = do {
     cur \<leftarrow> thread_current s;
     ASSERT (\<not> intr_context s);
     let old_level = intr_get_level s;
     let s = intr_disable s;
     let s = (if cur \<noteq> idle_thread s then s\<lparr>ready_list := ready_list s @ [cur]\<rparr> else s);
     s \<leftarrow> upd_thread cur (status_update (\<lambda>_. THREAD_READY)) s;
     schedule (push_frame (Set_level old_level) s)
   }"

definition thread_tick :: "kernel \<Rightarrow> kernel option" where
  "thread_tick s = do {
     t \<leftarrow> thread_current s;
     th \<leftarrow> threads s t;
     let s = (if t = idle_thread s then s\<lparr>idle_ticks := idle_ticks s + 1\<rparr>
              else if pagedir th \<noteq> NULL then s\<lparr>user_ticks := user_ticks s + 1\<rparr>
              else s\<lparr>kernel_ticks := kernel_ticks s + 1\<rparr>);
     let s = s\<lparr>thread_ticks := thread_ticks s + 1\<rparr>;
     if thread_ticks s \<ge> TIME_SLICE then intr_yield_on_return s else Some s
   }"

definition timer_interrupt :: "kernel \<Rightarrow> kernel option" where
  "timer_interrupt s = thread_tick (s\<lparr>ticks := ticks s + 1\<rparr>)"

text \<open>
  An external interrupt with the given handler, from its arrival to the return of \<open>intr_handler\<close>. The processor
  clears the interrupt flag on entry; the return restores it, which is \<^const>\<open>Intr_return\<close> when the handler
  has asked for another thread to run first.
\<close>

definition intr_handler :: "(kernel \<Rightarrow> kernel option) \<Rightarrow> kernel \<Rightarrow> kernel option" where
  "intr_handler handler s = do {
     let s = s\<lparr>level := INTR_OFF\<rparr>;
     ASSERT (intr_get_level s = INTR_OFF);
     ASSERT (\<not> intr_context s);
     let s = s\<lparr>in_external_intr := True, yield_on_return := False\<rparr>;
     s \<leftarrow> handler s;
     ASSERT (intr_get_level s = INTR_OFF);
     ASSERT (intr_context s);
     let s = s\<lparr>in_external_intr := False\<rparr>;
     if yield_on_return s then thread_yield (push_frame Intr_return s)
     else Some (s\<lparr>level := INTR_ON\<rparr>)
   }"

definition timer_ticks :: "kernel \<Rightarrow> (int \<times> kernel) option" where
  "timer_ticks s = do {
     let old_level = intr_get_level s;
     let s = intr_disable s;
     let t = ticks s;
     s \<leftarrow> intr_set_level old_level s;
     Some (t, s)
   }"

definition timer_elapsed :: "int \<Rightarrow> kernel \<Rightarrow> (int \<times> kernel) option" where
  "timer_elapsed t0 s = do {
     (t, s) \<leftarrow> timer_ticks s;
     Some (t - t0, s)
   }"

text \<open>The loop of \<open>timer_sleep\<close> is the frame \<^const>\<open>Sleep\<close>.\<close>

definition timer_sleep_loop :: "int \<Rightarrow> int \<Rightarrow> kernel \<Rightarrow> kernel option" where
  "timer_sleep_loop start n s = do {
     (e, s) \<leftarrow> timer_elapsed start s;
     if e < n then thread_yield (push_frame (Sleep start n) s) else Some s
   }"

definition timer_sleep :: "int \<Rightarrow> kernel \<Rightarrow> kernel option" where
  "timer_sleep n s = do {
     (start, s) \<leftarrow> timer_ticks s;
     ASSERT (intr_get_level s = INTR_ON);
     timer_sleep_loop start n s
   }"

end
