(* ===== verification/Ksynch.thy ===== *)
theory Ksynch
  imports Kthread
begin

text \<open>
  Semaphores, locks and condition variables (\<open>threads/synch.c\<close>). An operation that may sleep runs up to the
  point where the thread sleeps or has more to do after waking; the frames it leaves say what that is.
\<close>

section \<open>Semaphores\<close>

definition sema_down :: "ptr \<Rightarrow> kernel \<Rightarrow> kernel option" where
  "sema_down p s = do {
     ASSERT (p \<noteq> NULL);
     ASSERT (\<not> intr_context s);
     let old_level = intr_get_level s;
     Some (intr_disable (push_frame (Sema_down p old_level) s))
   }"

text \<open>One round of the loop of \<open>sema_down\<close>, and what follows the loop.\<close>

definition sema_down_loop :: "ptr \<Rightarrow> intr_level \<Rightarrow> kernel \<Rightarrow> kernel option" where
  "sema_down_loop p old_level s =
     (if sema_value (semas s p) = 0 then do {
        cur \<leftarrow> thread_current s;
        let s = s\<lparr>semas := (semas s)(p := waiters_update (\<lambda>ws. ws @ [cur]) (semas s p))\<rparr>;
        thread_block (push_frame (Sema_down p old_level) s)
      }
      else intr_set_level old_level (s\<lparr>semas := (semas s)(p := sema_value_update (\<lambda>v. v - 1) (semas s p))\<rparr>))"

definition sema_try_down :: "ptr \<Rightarrow> kernel \<Rightarrow> (bool \<times> kernel) option" where
  "sema_try_down p s = do {
     ASSERT (p \<noteq> NULL);
     let old_level = intr_get_level s;
     let s = intr_disable s;
     let (success, s) =
       (if sema_value (semas s p) > 0
        then (True, s\<lparr>semas := (semas s)(p := sema_value_update (\<lambda>v. v - 1) (semas s p))\<rparr>)
        else (False, s));
     s \<leftarrow> intr_set_level old_level s;
     Some (success, s)
   }"

definition sema_up :: "ptr \<Rightarrow> kernel \<Rightarrow> kernel option" where
  "sema_up p s = do {
     ASSERT (p \<noteq> NULL);
     let old_level = intr_get_level s;
     let s = intr_disable s;
     s \<leftarrow> (case waiters (semas s p) of
            [] \<Rightarrow> Some s
          | t # ts \<Rightarrow> thread_unblock t (s\<lparr>semas := (semas s)(p := (semas s p)\<lparr>waiters := ts\<rparr>)\<rparr>));
     let s = s\<lparr>semas := (semas s)(p := sema_value_update (\<lambda>v. v + 1) (semas s p))\<rparr>;
     intr_set_level old_level s
   }"

section \<open>Locks\<close>

definition lock_init :: "ptr \<Rightarrow> kernel \<Rightarrow> kernel option" where
  "lock_init l s = do {
     ASSERT (l \<noteq> NULL);
     sema_init (lock_sema l) 1 (s\<lparr>holders := (holders s)(l := NULL)\<rparr>)
   }"

definition lock_held_by_current_thread :: "ptr \<Rightarrow> kernel \<Rightarrow> bool option" where
  "lock_held_by_current_thread l s = do {
     ASSERT (l \<noteq> NULL);
     cur \<leftarrow> thread_current s;
     Some (holders s l = cur)
   }"

definition lock_acquire :: "ptr \<Rightarrow> kernel \<Rightarrow> kernel option" where
  "lock_acquire l s = do {
     ASSERT (l \<noteq> NULL);
     ASSERT (\<not> intr_context s);
     held \<leftarrow> lock_held_by_current_thread l s;
     ASSERT (\<not> held);
     sema_down (lock_sema l) (push_frame (Lock_take l) s)
   }"

text \<open>What \<open>lock_acquire\<close> does after its \<open>sema_down\<close>.\<close>

definition lock_take :: "ptr \<Rightarrow> kernel \<Rightarrow> kernel option" where
  "lock_take l s = do {
     cur \<leftarrow> thread_current s;
     Some (s\<lparr>holders := (holders s)(l := cur)\<rparr>)
   }"

definition lock_try_acquire :: "ptr \<Rightarrow> kernel \<Rightarrow> (bool \<times> kernel) option" where
  "lock_try_acquire l s = do {
     ASSERT (l \<noteq> NULL);
     held \<leftarrow> lock_held_by_current_thread l s;
     ASSERT (\<not> held);
     (success, s) \<leftarrow> sema_try_down (lock_sema l) s;
     s \<leftarrow> (if success then lock_take l s else Some s);
     Some (success, s)
   }"

definition lock_release :: "ptr \<Rightarrow> kernel \<Rightarrow> kernel option" where
  "lock_release l s = do {
     ASSERT (l \<noteq> NULL);
     held \<leftarrow> lock_held_by_current_thread l s;
     ASSERT held;
     sema_up (lock_sema l) (s\<lparr>holders := (holders s)(l := NULL)\<rparr>)
   }"

section \<open>Condition variables\<close>

definition cond_init :: "ptr \<Rightarrow> kernel \<Rightarrow> kernel option" where
  "cond_init c s = do {
     ASSERT (c \<noteq> NULL);
     Some (s\<lparr>conds := (conds s)(c := [])\<rparr>)
   }"

text \<open>The semaphore of the waiter lives in the frame of the caller, at address \<open>w\<close>.\<close>

definition cond_wait :: "ptr \<Rightarrow> ptr \<Rightarrow> ptr \<Rightarrow> kernel \<Rightarrow> kernel option" where
  "cond_wait c l w s = do {
     ASSERT (c \<noteq> NULL);
     ASSERT (l \<noteq> NULL);
     ASSERT (\<not> intr_context s);
     held \<leftarrow> lock_held_by_current_thread l s;
     ASSERT held;
     s \<leftarrow> sema_init w 0 s;
     let s = s\<lparr>conds := (conds s)(c := conds s c @ [w])\<rparr>;
     s \<leftarrow> lock_release l s;
     sema_down w (push_frame (Cond_acquire l) s)
   }"

definition cond_signal :: "ptr \<Rightarrow> ptr \<Rightarrow> kernel \<Rightarrow> kernel option" where
  "cond_signal c l s = do {
     ASSERT (c \<noteq> NULL);
     ASSERT (l \<noteq> NULL);
     ASSERT (\<not> intr_context s);
     held \<leftarrow> lock_held_by_current_thread l s;
     ASSERT held;
     (case conds s c of
        [] \<Rightarrow> Some s
      | w # ws \<Rightarrow> sema_up w (s\<lparr>conds := (conds s)(c := ws)\<rparr>))
   }"

text \<open>Every round takes one waiter from the list, so the number of waiters bounds the number of rounds.\<close>

primrec broadcast_loop :: "nat \<Rightarrow> ptr \<Rightarrow> ptr \<Rightarrow> kernel \<Rightarrow> kernel option" where
  "broadcast_loop 0 c l s = Some s"
| "broadcast_loop (Suc n) c l s =
     (if conds s c \<noteq> [] then do { s \<leftarrow> cond_signal c l s; broadcast_loop n c l s } else Some s)"

definition cond_broadcast :: "ptr \<Rightarrow> ptr \<Rightarrow> kernel \<Rightarrow> kernel option" where
  "cond_broadcast c l s = do {
     ASSERT (c \<noteq> NULL);
     ASSERT (l \<noteq> NULL);
     broadcast_loop (length (conds s c)) c l s
   }"

end
