(* ===== verification/Kprocess.thy ===== *)
theory Kprocess
  imports Ksynch
begin

text \<open>
  Creation and end of threads and processes: \<open>thread_init\<close>, \<open>thread_create\<close>, \<open>thread_exit\<close>, the idle thread
  (\<open>threads/thread.c\<close>), \<open>process_exit\<close> and \<open>process_wait\<close> (\<open>userprog/process.c\<close>). The addresses the page
  allocator and \<open>malloc\<close> return are arguments, the null pointer among them.
\<close>

text \<open>The two locks the kernel itself uses, at fixed addresses.\<close>

definition tid_lock :: ptr where "tid_lock = 0x1000"
definition file_lock :: ptr where "file_lock = 0x2000"

section \<open>Thread identifiers\<close>

definition allocate_tid :: "kernel \<Rightarrow> kernel option" where
  "allocate_tid s = lock_acquire tid_lock s"

text \<open>The rest of \<open>allocate_tid\<close>, once the lock is held.\<close>

definition allocate_tid_tail :: "kernel \<Rightarrow> (int \<times> kernel) option" where
  "allocate_tid_tail s = do {
     let i = next_tid s;
     let s = s\<lparr>next_tid := i + 1\<rparr>;
     s \<leftarrow> lock_release tid_lock s;
     Some (i, s)
   }"

section \<open>Creating threads\<close>

definition thread_init :: "kernel \<Rightarrow> kernel option" where
  "thread_init s = do {
     ASSERT (intr_get_level s = INTR_OFF);
     s \<leftarrow> lock_init tid_lock s;
     let s = s\<lparr>ready_list := [], all_list := []\<rparr>;
     let t = running_thread s;
     let s = s\<lparr>initial_thread := t\<rparr>;
     s \<leftarrow> init_thread t (Some ''main'') PRI_DEFAULT s;
     s \<leftarrow> upd_thread t (status_update (\<lambda>_. THREAD_RUNNING)) s;
     allocate_tid (push_frame Init_tail s)
   }"

definition thread_init_tail :: "kernel \<Rightarrow> kernel option" where
  "thread_init_tail s = do {
     (i, s) \<leftarrow> allocate_tid_tail s;
     upd_thread (initial_thread s) (tid_update (\<lambda>_. i)) s
   }"

text \<open>The page \<open>t\<close> comes from the page allocator, the child record \<open>n\<close> from \<open>malloc\<close>.\<close>

definition thread_create :: "string option \<Rightarrow> int \<Rightarrow> ptr \<Rightarrow> ptr \<Rightarrow> kernel \<Rightarrow> kernel option" where
  "thread_create name prio t n s =
     (if t = NULL then Some (set_ret TID_ERROR s)
      else do {
        s \<leftarrow> init_thread t name prio s;
        allocate_tid (push_frame (Create_tail t n) (s\<lparr>frames := (frames s)(t := [Kernel_thread])\<rparr>))
      })"

definition thread_create_tail :: "ptr \<Rightarrow> ptr \<Rightarrow> kernel \<Rightarrow> kernel option" where
  "thread_create_tail t n s = do {
     (i, s) \<leftarrow> allocate_tid_tail s;
     s \<leftarrow> upd_thread t (tid_update (\<lambda>_. i)) s;
     ASSERT (n \<noteq> NULL);
     s \<leftarrow> upd_thread t (tid_node_update (\<lambda>_. n)) s;
     let s = s\<lparr>nodes := (nodes s)(n \<mapsto> \<lparr>node_tid = i, child = t, exit_status = - 2, loaded = False, waiting = False\<rparr>)\<rparr>;
     s \<leftarrow> sema_init (node_sema n) 0 s;
     s \<leftarrow> upd_thread t (tid_node_exists_update (\<lambda>_. True)) s;
     let old_level = intr_get_level s;
     let s = intr_disable s;
     (_, s) \<leftarrow> alloc_frame t 12 s;
     (_, s) \<leftarrow> alloc_frame t 4 s;
     (_, s) \<leftarrow> alloc_frame t 28 s;
     s \<leftarrow> intr_set_level old_level s;
     s \<leftarrow> thread_unblock t s;
     Some (set_ret i s)
   }"

text \<open>\<open>thread_start\<close>, with the semaphore of its frame at address \<open>p\<close>.\<close>

definition thread_start :: "ptr \<Rightarrow> ptr \<Rightarrow> ptr \<Rightarrow> kernel \<Rightarrow> kernel option" where
  "thread_start p t n s = do {
     s \<leftarrow> sema_init p 0 s;
     thread_create (Some ''idle'') PRI_MIN t n (push_frame (Start_tail p) s)
   }"

definition thread_start_tail :: "ptr \<Rightarrow> kernel \<Rightarrow> kernel option" where
  "thread_start_tail p s = do {
     s \<leftarrow> intr_enable s;
     sema_down p s
   }"

text \<open>The first steps of the idle thread; it then repeats \<open>idle_round\<close>, and \<open>idle_halt\<close> whenever it is chosen.\<close>

definition idle :: "ptr \<Rightarrow> kernel \<Rightarrow> kernel option" where
  "idle idle_started s = do {
     cur \<leftarrow> thread_current s;
     let s = s\<lparr>idle_thread := cur\<rparr>;
     sema_up idle_started (push_frame Idle_loop s)
   }"

definition idle_round :: "kernel \<Rightarrow> kernel option" where
  "idle_round s = do {
     let s = intr_disable s;
     thread_block (push_frame Idle_halt s)
   }"

definition idle_halt :: "kernel \<Rightarrow> kernel option" where
  "idle_halt s = do {
     s \<leftarrow> intr_enable s;
     Some (push_frame Idle_loop s)
   }"

section \<open>The end of a process\<close>

definition exit_thread :: "kernel \<Rightarrow> kernel option" where
  "exit_thread s = do {
     let s = intr_disable s;
     cur \<leftarrow> thread_current s;
     let s = s\<lparr>all_list := remove1 cur (all_list s)\<rparr>;
     s \<leftarrow> upd_thread cur (status_update (\<lambda>_. THREAD_DYING)) s;
     schedule s
   }"

text \<open>\<open>process_exit\<close> up to its loop over the open files.\<close>

definition process_exit :: "kernel \<Rightarrow> kernel option" where
  "process_exit s = do {
     cur \<leftarrow> thread_current s;
     th \<leftarrow> threads s cur;
     let s = (if executable th \<noteq> NULL then emit (File_close (executable th)) s else s);
     nd \<leftarrow> nodes s (tid_node th);
     let s = (if exit_status nd < 0
              then emit (Exit_message (tname th) (- 1)) (s\<lparr>nodes := (nodes s)(tid_node th \<mapsto> nd\<lparr>exit_status := - 1\<rparr>)\<rparr>)
              else s);
     Some (push_frame Exit_files s)
   }"

definition thread_exit :: "kernel \<Rightarrow> kernel option" where
  "thread_exit s = do {
     ASSERT (\<not> intr_context s);
     process_exit s
   }"

text \<open>The loop of \<open>process_exit\<close> that gives up the records of the children of \<open>cur\<close>.\<close>

primrec exit_children :: "ptr list \<Rightarrow> ptr \<Rightarrow> kernel \<Rightarrow> kernel option" where
  "exit_children [] cur s = Some s"
| "exit_children (n # ns) cur s = do {
     nd \<leftarrow> nodes s n;
     th \<leftarrow> threads s cur;
     s \<leftarrow> (if child nd \<noteq> NULL then do {
             own \<leftarrow> nodes s (tid_node th);
             upd_thread (child own) (tid_node_exists_update (\<lambda>_. False)) s
           } else Some s);
     s \<leftarrow> upd_thread cur (child_nodes_update (\<lambda>_. ns)) s;
     exit_children ns cur (emit (Free n) (s\<lparr>nodes := (nodes s)(n := None)\<rparr>))
   }"

text \<open>\<open>process_exit\<close> after its loop over the open files.\<close>

definition process_exit_tail :: "kernel \<Rightarrow> kernel option" where
  "process_exit_tail s = do {
     cur \<leftarrow> thread_current s;
     th \<leftarrow> threads s cur;
     s \<leftarrow> exit_children (child_nodes th) cur s;
     th \<leftarrow> threads s cur;
     s \<leftarrow> (if tid_node_exists th then do {
             nd \<leftarrow> nodes s (tid_node th);
             Some (s\<lparr>nodes := (nodes s)(tid_node th \<mapsto> nd\<lparr>child := NULL\<rparr>)\<rparr>)
           } else Some s);
     s \<leftarrow> sema_up (node_sema (tid_node th)) s;
     let pd = pagedir th;
     if pd \<noteq> NULL then do {
       s \<leftarrow> upd_thread cur (pagedir_update (\<lambda>_. NULL)) s;
       Some (emit (Pagedir_destroy pd) (emit (Pagedir_activate NULL) s))
     } else Some s
   }"

text \<open>The loop over the open files; when none is left the thread ends.\<close>

definition exit_files :: "kernel \<Rightarrow> kernel option" where
  "exit_files s = do {
     cur \<leftarrow> thread_current s;
     th \<leftarrow> threads s cur;
     if fd_list th \<noteq> [] then lock_acquire file_lock (push_frame Exit_close s)
     else do {
       s \<leftarrow> process_exit_tail s;
       exit_thread s
     }
   }"

definition exit_close :: "kernel \<Rightarrow> kernel option" where
  "exit_close s = do {
     cur \<leftarrow> thread_current s;
     th \<leftarrow> threads s cur;
     (case fd_list th of
        [] \<Rightarrow> None
      | e # es \<Rightarrow> do {
          s \<leftarrow> lock_release file_lock (emit (File_close (the_file e)) s);
          s \<leftarrow> upd_thread cur (fd_list_update (\<lambda>_. es)) s;
          Some (push_frame Exit_files (emit (Free_fd e) (emit (Free (filename e)) s)))
        })
   }"

section \<open>Waiting for a child\<close>

definition process_wait :: "int \<Rightarrow> kernel \<Rightarrow> kernel option" where
  "process_wait child_tid s = do {
     cur \<leftarrow> thread_current s;
     th \<leftarrow> threads s cur;
     if child_nodes th = [] then Some (set_ret (- 1) s)
     else do {
       n \<leftarrow> find_node (child_nodes th) child_tid s;
       if n = NULL then Some (set_ret (- 1) s)
       else do {
         nd \<leftarrow> nodes s n;
         if waiting nd then Some (set_ret (- 1) s)
         else sema_down (node_sema n) (push_frame (Wait_tail n) s)
       }
     }
   }"

text \<open>\<open>process_wait\<close> after the child has ended. The record is freed, and then the code sets its member \<open>waiting\<close>: the
  event \<open>Write_freed\<close> stands for this write to freed memory. It changes no live object as long as nothing else has
  been given the block in between.\<close>

definition process_wait_tail :: "ptr \<Rightarrow> kernel \<Rightarrow> kernel option" where
  "process_wait_tail n s = do {
     cur \<leftarrow> thread_current s;
     nd \<leftarrow> nodes s n;
     s \<leftarrow> upd_thread cur (child_nodes_update (remove1 n)) s;
     let s = emit (Free n) (s\<lparr>nodes := (nodes s)(n := None)\<rparr>);
     let s = emit (Write_freed n) s;
     Some (set_ret (exit_status nd) s)
   }"

section \<open>Starting a process\<close>

text \<open>The first token of a command line, delimited by blanks, as \<open>strtok_r\<close> finds it.\<close>

definition first_token :: "string \<Rightarrow> string option" where
  "first_token cmd = (case dropWhile (\<lambda>c. c = CHR '' '') cmd of
     [] \<Rightarrow> None
   | c # cs \<Rightarrow> Some (c # takeWhile (\<lambda>c. c \<noteq> CHR '' '') cs))"

text \<open>The pages \<open>p1\<close> and \<open>p2\<close> hold the two copies of the command line.\<close>

definition process_execute :: "string \<Rightarrow> ptr \<Rightarrow> ptr \<Rightarrow> ptr \<Rightarrow> ptr \<Rightarrow> kernel \<Rightarrow> kernel option" where
  "process_execute cmd_line p1 p2 t n s = do {
     cur \<leftarrow> thread_current s;
     if p1 = NULL \<or> p2 = NULL then Some (set_ret TID_ERROR s)
     else do {
       let file_name = first_token (take (PGSIZE - 1) cmd_line);
       thread_create file_name PRI_DEFAULT t n (push_frame (Exec_created p1 p2) s)
     }
   }"

definition exec_created :: "ptr \<Rightarrow> ptr \<Rightarrow> kernel \<Rightarrow> kernel option" where
  "exec_created p1 p2 s = do {
     let i = retval s (running s);
     let s = emit (Free_page p1) s;
     if i = TID_ERROR then Some (set_ret TID_ERROR (emit (Free_page p2) s))
     else do {
       c \<leftarrow> get_thread_by_tid i s;
       if c = NULL then Some (set_ret TID_ERROR s)
       else do {
         th \<leftarrow> threads s c;
         sema_down (load_sema c) (push_frame (Exec_tail (tid_node th) i) s)
       }
     }
   }"

definition exec_tail :: "ptr \<Rightarrow> int \<Rightarrow> kernel \<Rightarrow> kernel option" where
  "exec_tail n i s = do {
     nd \<leftarrow> nodes s n;
     if loaded nd then do {
       s \<leftarrow> upd_thread (running s) (child_nodes_update (\<lambda>ns. ns @ [n])) s;
       Some (set_ret i s)
     } else Some (set_ret TID_ERROR s)
   }"

text \<open>The new process once \<open>load\<close> has returned.\<close>

definition start_process_tail :: "bool \<Rightarrow> kernel \<Rightarrow> kernel option" where
  "start_process_tail success s = do {
     cur \<leftarrow> thread_current s;
     th \<leftarrow> threads s cur;
     s \<leftarrow> (if success then do {
             nd \<leftarrow> nodes s (tid_node th);
             Some (s\<lparr>nodes := (nodes s)(tid_node th \<mapsto> nd\<lparr>loaded := True\<rparr>)\<rparr>)
           } else Some s);
     s \<leftarrow> sema_up (load_sema cur) s;
     if \<not> success then thread_exit s else Some s
   }"

section \<open>Running the frames of a thread\<close>

definition kernel_thread :: "kernel \<Rightarrow> kernel option" where
  "kernel_thread s = intr_enable s"

fun run_frame :: "frame \<Rightarrow> kernel \<Rightarrow> kernel option" where
  "run_frame (Sema_down p l) s = sema_down_loop p l s"
| "run_frame (Lock_take l) s = lock_take l s"
| "run_frame (Cond_acquire l) s = lock_acquire l s"
| "run_frame (Set_level l) s = intr_set_level l s"
| "run_frame Intr_return s = Some (s\<lparr>level := INTR_ON\<rparr>)"
| "run_frame Kernel_thread s = kernel_thread s"
| "run_frame Idle_loop s = idle_round s"
| "run_frame Idle_halt s = idle_halt s"
| "run_frame (Create_tail t n) s = thread_create_tail t n s"
| "run_frame Init_tail s = thread_init_tail s"
| "run_frame Exit_files s = exit_files s"
| "run_frame Exit_close s = exit_close s"
| "run_frame (Exec_created p1 p2) s = exec_created p1 p2 s"
| "run_frame (Exec_tail n i) s = exec_tail n i s"
| "run_frame (Wait_tail n) s = process_wait_tail n s"
| "run_frame (Start_tail p) s = thread_start_tail p s"
| "run_frame (Sleep start n) s = timer_sleep_loop start n s"

end
