(* ===== verification/Kernel.thy ===== *)
theory Kernel
  imports Kprocess
begin

text \<open>
  The running system as a step relation: the running thread executes the innermost frame it has left, or,
  outside the kernel, makes any call; between two such steps an external interrupt may arrive if interrupts are on.
  A call that does not sleep, and the part of a call between two points where it is split, is one step: an interrupt
  that arrives inside it is not modelled. Invariants hold in every state reachable from the initialisation of the thread
  system.
\<close>

section \<open>Calls and steps\<close>

datatype call =
  Call_yield
| Call_sema_init ptr u32
| Call_sema_down ptr
| Call_sema_try_down ptr
| Call_sema_up ptr
| Call_lock_init ptr
| Call_lock_acquire ptr
| Call_lock_try_acquire ptr
| Call_lock_release ptr
| Call_cond_init ptr
| Call_cond_wait ptr ptr ptr
| Call_cond_signal ptr ptr
| Call_cond_broadcast ptr ptr
| Call_create "string option" int ptr ptr
| Call_start ptr ptr ptr
| Call_execute string ptr ptr ptr ptr
| Call_loaded bool
| Call_wait int
| Call_exit
| Call_idle ptr
| Call_sleep int
| Call_set_priority int

fun do_call :: "call \<Rightarrow> kernel \<Rightarrow> kernel option" where
  "do_call Call_yield s = thread_yield s"
| "do_call (Call_sema_init p v) s = sema_init p v s"
| "do_call (Call_sema_down p) s = sema_down p s"
| "do_call (Call_sema_try_down p) s = map_option snd (sema_try_down p s)"
| "do_call (Call_sema_up p) s = sema_up p s"
| "do_call (Call_lock_init l) s = lock_init l s"
| "do_call (Call_lock_acquire l) s = lock_acquire l s"
| "do_call (Call_lock_try_acquire l) s = map_option snd (lock_try_acquire l s)"
| "do_call (Call_lock_release l) s = lock_release l s"
| "do_call (Call_cond_init c) s = cond_init c s"
| "do_call (Call_cond_wait c l w) s = cond_wait c l w s"
| "do_call (Call_cond_signal c l) s = cond_signal c l s"
| "do_call (Call_cond_broadcast c l) s = cond_broadcast c l s"
| "do_call (Call_create name prio t n) s = thread_create name prio t n s"
| "do_call (Call_start p t n) s = thread_start p t n s"
| "do_call (Call_execute cmd p1 p2 t n) s = process_execute cmd p1 p2 t n s"
| "do_call (Call_loaded ok) s = start_process_tail ok s"
| "do_call (Call_wait i) s = process_wait i s"
| "do_call Call_exit s = thread_exit s"
| "do_call (Call_idle p) s = idle p s"
| "do_call (Call_sleep n) s = timer_sleep n s"
| "do_call (Call_set_priority p) s = thread_set_priority p s"

text \<open>The status of a thread, and what the invariants read of its structure.\<close>

definition tview :: "kernel \<Rightarrow> ptr \<Rightarrow> (thread_status \<times> ptr \<times> ptr list) option" where
  "tview s t = map_option (\<lambda>th. (status th, tid_node th, child_nodes th)) (threads s t)"

definition st :: "kernel \<Rightarrow> ptr \<Rightarrow> thread_status option" where
  "st s t = map_option fst (tview s t)"

text \<open>The number of locks \<open>l\<close> a list of frames has taken from the semaphore and not yet entered as holder.\<close>

definition waits :: "ptr \<Rightarrow> frame option \<Rightarrow> bool" where
  "waits l f \<longleftrightarrow> (\<exists>lv. f = Some (Sema_down (lock_sema l) lv))"

primrec tok_after :: "ptr \<Rightarrow> frame option \<Rightarrow> frame list \<Rightarrow> nat" where
  "tok_after l prev [] = 0"
| "tok_after l prev (f # fs) = (if f = Lock_take l \<and> \<not> waits l prev then 1 else 0) + tok_after l (Some f) fs"

abbreviation tok :: "ptr \<Rightarrow> frame list \<Rightarrow> nat" where
  "tok l fs \<equiv> tok_after l None fs"

text \<open>
  The set \<open>L\<close> contains the addresses of the locks. The calls a program may make: semaphores of locks are only
  used through their lock, a lock is not initialised while it is held or about to be held, the page of a new
  thread is not that of another thread, and one thread becomes the idle thread.
\<close>

definition fresh_page :: "ptr set \<Rightarrow> ptr \<Rightarrow> ptr \<Rightarrow> kernel \<Rightarrow> bool" where
  "fresh_page L t n s \<longleftrightarrow> t = NULL \<or>
     threads s t = None \<and> frames s t = [] \<and> load_sema t \<notin> lock_sema ` L \<and> node_sema n \<notin> lock_sema ` L"

fun allowed :: "ptr set \<Rightarrow> call \<Rightarrow> kernel \<Rightarrow> bool" where
  "allowed L (Call_sema_init p v) s \<longleftrightarrow> p \<notin> lock_sema ` L"
| "allowed L (Call_sema_down p) s \<longleftrightarrow> p \<notin> lock_sema ` L"
| "allowed L (Call_sema_try_down p) s \<longleftrightarrow> p \<notin> lock_sema ` L"
| "allowed L (Call_sema_up p) s \<longleftrightarrow> p \<notin> lock_sema ` L"
| "allowed L (Call_lock_init l) s \<longleftrightarrow>
     l \<in> L \<and> holders s l = NULL \<and> (\<forall>t. tok l (frames s t) = 0)"
| "allowed L (Call_lock_acquire l) s \<longleftrightarrow> l \<in> L"
| "allowed L (Call_lock_try_acquire l) s \<longleftrightarrow> l \<in> L"
| "allowed L (Call_lock_release l) s \<longleftrightarrow> l \<in> L"
| "allowed L (Call_cond_wait c l w) s \<longleftrightarrow> l \<in> L \<and> w \<notin> lock_sema ` L"
| "allowed L (Call_cond_signal c l) s \<longleftrightarrow> l \<in> L"
| "allowed L (Call_cond_broadcast c l) s \<longleftrightarrow> l \<in> L"
| "allowed L (Call_create name prio t n) s \<longleftrightarrow> fresh_page L t n s"
| "allowed L (Call_start p t n) s \<longleftrightarrow> p \<notin> lock_sema ` L \<and> fresh_page L t n s"
| "allowed L (Call_execute cmd p1 p2 t n) s \<longleftrightarrow> fresh_page L t n s"
| "allowed L (Call_idle p) s \<longleftrightarrow> idle_thread s = NULL \<and> p \<notin> lock_sema ` L"
| "allowed L _ s \<longleftrightarrow> True"

inductive kstep :: "ptr set \<Rightarrow> kernel \<Rightarrow> kernel \<Rightarrow> bool" for L where
  frame: "frames s (running s) = f # fs \<Longrightarrow>
    run_frame f (s\<lparr>frames := (frames s)(running s := fs)\<rparr>) = Some s' \<Longrightarrow> kstep L s s'"
| call: "frames s (running s) = [] \<Longrightarrow> allowed L c s \<Longrightarrow> do_call c s = Some s' \<Longrightarrow> kstep L s s'"
| tick: "level s = INTR_ON \<Longrightarrow> intr_handler timer_interrupt s = Some s' \<Longrightarrow> kstep L s s'"
| device: "level s = INTR_ON \<Longrightarrow> p \<notin> lock_sema ` L \<Longrightarrow> intr_handler (sema_up p) s = Some s' \<Longrightarrow> kstep L s s'"

text \<open>The state at the start of the kernel: memory is zero, and the boot code runs in the page \<open>t\<close>.\<close>

definition boot :: "ptr \<Rightarrow> kernel" where
  "boot t = \<lparr>threads = (\<lambda>_. None), nodes = (\<lambda>_. None), semas = (\<lambda>_. \<lparr>sema_value = 0, waiters = []\<rparr>),
     holders = (\<lambda>_. NULL), conds = (\<lambda>_. []), ready_list = [], all_list = [], idle_thread = NULL,
     initial_thread = NULL, running = t, level = INTR_OFF, in_external_intr = False, yield_on_return = False,
     ticks = 0, idle_ticks = 0, kernel_ticks = 0, user_ticks = 0, thread_ticks = 0, next_tid = 1,
     retval = (\<lambda>_. 0), frames = (\<lambda>_. []), events = []\<rparr>"

text \<open>What is assumed of the set of lock addresses: it has the two locks of the kernel, and no lock is where the
  semaphore of a child record at the null pointer would be.\<close>

definition valid_locks :: "ptr set \<Rightarrow> bool" where
  "valid_locks L \<longleftrightarrow> tid_lock \<in> L \<and> file_lock \<in> L \<and> node_sema NULL \<notin> lock_sema ` L"

inductive reachable :: "ptr set \<Rightarrow> kernel \<Rightarrow> bool" for L where
  init: "thread_init (boot t) = Some s \<Longrightarrow> load_sema t \<notin> lock_sema ` L \<Longrightarrow> reachable L s"
| step: "reachable L s \<Longrightarrow> kstep L s s' \<Longrightarrow> reachable L s'"

inductive_cases kstepE: "kstep L s s'"

section \<open>The invariant\<close>

definition quiet :: "frame \<Rightarrow> bool" where
  "quiet f \<longleftrightarrow> (\<exists>l. f = Set_level l) \<or> f = Intr_return"

definition is_create :: "frame \<Rightarrow> bool" where
  "is_create f \<longleftrightarrow> (\<exists>t n. f = Create_tail t n)"

text \<open>The run queue holds exactly the ready threads other than the idle thread, each once.\<close>

definition queue_ok :: "kernel \<Rightarrow> bool" where
  "queue_ok s \<longleftrightarrow> distinct (ready_list s) \<and>
     (\<forall>t. t \<in> set (ready_list s) \<longleftrightarrow> st s t = Some THREAD_READY \<and> t \<noteq> idle_thread s)"

text \<open>A thread in the wait list of a semaphore is blocked, and inside \<open>sema_down\<close> on that semaphore.\<close>

definition sleepers_ok :: "kernel \<Rightarrow> bool" where
  "sleepers_ok s \<longleftrightarrow> (\<forall>p. distinct (waiters (semas s p)) \<and>
     (\<forall>t\<in>set (waiters (semas s p)). st s t = Some THREAD_BLOCKED \<and> (\<exists>lv fs. frames s t = Sema_down p lv # fs)))"

definition idle_ok :: "kernel \<Rightarrow> bool" where
  "idle_ok s \<longleftrightarrow> st s NULL = None \<and> (idle_thread s \<noteq> NULL \<longrightarrow>
     (\<exists>qs f. frames s (idle_thread s) = qs @ [f] \<and> list_all quiet qs \<and> (f = Idle_loop \<or> f = Idle_halt)) \<and>
     st s (idle_thread s) \<noteq> None \<and> st s (idle_thread s) \<noteq> Some THREAD_DYING)"

text \<open>A thread under creation has not run and belongs to one creator.\<close>

definition create_ok :: "kernel \<Rightarrow> bool" where
  "create_ok s \<longleftrightarrow> (\<forall>u. length (filter is_create (frames s u)) \<le> 1) \<and>
     (\<forall>u t n. Create_tail t n \<in> set (frames s u) \<longrightarrow>
        frames s t = [Kernel_thread] \<and> st s t = Some THREAD_BLOCKED \<and>
        (\<forall>v n'. Create_tail t n' \<in> set (frames s v) \<longrightarrow> v = u))"

text \<open>At most one of: the semaphore of a lock is up, the lock has a holder, a thread is about to become holder.\<close>

definition lock_ok :: "u32 \<Rightarrow> ptr \<Rightarrow> (ptr \<Rightarrow> nat) \<Rightarrow> bool" where
  "lock_ok v h tk \<longleftrightarrow> (v = 0 \<or> v = 1 \<and> h = NULL \<and> (\<forall>u. tk u = 0)) \<and> (h \<noteq> NULL \<longrightarrow> (\<forall>u. tk u = 0)) \<and>
     (\<exists>w. \<forall>u. tk u \<le> (if u = w then 1 else 0))"

definition locks_ok :: "ptr set \<Rightarrow> kernel \<Rightarrow> bool" where
  "locks_ok L s \<longleftrightarrow>
     (\<forall>l\<in>L. lock_ok (sema_value (semas s (lock_sema l))) (holders s l) (\<lambda>u. tok l (frames s u)))"

text \<open>A thread inside \<open>sema_down\<close> on the semaphore of a lock got there from \<open>lock_acquire\<close>.\<close>

fun chain_ok :: "ptr set \<Rightarrow> frame list \<Rightarrow> bool" where
  "chain_ok L [] \<longleftrightarrow> True"
| "chain_ok L (Sema_down p lv # fs) \<longleftrightarrow>
     (p \<in> lock_sema ` L \<longrightarrow> (\<exists>l fs'. fs = Lock_take l # fs' \<and> lock_sema l = p)) \<and> chain_ok L fs"
| "chain_ok L (f # fs) \<longleftrightarrow> chain_ok L fs"

fun frame_ok :: "ptr set \<Rightarrow> frame \<Rightarrow> bool" where
  "frame_ok L (Lock_take l) \<longleftrightarrow> l \<in> L"
| "frame_ok L (Cond_acquire l) \<longleftrightarrow> l \<in> L"
| "frame_ok L (Create_tail t n) \<longleftrightarrow> node_sema n \<notin> lock_sema ` L"
| "frame_ok L (Exec_tail n i) \<longleftrightarrow> node_sema n \<notin> lock_sema ` L"
| "frame_ok L (Start_tail p) \<longleftrightarrow> p \<notin> lock_sema ` L"
| "frame_ok L _ \<longleftrightarrow> True"

definition frames_ok :: "ptr set \<Rightarrow> kernel \<Rightarrow> bool" where
  "frames_ok L s \<longleftrightarrow> (\<forall>u. chain_ok L (frames s u) \<and> list_all (frame_ok L) (frames s u))"

text \<open>The semaphores of threads, child records and waiting threads are not semaphores of locks.\<close>

definition ref_ok :: "ptr set \<Rightarrow> ptr \<Rightarrow> ptr \<Rightarrow> ptr list \<Rightarrow> bool" where
  "ref_ok L t n ns \<longleftrightarrow> load_sema t \<notin> lock_sema ` L \<and> node_sema n \<notin> lock_sema ` L \<and> node_sema ` set ns \<inter> lock_sema ` L = {}"

definition refs_ok :: "ptr set \<Rightarrow> kernel \<Rightarrow> bool" where
  "refs_ok L s \<longleftrightarrow> (\<forall>c. set (conds s c) \<inter> lock_sema ` L = {}) \<and>
     (\<forall>t a n ns. tview s t = Some (a, n, ns) \<longrightarrow> ref_ok L t n ns)"

definition base_ok :: "ptr set \<Rightarrow> kernel \<Rightarrow> bool" where
  "base_ok L s \<longleftrightarrow> queue_ok s \<and> sleepers_ok s \<and> idle_ok s \<and> create_ok s \<and> locks_ok L s \<and> frames_ok L s \<and> refs_ok L s"

definition kernel_ok :: "ptr set \<Rightarrow> kernel \<Rightarrow> bool" where
  "kernel_ok L s \<longleftrightarrow> base_ok L s \<and> (\<forall>t. st s t = Some THREAD_RUNNING \<longleftrightarrow> t = running s)"


section \<open>What the invariant depends on\<close>

definition core ::
    "kernel \<Rightarrow> (ptr \<Rightarrow> (thread_status \<times> ptr \<times> ptr list) option) \<times> ptr \<times> ptr list \<times> ptr \<times> (ptr \<Rightarrow> semaphore) \<times>
       (ptr \<Rightarrow> frame list) \<times> (ptr \<Rightarrow> ptr) \<times> (ptr \<Rightarrow> ptr list)" where
  "core s = (tview s, running s, ready_list s, idle_thread s, semas s, frames s, holders s, conds s)"

lemmas inv_defs = queue_ok_def sleepers_ok_def idle_ok_def create_ok_def locks_ok_def frames_ok_def refs_ok_def

lemma core_eqD:
  assumes "core s = core s'"
  shows "tview s = tview s'" "running s = running s'" "ready_list s = ready_list s'" "idle_thread s = idle_thread s'"
    "semas s = semas s'" "frames s = frames s'" "holders s = holders s'" "conds s = conds s'" "st s = st s'"
  using assms by (auto simp: core_def st_def fun_eq_iff)

lemma base_ok_core: "core s = core s' \<Longrightarrow> base_ok L s \<longleftrightarrow> base_ok L s'"
  unfolding base_ok_def inv_defs by (simp add: core_eqD[of s s'])

lemma kernel_ok_core: "core s = core s' \<Longrightarrow> kernel_ok L s \<longleftrightarrow> kernel_ok L s'"
  unfolding kernel_ok_def using base_ok_core[of s s' L] by (simp add: core_eqD[of s s'])

lemma core_neutral [simp]:
  "core (emit e s) = core s" "core (set_ret r s) = core s" "core (s\<lparr>level := l\<rparr>) = core s"
  "core (s\<lparr>events := ev\<rparr>) = core s"
  "core (s\<lparr>thread_ticks := k\<rparr>) = core s" "core (s\<lparr>nodes := nn\<rparr>) = core s" "core (s\<lparr>all_list := al\<rparr>) = core s"
  "core (s\<lparr>ticks := tk\<rparr>) = core s" "core (s\<lparr>idle_ticks := tk\<rparr>) = core s" "core (s\<lparr>user_ticks := tk\<rparr>) = core s"
  "core (s\<lparr>kernel_ticks := tk\<rparr>) = core s" "core (s\<lparr>next_tid := i\<rparr>) = core s" "core (s\<lparr>initial_thread := it\<rparr>) = core s"
  "core (s\<lparr>in_external_intr := ie\<rparr>) = core s" "core (s\<lparr>yield_on_return := yr\<rparr>) = core s"
  "core (intr_disable s) = core s"
  by (simp_all add: core_def tview_def fun_eq_iff emit_def set_ret_def intr_disable_def)

lemma kernel_ok_neutral:
  assumes "core s' = core s" "kernel_ok L s"
  shows "kernel_ok L s'"
  using assms kernel_ok_core by blast

lemma fields_neutral [simp]:
  "st (emit e s) = st s" "running (emit e s) = running s" "frames (emit e s) = frames s" "threads (emit e s) = threads s"
  "st (set_ret r s) = st s" "running (set_ret r s) = running s" "frames (set_ret r s) = frames s"
  "st (intr_disable s) = st s" "running (intr_disable s) = running s" "frames (intr_disable s) = frames s"
  "threads (intr_disable s) = threads s" "semas (intr_disable s) = semas s" "semas (emit e s) = semas s"
  "ready_list (intr_disable s) = ready_list s" "idle_thread (intr_disable s) = idle_thread s"
  by (simp_all add: emit_def set_ret_def intr_disable_def st_def tview_def fun_eq_iff)

lemma core_intr_enable [dest]: "intr_enable s = Some s' \<Longrightarrow> core s' = core s"
  by (auto simp: intr_enable_def bind_eq_Some_conv)

lemma core_intr_set_level [dest]: "intr_set_level l s = Some s' \<Longrightarrow> core s' = core s"
  by (auto simp: intr_set_level_def split: if_splits)

text \<open>The status of a thread set, as \<open>upd_thread\<close> sets it.\<close>

definition set_st :: "ptr \<Rightarrow> thread_status \<Rightarrow> kernel \<Rightarrow> kernel" where
  "set_st t x s = s\<lparr>threads := (threads s)(t := map_option (status_update (\<lambda>_. x)) (threads s t))\<rparr>"

lemma upd_status: "upd_thread t (status_update (\<lambda>_. x)) s = Some s' \<longleftrightarrow> st s t \<noteq> None \<and> s' = set_st t x s"
  by (auto simp: upd_thread_def set_st_def st_def tview_def bind_eq_Some_conv)

lemma set_st_fields [simp]:
  "running (set_st t x s) = running s" "ready_list (set_st t x s) = ready_list s"
  "idle_thread (set_st t x s) = idle_thread s" "semas (set_st t x s) = semas s" "frames (set_st t x s) = frames s"
  "holders (set_st t x s) = holders s" "conds (set_st t x s) = conds s" "level (set_st t x s) = level s"
  "in_external_intr (set_st t x s) = in_external_intr s"
  by (simp_all add: set_st_def)

lemma tview_set_st: "tview (set_st t x s) u = (if u = t then map_option (\<lambda>(_, n, ns). (x, n, ns)) (tview s t) else tview s u)"
  by (auto simp: set_st_def tview_def map_option_case split: option.splits)

lemma st_set_st [simp]: "st (set_st t x s) u = (if u = t \<and> st s t \<noteq> None then Some x else st s u)"
  by (auto simp: st_def tview_set_st map_option_case split: option.splits prod.splits)

lemma refs_ok_alt:
  "refs_ok L s \<longleftrightarrow> (\<forall>c. set (conds s c) \<inter> lock_sema ` L = {}) \<and>
     (\<forall>t n ns. (\<exists>a. tview s t = Some (a, n, ns)) \<longrightarrow> ref_ok L t n ns)"
  unfolding refs_ok_def by blast

lemma refs_ok_set_st [simp]: "refs_ok L (set_st t x s) \<longleftrightarrow> refs_ok L s"
proof -
  have "(\<exists>a. tview (set_st t x s) u = Some (a, n, ns)) \<longleftrightarrow> (\<exists>a. tview s u = Some (a, n, ns))" for u n ns
    by (auto simp: tview_set_st split: if_splits)
  then show ?thesis by (simp only: refs_ok_alt set_st_fields)
qed

lemma thread_currentD: "thread_current s = Some t \<Longrightarrow> t = running s \<and> t \<noteq> NULL \<and> st s t = Some THREAD_RUNNING"
  by (auto simp: thread_current_def bind_eq_Some_conv running_thread_def is_thread_def st_def tview_def Let_def split: if_splits)

end
