(* ===== verification/Kernel_Inv.thy ===== *)
theory Kernel_Inv
  imports Kernel
begin

text \<open>
  Every step of the running system keeps the invariant of the thread system, so it holds in every reachable
  state: the run queue and the wait lists are disjoint, one thread runs, and a lock has at most one owner.
\<close>

section \<open>The scheduler keeps the invariant\<close>

lemma base_okD:
  assumes "base_ok L s"
  shows "queue_ok s" "sleepers_ok s" "idle_ok s" "create_ok s" "locks_ok L s" "frames_ok L s" "refs_ok L s"
  using assms by (simp_all add: base_ok_def)

lemma create_okI:
  assumes "\<And>u. length (filter is_create (frames s u)) \<le> 1"
    and "\<And>u t n. Create_tail t n \<in> set (frames s u) \<Longrightarrow> frames s t = [Kernel_thread] \<and> st s t = Some THREAD_BLOCKED"
    and "\<And>u v t n n'. Create_tail t n \<in> set (frames s u) \<Longrightarrow> Create_tail t n' \<in> set (frames s v) \<Longrightarrow> v = u"
  shows "create_ok s"
  unfolding create_ok_def
proof (intro conjI allI impI)
  show "length (filter is_create (frames s u)) \<le> 1" for u
    by (rule assms(1))
  fix u t n
  assume a: "Create_tail t n \<in> set (frames s u)"
  show "frames s t = [Kernel_thread]" "st s t = Some THREAD_BLOCKED"
    using assms(2)[OF a] by (rule conjunct1, rule conjunct2)
  show "v = u" if "Create_tail t n' \<in> set (frames s v)" for v n'
    using assms(3)[OF a that] .
qed

lemma createD:
  assumes "create_ok s"
  shows "length (filter is_create (frames s u)) \<le> 1"
    and "Create_tail t n \<in> set (frames s u) \<Longrightarrow> frames s t = [Kernel_thread] \<and> st s t = Some THREAD_BLOCKED"
    and "Create_tail t n \<in> set (frames s u) \<Longrightarrow> Create_tail t n' \<in> set (frames s v) \<Longrightarrow> v = u"
proof -
  note c = assms[unfolded create_ok_def]
  show "length (filter is_create (frames s u)) \<le> 1" using c by simp
  show "frames s t = [Kernel_thread] \<and> st s t = Some THREAD_BLOCKED" if "Create_tail t n \<in> set (frames s u)"
    using conjunct2[OF c, THEN spec, THEN spec, THEN spec, THEN mp, OF that] by simp
  show "v = u" if "Create_tail t n \<in> set (frames s u)" "Create_tail t n' \<in> set (frames s v)"
    using conjunct2[OF c, THEN spec, THEN spec, THEN spec, THEN mp, OF that(1)] that(2) by blast
qed

lemma readyD: "base_ok L s \<Longrightarrow> t \<in> set (ready_list s) \<Longrightarrow> st s t = Some THREAD_READY \<and> t \<noteq> idle_thread s"
  by (simp add: base_ok_def queue_ok_def)

lemma sleeperD:
  "base_ok L s \<Longrightarrow> t \<in> set (waiters (semas s p)) \<Longrightarrow>
   st s t = Some THREAD_BLOCKED \<and> (\<exists>lv fs. frames s t = Sema_down p lv # fs)"
  by (simp add: base_ok_def sleepers_ok_def)

lemma idle_not_sleeping:
  assumes "base_ok L s" "idle_thread s \<noteq> NULL"
  shows "idle_thread s \<notin> set (waiters (semas s p))" "frames s (idle_thread s) \<noteq> [Kernel_thread]"
    "frames s (idle_thread s) \<noteq> []"
proof -
  obtain qs f where f: "frames s (idle_thread s) = qs @ [f]" "list_all quiet qs" "f = Idle_loop \<or> f = Idle_halt"
    using base_okD(3)[OF assms(1)] assms(2) by (auto simp: idle_ok_def)
  show "idle_thread s \<notin> set (waiters (semas s p))"
  proof
    assume "idle_thread s \<in> set (waiters (semas s p))"
    then obtain lv fs where "qs @ [f] = Sema_down p lv # fs"
      using sleeperD[OF assms(1)] f(1) by metis
    then show False using f(2,3) by (cases qs) (auto simp: quiet_def)
  qed
  show "frames s (idle_thread s) \<noteq> [Kernel_thread]" "frames s (idle_thread s) \<noteq> []"
    using f by auto
qed

text \<open>The chosen thread starts to run.\<close>

definition dispatch :: "ptr \<Rightarrow> ptr list \<Rightarrow> kernel \<Rightarrow> kernel" where
  "dispatch t ready s = set_st t THREAD_RUNNING (s\<lparr>ready_list := ready, running := t\<rparr>)"

lemma st_update [simp]:
  "st (s\<lparr>ready_list := r\<rparr>) = st s" "st (s\<lparr>running := t\<rparr>) = st s" "st (s\<lparr>semas := sm\<rparr>) = st s"
  "st (s\<lparr>frames := fr\<rparr>) = st s" "st (s\<lparr>holders := h\<rparr>) = st s" "st (s\<lparr>conds := c\<rparr>) = st s"
  "st (s\<lparr>idle_thread := i\<rparr>) = st s" "st (push_frame f s) = st s"
  by (simp_all add: st_def tview_def fun_eq_iff push_frame_def)

lemma refs_ok_update [simp]:
  "refs_ok L (s\<lparr>ready_list := r\<rparr>) = refs_ok L s" "refs_ok L (s\<lparr>running := t\<rparr>) = refs_ok L s"
  "refs_ok L (s\<lparr>semas := sm\<rparr>) = refs_ok L s" "refs_ok L (s\<lparr>frames := fr\<rparr>) = refs_ok L s"
  "refs_ok L (s\<lparr>holders := h\<rparr>) = refs_ok L s" "refs_ok L (s\<lparr>idle_thread := i\<rparr>) = refs_ok L s"
  by (simp_all add: refs_ok_def tview_def)

lemma dispatch_ok:
  assumes base: "base_ok L s" and none: "\<And>u. st s u \<noteq> Some THREAD_RUNNING"
    and choice: "ready_list s = t # ready \<or> ready_list s = [] \<and> ready = [] \<and> t = idle_thread s \<and> t \<noteq> NULL"
  shows "kernel_ok L (dispatch t ready s)"
proof -
  note b = base_okD[OF base]
  note d = dispatch_def set_st_fields st_set_st st_update
  have t: "st s t \<noteq> None \<and> (\<forall>p. t \<notin> set (waiters (semas s p))) \<and>
      (frames s t \<noteq> [Kernel_thread] \<or> st s t \<noteq> Some THREAD_BLOCKED)"
    using choice
  proof
    assume "ready_list s = t # ready"
    then have "st s t = Some THREAD_READY" using readyD[OF base, of t] by simp
    then show ?thesis using sleeperD[OF base, of t] by auto
  next
    assume i: "ready_list s = [] \<and> ready = [] \<and> t = idle_thread s \<and> t \<noteq> NULL"
    then have "st s t \<noteq> None" using b(3) by (simp add: idle_ok_def)
    then show ?thesis using i idle_not_sleeping[OF base] by simp
  qed
  have "queue_ok (dispatch t ready s)"
    using choice
  proof
    assume "ready_list s = t # ready"
    then have r: "distinct (t # ready)" "\<And>u. u \<in> set (t # ready) \<longleftrightarrow> st s u = Some THREAD_READY \<and> u \<noteq> idle_thread s"
      using b(1) by (simp_all add: queue_ok_def)
    have "u \<in> set ready \<longleftrightarrow> st (dispatch t ready s) u = Some THREAD_READY \<and> u \<noteq> idle_thread s" for u
      using r(1) r(2)[of u] t by (cases "u = t") (simp_all add: d)
    then show ?thesis using r(1) by (simp add: queue_ok_def dispatch_def)
  next
    assume i: "ready_list s = [] \<and> ready = [] \<and> t = idle_thread s \<and> t \<noteq> NULL"
    then have "\<not> (st s u = Some THREAD_READY \<and> u \<noteq> idle_thread s)" for u
      using b(1) by (simp add: queue_ok_def)
    then show ?thesis using i by (simp add: queue_ok_def dispatch_def)
  qed
  moreover have "sleepers_ok (dispatch t ready s)"
  proof -
    have "u \<noteq> t" if "u \<in> set (waiters (semas s p))" for u p using t that by blast
    then show ?thesis using b(2) by (simp add: sleepers_ok_def dispatch_def)
  qed
  moreover have "idle_ok (dispatch t ready s)"
  proof -
    have "t \<noteq> NULL" using t b(3) by (auto simp: idle_ok_def)
    then show ?thesis using b(3) by (auto simp: idle_ok_def dispatch_def)
  qed
  moreover have "create_ok (dispatch t ready s)"
  proof (rule create_okI)
    show "length (filter is_create (frames (dispatch t ready s) u)) \<le> 1" for u
      using createD(1)[OF b(4)] by (simp add: dispatch_def)
    show "frames (dispatch t ready s) v = [Kernel_thread] \<and> st (dispatch t ready s) v = Some THREAD_BLOCKED"
      if "Create_tail v n \<in> set (frames (dispatch t ready s) u)" for u v n
      using createD(2)[OF b(4), of v n u] that t by (cases "v = t") (simp_all add: dispatch_def)
    show "v = u" if "Create_tail r n \<in> set (frames (dispatch t ready s) u)"
        "Create_tail r n' \<in> set (frames (dispatch t ready s) v)" for u v r n n'
      using createD(3)[OF b(4), of r n u n' v] that by (simp add: dispatch_def)
  qed
  moreover have "locks_ok L (dispatch t ready s)" "frames_ok L (dispatch t ready s)" "refs_ok L (dispatch t ready s)"
    using b(5,6,7) by (simp_all add: locks_ok_def frames_ok_def dispatch_def)
  moreover have "st (dispatch t ready s) u = Some THREAD_RUNNING \<longleftrightarrow> u = running (dispatch t ready s)" for u
    using none[of u] t by (cases "u = t") (simp_all add: d)
  ultimately show ?thesis by (simp add: kernel_ok_def base_ok_def)
qed

lemma lock_okE:
  assumes "lock_ok v h tk"
  obtains (down) w where "v = 0" "h = NULL" "\<And>u. tk u \<le> (if u = w then 1 else 0)"
  | (held) "v = 0" "\<And>u. tk u = 0"
  | (up) "v = 1" "h = NULL" "\<And>u. tk u = 0"
  using assms unfolding lock_ok_def by metis

lemma lock_ok_zero: "(\<And>u. tk u = 0) \<Longrightarrow> v = 0 \<or> v = 1 \<and> h = NULL \<Longrightarrow> lock_ok v h tk"
  by (simp add: lock_ok_def)

lemma lock_ok_one: "(\<And>u. tk u \<le> (if u = w then 1 else 0)) \<Longrightarrow> lock_ok 0 NULL tk"
  unfolding lock_ok_def by blast

lemma lock_ok_mono:
  assumes "lock_ok v h tk" "\<And>u. tk' u \<le> tk u"
  shows "lock_ok v h tk'"
  using assms(1)
proof (cases rule: lock_okE)
  case (down w)
  have "tk' u \<le> (if u = w then 1 else 0)" for u
    using assms(2)[of u] down(3)[of u] by (rule order_trans)
  then show ?thesis unfolding down(1,2) by (rule lock_ok_one)
next
  case held
  then have "tk' u = 0" for u using assms(2)[of u] by simp
  then show ?thesis using held by (intro lock_ok_zero) simp_all
next
  case up
  then have "tk' u = 0" for u using assms(2)[of u] by simp
  then show ?thesis using up by (intro lock_ok_zero) simp_all
qed

lemma lock_ok_down:
  assumes "lock_ok v h tk" "v \<noteq> 0"
  shows "lock_ok (v - 1) h (tk(w := Suc (tk w)))" "lock_ok (v - 1) h' tk"
proof -
  have v: "v = 1" "h = NULL" "\<And>u. tk u = 0" using assms by (simp_all add: lock_ok_def)
  have "lock_ok 0 NULL (tk(w := Suc (tk w)))" by (rule lock_ok_one[of _ w]) (simp add: v(3))
  then show "lock_ok (v - 1) h (tk(w := Suc (tk w)))" using v(1,2) by simp
  show "lock_ok (v - 1) h' tk" by (rule lock_ok_zero) (simp_all add: v)
qed

lemma lock_ok_enter:
  assumes "lock_ok v h tk" "tk w = Suc k"
  shows "lock_ok v c (tk(w := k))"
  using assms(1)
proof (cases rule: lock_okE)
  case (down w')
  have "w = w'" using down(3)[of w] assms(2) by (simp split: if_splits)
  then have "k = 0" "tk u = 0" if "u \<noteq> w" for u using down(3)[of w] down(3)[of u] assms(2) that by simp_all
  moreover have "k = 0" using down(3)[of w] assms(2) by (simp split: if_splits)
  ultimately show ?thesis using down(1) by (intro lock_ok_zero) simp_all
qed (use assms(2) in simp_all)

lemma lock_ok_up:
  assumes "lock_ok v h tk" "h \<noteq> NULL"
  shows "lock_ok (v + 1) NULL tk"
  using assms(1) by (cases rule: lock_okE) (use assms(2) in \<open>simp_all add: lock_ok_zero\<close>)

lemma lock_ok_init: "(\<And>u. tk u = 0) \<Longrightarrow> lock_ok 1 NULL tk"
  by (rule lock_ok_zero) simp_all

lemma locks_ok_le:
  assumes "locks_ok L s" "semas s' = semas s" "holders s' = holders s"
    and "\<And>l u. l \<in> L \<Longrightarrow> tok l (frames s' u) \<le> tok l (frames s u)"
  shows "locks_ok L s'"
  unfolding locks_ok_def assms(2,3)
proof
  fix l assume l: "l \<in> L"
  show "lock_ok (sema_value (semas s (lock_sema l))) (holders s l) (\<lambda>u. tok l (frames s' u))"
    by (rule lock_ok_mono[OF bspec[OF assms(1)[unfolded locks_ok_def] l]]) (rule assms(4)[OF l])
qed

text \<open>A dying thread is destroyed.\<close>

lemma free_thread_ok:
  assumes "kernel_ok L s" "st s p = Some THREAD_DYING"
  shows "kernel_ok L (palloc_free_thread p s)"
proof -
  define s' where "s' = s\<lparr>threads := (threads s)(p := None), frames := (frames s)(p := [])\<rparr>"
  have base: "base_ok L s" and run: "\<And>u. st s u = Some THREAD_RUNNING \<longleftrightarrow> u = running s"
    using assms(1) by (auto simp: kernel_ok_def)
  note b = base_okD[OF base]
  have tv: "tview s' u = (if u = p then None else tview s u)" and stv: "st s' u = (if u = p then None else st s u)" for u
    by (auto simp: s'_def tview_def st_def)
  have same: "ready_list s' = ready_list s" "semas s' = semas s" "idle_thread s' = idle_thread s"
    "holders s' = holders s" "conds s' = conds s" "running s' = running s"
    "frames s' = (frames s)(p := [])"
    by (simp_all add: s'_def)
  have p: "p \<notin> set (ready_list s)" "p \<notin> set (waiters (semas s q))" "p \<noteq> running s" for q
    using readyD[OF base, of p] sleeperD[OF base, of p q] assms(2) run[of p] by auto
  have pidle: "idle_thread s \<noteq> NULL \<Longrightarrow> p \<noteq> idle_thread s"
    using b(3) assms(2) by (auto simp: idle_ok_def)
  have "queue_ok s'"
    using b(1) p assms(2) by (auto simp: queue_ok_def same stv)
  moreover have "sleepers_ok s'"
    using b(2) p by (auto simp: sleepers_ok_def same stv)
  moreover have "idle_ok s'"
    using b(3) pidle by (cases "idle_thread s = NULL") (simp_all add: idle_ok_def same stv)
  moreover have "create_ok s'"
  proof (rule create_okI)
    show "length (filter is_create (frames s' u)) \<le> 1" for u
      using createD(1)[OF b(4)] by (simp add: same)
    show "frames s' t = [Kernel_thread] \<and> st s' t = Some THREAD_BLOCKED" if "Create_tail t n \<in> set (frames s' u)" for u t n
      using createD(2)[OF b(4), of t n u] that assms(2) by (auto simp: same stv split: if_splits)
    show "v = u" if "Create_tail t n \<in> set (frames s' u)" "Create_tail t n' \<in> set (frames s' v)" for u v t n n'
      using createD(3)[OF b(4), of t n u n' v] that by (auto simp: same split: if_splits)
  qed
  moreover have "locks_ok L s'"
    by (rule locks_ok_le[OF b(5)]) (simp_all add: same)
  moreover have "frames_ok L s'"
    using b(6) by (auto simp: frames_ok_def same)
  moreover have "refs_ok L s'"
    using b(7) by (auto simp: refs_ok_def same tv)
  moreover have "st s' u = Some THREAD_RUNNING \<longleftrightarrow> u = running s'" for u
    using run p(3) by (auto simp: stv same)
  ultimately have "kernel_ok L s'" by (simp add: kernel_ok_def base_ok_def)
  then show ?thesis
    by (rule kernel_ok_neutral[rotated]) (simp add: palloc_free_thread_def s'_def)
qed


lemma process_activate_core: "process_activate s = Some s' \<Longrightarrow> core s' = core s"
  by (auto simp: process_activate_def bind_eq_Some_conv)

lemma st_core: "core s = core s' \<Longrightarrow> st s = st s'"
  by (rule core_eqD)

lemma schedule_tail_ok:
  assumes "thread_schedule_tail prev s = Some s'" "kernel_ok L (set_st (running s) THREAD_RUNNING s)"
  shows "kernel_ok L s'"
proof -
  define s1 where "s1 = set_st (running s) THREAD_RUNNING s"
  obtain s2 where s2: "process_activate (s1\<lparr>thread_ticks := 0\<rparr>) = Some s2"
    and s': "(if prev = NULL then Some s2
         else do { p \<leftarrow> threads s2 prev;
              if status p = THREAD_DYING \<and> prev \<noteq> initial_thread s2
              then do { ASSERT (prev \<noteq> running s); Some (palloc_free_thread prev s2) } else Some s2 }) = Some s'"
    using assms(1) unfolding thread_schedule_tail_def Let_def running_thread_def
    by (auto simp: bind_eq_Some_conv upd_status s1_def simp del: ASSERT_eq_Some)
  have ok2: "kernel_ok L s2"
    using process_activate_core[OF s2] assms(2) kernel_ok_core[of s2 s1 L] by (simp add: s1_def)
  show ?thesis
  proof (cases "prev = NULL")
    case True
    then show ?thesis using s' ok2 by simp
  next
    case False
    then obtain p where p: "threads s2 prev = Some p"
        "(if status p = THREAD_DYING \<and> prev \<noteq> initial_thread s2
              then do { ASSERT (prev \<noteq> running s); Some (palloc_free_thread prev s2) } else Some s2) = Some s'"
      using s' by (auto simp: bind_eq_Some_conv simp del: ASSERT_eq_Some)
    show ?thesis
    proof (cases "status p = THREAD_DYING \<and> prev \<noteq> initial_thread s2")
      case True
      then have "s' = palloc_free_thread prev s2" using p(2) by (simp add: bind_eq_Some_conv)
      moreover have "st s2 prev = Some THREAD_DYING" using p(1) True by (simp add: st_def tview_def)
      ultimately show ?thesis using free_thread_ok[OF ok2] by simp
    next
      case False
      then show ?thesis using p(2) ok2 by auto
    qed
  qed
qed

lemma schedule_ok:
  assumes "schedule s = Some s'" "base_ok L s" "\<And>u. st s u \<noteq> Some THREAD_RUNNING"
  shows "kernel_ok L s'"
proof -
  obtain t s1 where n: "next_thread_to_run s = (t, s1)" by fastforce
  define ready where "ready = ready_list s1"
  have r: "is_thread t s1 = Some True"
    "(if running s \<noteq> t then thread_schedule_tail (running s) (s1\<lparr>running := t\<rparr>) else thread_schedule_tail NULL s1) = Some s'"
    using assms(1) n by (auto simp: schedule_def Let_def running_thread_def bind_eq_Some_conv)
  have "t \<noteq> NULL" using r(1) by (auto simp: is_thread_def)
  have s1: "s1 = s\<lparr>ready_list := ready\<rparr> \<and> (ready_list s = t # ready \<or> ready_list s = [] \<and> ready = [] \<and> t = idle_thread s \<and> t \<noteq> NULL)"
    using n \<open>t \<noteq> NULL\<close> by (auto simp: next_thread_to_run_def ready_def split: list.splits)
  have ok: "kernel_ok L (dispatch t ready s)"
    using dispatch_ok[OF assms(2,3)] s1 by blast
  show ?thesis
  proof (cases "running s = t")
    case True
    then have "thread_schedule_tail NULL s1 = Some s'" using r(2) by simp
    moreover have "s\<lparr>ready_list := ready, running := t\<rparr> = s1" using True s1 by (cases s) auto
    moreover have "running s1 = t" using True s1 by simp
    ultimately have "dispatch t ready s = set_st (running s1) THREAD_RUNNING s1" "thread_schedule_tail NULL s1 = Some s'"
      by (simp_all only: dispatch_def)
    then show ?thesis
      using schedule_tail_ok[of NULL s1 s' L] ok by simp
  next
    case False
    then have "thread_schedule_tail (running s) (s1\<lparr>running := t\<rparr>) = Some s'" using r(2) by simp
    then show ?thesis
      using schedule_tail_ok[of "running s" "s1\<lparr>running := t\<rparr>" s' L] ok s1 by (simp add: dispatch_def)
  qed
qed


section \<open>Frames\<close>

lemma lock_sema_inj [simp]: "lock_sema l = lock_sema l' \<longleftrightarrow> l = l'"
  by (simp add: lock_sema_def)

lemma lock_sema_image [simp]: "lock_sema l \<in> lock_sema ` L \<longleftrightarrow> l \<in> L"
  by auto

lemma tok_after_cong: "waits l a = waits l b \<Longrightarrow> tok_after l a fs = tok_after l b fs"
  by (cases fs) simp_all

lemma tok_cons: "f \<noteq> Lock_take l \<Longrightarrow> \<not> waits l (Some f) \<Longrightarrow> tok l (f # fs) = tok l fs"
  using tok_after_cong[of l "Some f" None fs] by (simp add: waits_def)

lemma tok_take: "tok l (Lock_take l' # fs) = (if l' = l then 1 else 0) + tok l fs"
  using tok_after_cong[of l "Some (Lock_take l')" None fs] by (simp add: waits_def)

lemma tok_wait: "tok l (Sema_down (lock_sema l') lv # Lock_take l' # fs) = tok l fs"
  using tok_after_cong[of l "Some (Lock_take l')" None fs] by (simp add: waits_def)

lemma tok_down: "p \<noteq> lock_sema l \<Longrightarrow> tok l (Sema_down p lv # fs) = tok l fs"
  by (rule tok_cons) (simp_all add: waits_def)

definition set_frames :: "frame list \<Rightarrow> kernel \<Rightarrow> kernel" where
  "set_frames fs s = s\<lparr>frames := (frames s)(running s := fs)\<rparr>"

lemma push_frame_set: "push_frame f s = set_frames (f # frames s (running s)) s"
  by (simp add: push_frame_def set_frames_def)

lemma set_frames_fields [simp]:
  "running (set_frames fs s) = running s" "ready_list (set_frames fs s) = ready_list s"
  "idle_thread (set_frames fs s) = idle_thread s" "semas (set_frames fs s) = semas s"
  "frames (set_frames fs s) = (frames s)(running s := fs)" "st (set_frames fs s) = st s"
  "holders (set_frames fs s) = holders s" "conds (set_frames fs s) = conds s" "level (set_frames fs s) = level s"
  "threads (set_frames fs s) = threads s" "nodes (set_frames fs s) = nodes s"
  "in_external_intr (set_frames fs s) = in_external_intr s"
  "set_frames fs (set_frames gs s) = set_frames fs s" "refs_ok L (set_frames fs s) = refs_ok L s"
  by (simp_all add: set_frames_def)

lemma kernel_okD:
  assumes "kernel_ok L s"
  shows "base_ok L s" "st s t = Some THREAD_RUNNING \<longleftrightarrow> t = running s"
  using assms by (simp_all add: kernel_ok_def)

lemma running_awake:
  assumes "kernel_ok L s"
  shows "running s \<notin> set (waiters (semas s p))" "running s \<noteq> NULL" "st s (running s) = Some THREAD_RUNNING"
    "running s \<notin> set (ready_list s)"
proof -
  show st: "st s (running s) = Some THREAD_RUNNING" using kernel_okD(2)[OF assms] by simp
  then show "running s \<notin> set (waiters (semas s p))"
    using sleeperD[OF kernel_okD(1)[OF assms], of "running s" p] by auto
  show "running s \<noteq> NULL" using st base_okD(3)[OF kernel_okD(1)[OF assms]] by (auto simp: idle_ok_def)
  show "running s \<notin> set (ready_list s)" using st readyD[OF kernel_okD(1)[OF assms], of "running s"] by auto
qed

definition frames_fit :: "ptr set \<Rightarrow> frame list \<Rightarrow> bool" where
  "frames_fit L fs \<longleftrightarrow> chain_ok L fs \<and> list_all (frame_ok L) fs"

text \<open>The running thread gets other frames: fewer claims to locks, no new thread under creation.\<close>

lemma set_frames_create_ok:
  assumes ok: "kernel_ok L s"
    and idle: "running s = idle_thread s \<Longrightarrow>
      \<exists>qs f. fs = qs @ [f] \<and> list_all quiet qs \<and> (f = Idle_loop \<or> f = Idle_halt)"
    and create: "create_ok (set_frames fs s)"
    and locks: "locks_ok L (set_frames fs s)"
    and fit: "frames_fit L fs"
  shows "kernel_ok L (set_frames fs s)"
proof -
  let ?s = "set_frames fs s"
  note b = base_okD[OF kernel_okD(1)[OF ok]] and r = running_awake[OF ok]
  have "queue_ok ?s" using b(1) by (simp add: queue_ok_def)
  moreover have "sleepers_ok ?s"
  proof -
    have "u \<noteq> running s" if "u \<in> set (waiters (semas s p))" for u p using r(1) that by blast
    then show ?thesis using b(2) by (simp add: sleepers_ok_def)
  qed
  moreover have "idle_ok ?s"
    using b(3) idle by (cases "running s = idle_thread s") (simp_all add: idle_ok_def)
  moreover note create locks
  moreover have "frames_ok L ?s"
    using b(6) fit by (simp add: frames_ok_def frames_fit_def)
  moreover have "refs_ok L ?s" using b(7) by simp
  ultimately show ?thesis using kernel_okD(2)[OF ok] by (simp add: kernel_ok_def base_ok_def)
qed

lemma create_ok_set_frames:
  assumes ok: "kernel_ok L s"
    and create: "filter is_create fs = filter is_create (frames s (running s)) \<or> filter is_create fs = []"
  shows "create_ok (set_frames fs s)"
proof (rule create_okI)
  let ?s = "set_frames fs s"
  note c = base_okD(4)[OF kernel_okD(1)[OF ok]]
  have sub: "Create_tail t n \<in> set (frames s u)" if "Create_tail t n \<in> set (frames ?s u)" for t n u
  proof (cases "u = running s")
    case True
    then have "Create_tail t n \<in> set (filter is_create fs)" using that by (simp add: is_create_def)
    moreover have "set (filter is_create fs) \<subseteq> set (filter is_create (frames s (running s)))"
      using create by (elim disjE) (simp_all only: order_refl list.set empty_subsetI)
    ultimately have "Create_tail t n \<in> set (filter is_create (frames s (running s)))" by (rule rev_subsetD)
    then show ?thesis using True by simp
  next
    case False
    then show ?thesis using that by simp
  qed
  show "length (filter is_create (frames ?s u)) \<le> 1" for u
    using createD(1)[OF c, of u] createD(1)[OF c, of "running s"] create by (elim disjE) simp_all
  show "frames ?s t = [Kernel_thread] \<and> st ?s t = Some THREAD_BLOCKED" if "Create_tail t n \<in> set (frames ?s u)" for u t n
    using createD(2)[OF c sub[OF that]] running_awake(3)[OF ok] by (cases "t = running s") simp_all
  show "v = u" if "Create_tail t n \<in> set (frames ?s u)" "Create_tail t n' \<in> set (frames ?s v)" for u v t n n'
    using createD(3)[OF c sub[OF that(1)] sub[OF that(2)]] .
qed

lemma set_frames_locks_ok:
  assumes "kernel_ok L s"
    and "running s = idle_thread s \<Longrightarrow>
      \<exists>qs f. fs = qs @ [f] \<and> list_all quiet qs \<and> (f = Idle_loop \<or> f = Idle_halt)"
    and "filter is_create fs = filter is_create (frames s (running s)) \<or> filter is_create fs = []"
    and "locks_ok L (set_frames fs s)" and "frames_fit L fs"
  shows "kernel_ok L (set_frames fs s)"
  by (rule set_frames_create_ok[OF assms(1,2) create_ok_set_frames[OF assms(1,3)] assms(4,5)])

lemma set_frames_ok:
  assumes "kernel_ok L s"
    and "running s = idle_thread s \<Longrightarrow>
      \<exists>qs f. fs = qs @ [f] \<and> list_all quiet qs \<and> (f = Idle_loop \<or> f = Idle_halt)"
    and "filter is_create fs = filter is_create (frames s (running s)) \<or> filter is_create fs = []"
    and "\<And>l. l \<in> L \<Longrightarrow> tok l fs \<le> tok l (frames s (running s))"
    and "frames_fit L fs"
  shows "kernel_ok L (set_frames fs s)"
proof (rule set_frames_locks_ok[OF assms(1-3) _ assms(5)])
  show "locks_ok L (set_frames fs s)"
    by (rule locks_ok_le[OF base_okD(5)[OF kernel_okD(1)[OF assms(1)]]]) (use assms(4) in simp_all)
qed

section \<open>Semaphores and locks keep the invariant\<close>

text \<open>What an operation that does not switch threads leaves alone.\<close>

definition keeps :: "kernel \<Rightarrow> kernel \<Rightarrow> bool" where
  "keeps s s' \<longleftrightarrow> running s' = running s \<and> idle_thread s' = idle_thread s \<and> frames s' = frames s \<and>
     (\<forall>t. map_option snd (tview s' t) = map_option snd (tview s t)) \<and> conds s' = conds s"

lemma keeps_core: "core s' = core s \<Longrightarrow> keeps s s'"
  by (simp add: keeps_def core_def)

lemma keeps_trans: "keeps s s' \<Longrightarrow> keeps s' s'' \<Longrightarrow> keeps s s''"
  by (simp add: keeps_def)

lemma keeps_refl: "keeps s s"
  by (simp add: keeps_def)

lemma keepsD: "keeps s s' \<Longrightarrow> running s' = running s" "keeps s s' \<Longrightarrow> idle_thread s' = idle_thread s"
  "keeps s s' \<Longrightarrow> frames s' = frames s" "keeps s s' \<Longrightarrow> conds s' = conds s"
  by (simp_all add: keeps_def)

definition unblocked :: "ptr \<Rightarrow> kernel \<Rightarrow> kernel" where
  "unblocked t s = set_st t THREAD_READY (s\<lparr>ready_list := ready_list s @ [t]\<rparr>)"

lemma unblocked_ok:
  assumes ok: "kernel_ok L s" and t: "st s t = Some THREAD_BLOCKED" "\<And>p. t \<notin> set (waiters (semas s p))"
    "t \<noteq> idle_thread s" "\<And>u n. Create_tail t n \<notin> set (frames s u)"
  shows "kernel_ok L (unblocked t s)"
proof -
  let ?s = "unblocked t s"
  note b = base_okD[OF kernel_okD(1)[OF ok]] and u = unblocked_def
  have "t \<notin> set (ready_list s)" using readyD[OF kernel_okD(1)[OF ok], of t] t(1) by auto
  moreover have "v \<in> set (ready_list s @ [t]) \<longleftrightarrow> st ?s v = Some THREAD_READY \<and> v \<noteq> idle_thread s" for v
    using b(1) t(1,3) by (cases "v = t") (simp_all add: u queue_ok_def)
  ultimately have "queue_ok ?s" using b(1) by (simp add: queue_ok_def u)
  moreover have "sleepers_ok ?s"
  proof -
    have "v \<noteq> t" if "v \<in> set (waiters (semas s p))" for v p using t(2) that by blast
    then show ?thesis using b(2) by (simp add: sleepers_ok_def u)
  qed
  moreover have "idle_ok ?s" using b(3) t(1,3) by (auto simp: idle_ok_def u)
  moreover have "create_ok ?s"
  proof (rule create_okI)
    show "length (filter is_create (frames ?s v)) \<le> 1" for v
      using createD(1)[OF b(4)] by (simp add: u)
    show "frames ?s r = [Kernel_thread] \<and> st ?s r = Some THREAD_BLOCKED" if "Create_tail r n \<in> set (frames ?s v)" for v r n
      using createD(2)[OF b(4), of r n v] that t(4)[of n v] by (cases "r = t") (simp_all add: u)
    show "v = w" if "Create_tail r n \<in> set (frames ?s w)" "Create_tail r n' \<in> set (frames ?s v)" for v w r n n'
      using createD(3)[OF b(4), of r n w n' v] that by (simp add: u)
  qed
  moreover have "locks_ok L ?s" "frames_ok L ?s" "refs_ok L ?s"
    using b(5,6,7) by (simp_all add: locks_ok_def frames_ok_def u)
  moreover have "st ?s v = Some THREAD_RUNNING \<longleftrightarrow> v = running ?s" for v
    using kernel_okD(2)[OF ok, of v] t(1) by (cases "v = t") (simp_all add: u)
  ultimately show ?thesis by (simp add: kernel_ok_def base_ok_def)
qed

lemma keeps_unblocked: "keeps s (unblocked t s)"
proof -
  have "map_option snd (tview (unblocked t s) v) = map_option snd (tview s v)" for v
    by (auto simp: unblocked_def tview_set_st, auto simp: tview_def map_option_case split: option.splits)
  then show ?thesis by (simp add: keeps_def unblocked_def)
qed

lemma thread_unblock_core:
  assumes "thread_unblock t s = Some s'"
  shows "core s' = core (unblocked t s)" "st s t = Some THREAD_BLOCKED"
proof -
  obtain th s1 where th: "threads s t = Some th" "status th = THREAD_BLOCKED"
      and s1: "upd_thread t (status_update (\<lambda>_. THREAD_READY)) (intr_disable s\<lparr>ready_list := ready_list s @ [t]\<rparr>) = Some s1"
      and s': "intr_set_level (intr_get_level s) s1 = Some s'"
    using assms by (auto simp: thread_unblock_def bind_eq_Some_conv Let_def)
  have "s1 = set_st t THREAD_READY (intr_disable s\<lparr>ready_list := ready_list s @ [t]\<rparr>)"
    using s1 by (simp add: upd_status)
  then have "core s1 = core (unblocked t s)"
    by (simp add: unblocked_def core_def tview_set_st fun_eq_iff) (simp add: tview_def intr_disable_def)
  then show "core s' = core (unblocked t s)" using core_intr_set_level[OF s'] by simp
  show "st s t = Some THREAD_BLOCKED" using th by (simp add: st_def tview_def)
qed

lemma semas_ok:
  assumes ok: "kernel_ok L s"
    and w: "\<And>p. distinct (waiters (sm p)) \<and> set (waiters (sm p)) \<subseteq> set (waiters (semas s p))"
    and k: "locks_ok L (s\<lparr>semas := sm, holders := h\<rparr>)"
  shows "kernel_ok L (s\<lparr>semas := sm, holders := h\<rparr>)"
proof -
  let ?s = "s\<lparr>semas := sm, holders := h\<rparr>"
  note b = base_okD[OF kernel_okD(1)[OF ok]]
  have "sleepers_ok ?s"
    unfolding sleepers_ok_def
  proof (intro allI conjI ballI)
    fix p t
    show "distinct (waiters (semas ?s p))" using w by simp
    assume "t \<in> set (waiters (semas ?s p))"
    then have "t \<in> set (waiters (semas s p))" using w[of p] by auto
    then show "st ?s t = Some THREAD_BLOCKED" "\<exists>lv fs. frames ?s t = Sema_down p lv # fs"
      using sleeperD[OF kernel_okD(1)[OF ok], of t p] by simp_all
  qed
  then show ?thesis
    using b k kernel_okD(2)[OF ok]
    by (simp add: kernel_ok_def base_ok_def queue_ok_def idle_ok_def create_ok_def frames_ok_def)
qed


lemma locks_ok_cong:
  assumes "locks_ok L s" "\<And>l. l \<in> L \<Longrightarrow> sema_value (semas s' (lock_sema l)) = sema_value (semas s (lock_sema l))"
    "\<And>l. l \<in> L \<Longrightarrow> holders s' l = holders s l" "frames s' = frames s"
  shows "locks_ok L s'"
  using assms by (simp add: locks_ok_def)

definition set_sema :: "ptr \<Rightarrow> semaphore \<Rightarrow> kernel \<Rightarrow> kernel" where
  "set_sema p x s = s\<lparr>semas := (semas s)(p := x)\<rparr>"

lemma set_sema_fields [simp]:
  "running (set_sema p x s) = running s" "ready_list (set_sema p x s) = ready_list s"
  "idle_thread (set_sema p x s) = idle_thread s" "semas (set_sema p x s) = (semas s)(p := x)"
  "frames (set_sema p x s) = frames s" "st (set_sema p x s) = st s" "holders (set_sema p x s) = holders s"
  "conds (set_sema p x s) = conds s" "level (set_sema p x s) = level s" "tview (set_sema p x s) = tview s"
  "threads (set_sema p x s) = threads s" "in_external_intr (set_sema p x s) = in_external_intr s"
  by (simp_all add: set_sema_def tview_def fun_eq_iff)

lemma set_sema_ok:
  assumes "kernel_ok L s" "distinct (waiters x)" "set (waiters x) \<subseteq> set (waiters (semas s p))"
    and "locks_ok L (set_sema p x s)"
  shows "kernel_ok L (set_sema p x s)"
proof -
  have eq: "set_sema p x s = s\<lparr>semas := (semas s)(p := x), holders := holders s\<rparr>"
    by (simp add: set_sema_def)
  have "distinct (waiters (semas s q))" for q
    using base_okD(2)[OF kernel_okD(1)[OF assms(1)]] by (simp add: sleepers_ok_def)
  then show ?thesis
    unfolding eq using assms(2-4) by (intro semas_ok[OF assms(1)]) (simp_all add: eq)
qed

lemma keeps_set_sema: "keeps s (set_sema p x s)"
  by (simp add: keeps_def)

lemma sleeper_unblock:
  assumes ok: "kernel_ok L s" and w: "waiters (semas s p) = t # ts"
  defines "s0 \<equiv> set_sema p ((semas s p)\<lparr>waiters := ts\<rparr>) s"
  shows "kernel_ok L s0" "kernel_ok L (unblocked t s0)"
proof -
  note base = kernel_okD(1)[OF ok]
  have d: "distinct (t # ts)" using base_okD(2)[OF base] w by (metis sleepers_ok_def)
  show s0: "kernel_ok L s0"
    unfolding s0_def
  proof (rule set_sema_ok[OF ok])
    show "locks_ok L (set_sema p ((semas s p)\<lparr>waiters := ts\<rparr>) s)"
      by (rule locks_ok_cong[OF base_okD(5)[OF base]]) simp_all
  qed (use d w in auto)
  obtain lv fs where t: "st s t = Some THREAD_BLOCKED" "frames s t = Sema_down p lv # fs"
    using sleeperD[OF base, of t p] w by auto
  show "kernel_ok L (unblocked t s0)"
  proof (rule unblocked_ok[OF s0])
    show "st s0 t = Some THREAD_BLOCKED" using t(1) by (simp add: s0_def)
    show "t \<notin> set (waiters (semas s0 q))" for q
    proof (cases "q = p")
      case True
      then show ?thesis using d by (simp add: s0_def)
    next
      case False
      then show ?thesis using sleeperD[OF base, of t q] t(2) by (auto simp: s0_def)
    qed
    have "idle_thread s \<noteq> NULL \<Longrightarrow> t \<noteq> idle_thread s"
      using idle_not_sleeping(1)[OF base, of p] w by auto
    then show "t \<noteq> idle_thread s0"
      using t(1) base_okD(3)[OF base] by (cases "idle_thread s = NULL") (auto simp: idle_ok_def s0_def)
    show "Create_tail t n \<notin> set (frames s0 u)" for u n
      using createD(2)[OF base_okD(4)[OF base], of t n u] t(2) by (auto simp: s0_def)
  qed
qed

lemma sema_up_ok:
  assumes "sema_up p s = Some s'" "kernel_ok L s"
    and k: "locks_ok L (set_sema p (sema_value_update (\<lambda>v. v + 1) (semas s p)) s)"
  shows "kernel_ok L s' \<and> keeps s s' \<and> holders s' = holders s"
proof -
  define up where "up r = set_sema p (sema_value_update (\<lambda>v. v + 1) (semas r p)) r" for r
  have up_core: "core (up r) = core (up r')" if "core r = core r'" for r r'
    using core_eqD[OF that] by (simp add: up_def core_def)
  have up_ok: "kernel_ok L (up r) \<and> keeps s (up r) \<and> holders (up r) = holders s"
    if r: "kernel_ok L r" "keeps s r" "holders r = holders s" "\<And>q. sema_value (semas r q) = sema_value (semas s q)" for r
  proof -
    have "locks_ok L (up r)"
      by (rule locks_ok_cong[OF k]) (use r keepsD(3)[OF r(2)] in \<open>simp_all add: up_def\<close>)
    then have "kernel_ok L (up r)"
      unfolding up_def using base_okD(2)[OF kernel_okD(1)[OF r(1)]]
      by (intro set_sema_ok[OF r(1)]) (simp_all add: sleepers_ok_def)
    then show ?thesis using keeps_trans[OF r(2) keeps_set_sema] r(3) by (simp add: up_def)
  qed
  show ?thesis
  proof (cases "waiters (semas s p)")
    case Nil
    have "intr_set_level (intr_get_level s) (up (intr_disable s)) = Some s'"
      using assms(1) Nil by (simp add: sema_up_def Let_def bind_eq_Some_conv up_def set_sema_def)
    then have c: "core s' = core (up s)" using core_intr_set_level up_core[of "intr_disable s" s] by fastforce
    have "kernel_ok L (up s) \<and> keeps s (up s) \<and> holders (up s) = holders s"
      by (rule up_ok) (simp_all add: assms(2) keeps_refl)
    then show ?thesis
      using c kernel_ok_core[OF c] keeps_trans[OF _ keeps_core[OF c]] core_eqD(7)[OF c] by simp
  next
    case (Cons t ts)
    define s0 where "s0 = set_sema p ((semas s p)\<lparr>waiters := ts\<rparr>) s"
    note un = sleeper_unblock[OF assms(2) Cons, folded s0_def]
    define s0' where "s0' = set_sema p ((semas s p)\<lparr>waiters := ts\<rparr>) (intr_disable s)"
    obtain s1 where s1: "thread_unblock t s0' = Some s1" "intr_set_level (intr_get_level s) (up s1) = Some s'"
      using assms(1) Cons
      by (auto simp: sema_up_def Let_def bind_eq_Some_conv up_def set_sema_def s0'_def)
    have "core (unblocked t s0') = core (unblocked t s0)"
      by (simp add: unblocked_def core_def tview_set_st fun_eq_iff s0_def s0'_def)
        (simp add: tview_def intr_disable_def)
    then have c1: "core s1 = core (unblocked t s0)" using thread_unblock_core(1)[OF s1(1)] by simp
    have "core s' = core (up s1)" using core_intr_set_level[OF s1(2)] .
    then have c: "core s' = core (up (unblocked t s0))" using up_core[OF c1] by simp
    have "kernel_ok L (up (unblocked t s0)) \<and> keeps s (up (unblocked t s0)) \<and> holders (up (unblocked t s0)) = holders s"
    proof (rule up_ok[OF un(2)])
      show "keeps s (unblocked t s0)"
        using keeps_trans[OF keeps_set_sema keeps_unblocked] by (simp add: s0_def)
      show "holders (unblocked t s0) = holders s" by (simp add: unblocked_def s0_def)
      show "sema_value (semas (unblocked t s0) q) = sema_value (semas s q)" for q by (simp add: unblocked_def s0_def)
    qed
    then show ?thesis
      using c kernel_ok_core[OF c] keeps_trans[OF _ keeps_core[OF c]] core_eqD(7)[OF c] by simp
  qed
qed

lemma sema_up_plain:
  assumes "sema_up p s = Some s'" "kernel_ok L s" "p \<notin> lock_sema ` L"
  shows "kernel_ok L s' \<and> keeps s s' \<and> holders s' = holders s"
  by (rule sema_up_ok[OF assms(1,2)], rule locks_ok_cong[OF base_okD(5)[OF kernel_okD(1)[OF assms(2)]]])
    (use assms(3) in auto)


section \<open>Taking and adding a frame\<close>

lemma frames_fitD: "kernel_ok L s \<Longrightarrow> frames_fit L (frames s u)"
  by (simp add: kernel_ok_def base_ok_def frames_ok_def frames_fit_def)

lemma chain_ok_tl: "chain_ok L (f # fs) \<Longrightarrow> chain_ok L fs"
  by (cases f) simp_all

lemma frames_fit_Cons: "frames_fit L (f # fs) \<Longrightarrow> frames_fit L fs \<and> frame_ok L f"
  using chain_ok_tl by (auto simp: frames_fit_def)

lemma idle_top:
  assumes ok: "kernel_ok L s" and top: "frames s (running s) = f # fs" and idle: "running s = idle_thread s"
  shows "(f = Idle_loop \<or> f = Idle_halt) \<and> fs = [] \<or>
    quiet f \<and> (\<exists>qs g. fs = qs @ [g] \<and> list_all quiet qs \<and> (g = Idle_loop \<or> g = Idle_halt))"
proof -
  have "idle_thread s \<noteq> NULL" using running_awake(2)[OF ok] idle by simp
  then obtain qs g where g: "frames s (idle_thread s) = qs @ [g]" "list_all quiet qs" "g = Idle_loop \<or> g = Idle_halt"
    using base_okD(3)[OF kernel_okD(1)[OF ok]] by (auto simp: idle_ok_def)
  then show ?thesis using top idle by (cases qs) auto
qed

lemma top_not_idle:
  assumes "kernel_ok L s" "frames s (running s) = f # fs" "\<not> quiet f" "f \<noteq> Idle_loop" "f \<noteq> Idle_halt"
  shows "running s \<noteq> idle_thread s"
  using idle_top[OF assms(1,2)] assms(3-5) by auto

lemma call_not_idle:
  assumes "kernel_ok L s" "frames s (running s) = []"
  shows "running s \<noteq> idle_thread s"
  using idle_not_sleeping(3)[OF kernel_okD(1)[OF assms(1)]] running_awake(2)[OF assms(1)] assms(2) by auto

lemma pop_create:
  assumes "kernel_ok L s" "frames s (running s) = f # fs"
  shows "filter is_create fs = filter is_create (frames s (running s)) \<or> filter is_create fs = []"
  using createD(1)[OF base_okD(4)[OF kernel_okD(1)[OF assms(1)]], of "running s"] assms(2) by (cases "is_create f") auto

lemma pop_frame_ok:
  assumes ok: "kernel_ok L s" and top: "frames s (running s) = f # fs"
    and idle: "f \<noteq> Idle_loop" "f \<noteq> Idle_halt" and lock: "\<And>l lv. l \<in> L \<Longrightarrow> f \<noteq> Sema_down (lock_sema l) lv"
  shows "kernel_ok L (set_frames fs s)"
proof (rule set_frames_ok[OF ok])
  show "\<exists>qs f. fs = qs @ [f] \<and> list_all quiet qs \<and> (f = Idle_loop \<or> f = Idle_halt)" if "running s = idle_thread s"
    using idle_top[OF ok top that] idle by blast
  show "filter is_create fs = filter is_create (frames s (running s)) \<or> filter is_create fs = []"
    by (rule pop_create[OF ok top])
  show "tok l fs \<le> tok l (frames s (running s))" if "l \<in> L" for l
  proof (cases "f = Lock_take l")
    case True
    then show ?thesis using top by (simp add: tok_take del: tok_after.simps)
  next
    case False
    then show ?thesis using top lock[OF that] tok_cons[of f l fs] by (simp add: waits_def)
  qed
  show "frames_fit L fs" using frames_fitD[OF ok, of "running s"] top frames_fit_Cons by metis
qed

lemma push_frame_ok:
  assumes ok: "kernel_ok L s" and idle: "running s \<noteq> idle_thread s \<or> quiet f"
    and f: "\<not> is_create f" "frame_ok L f" "\<And>p lv. f = Sema_down p lv \<Longrightarrow> p \<notin> lock_sema ` L" "\<And>l. f \<noteq> Lock_take l"
  shows "kernel_ok L (push_frame f s)"
  unfolding push_frame_set
proof (rule set_frames_ok[OF ok])
  show "\<exists>qs g. f # frames s (running s) = qs @ [g] \<and> list_all quiet qs \<and> (g = Idle_loop \<or> g = Idle_halt)"
    if i: "running s = idle_thread s"
  proof -
    have "idle_thread s \<noteq> NULL" using running_awake(2)[OF ok] i by simp
    then obtain qs g where g: "frames s (idle_thread s) = qs @ [g]" "list_all quiet qs" "g = Idle_loop \<or> g = Idle_halt"
      using base_okD(3)[OF kernel_okD(1)[OF ok]] by (auto simp: idle_ok_def)
    then show ?thesis using i idle by (intro exI[of _ "f # qs"] exI[of _ g]) simp
  qed
  show "filter is_create (f # frames s (running s)) = filter is_create (frames s (running s)) \<or>
      filter is_create (f # frames s (running s)) = []"
    using f(1) by simp
  show "tok l (f # frames s (running s)) \<le> tok l (frames s (running s))" if "l \<in> L" for l
  proof -
    have "f \<noteq> Sema_down (lock_sema l) lv" for lv using f(3)[of "lock_sema l" lv] that by auto
    then show ?thesis using tok_cons[of f l "frames s (running s)"] f(4) by (simp add: waits_def)
  qed
  show "frames_fit L (f # frames s (running s))"
    using frames_fitD[OF ok, of "running s"] f(2,3) by (cases f) (auto simp: frames_fit_def)
qed

end
