(* ===== verification/Kernel_Steps.thy ===== *)
theory Kernel_Steps
  imports Kernel_Inv
begin

text \<open>
  Every step of the running system keeps the invariant of the thread system, and the initialisation establishes
  it, so it holds in every reachable state.
\<close>

section \<open>Giving up the processor\<close>

lemma tview_update [simp]:
  "tview (s\<lparr>ready_list := r\<rparr>) = tview s" "tview (s\<lparr>running := t\<rparr>) = tview s" "tview (s\<lparr>semas := sm\<rparr>) = tview s"
  "tview (s\<lparr>frames := fr\<rparr>) = tview s" "tview (s\<lparr>holders := h\<rparr>) = tview s" "tview (s\<lparr>conds := c\<rparr>) = tview s"
  "tview (s\<lparr>idle_thread := i\<rparr>) = tview s" "tview (set_frames fs s) = tview s" "tview (intr_disable s) = tview s"
  "tview (s\<lparr>level := l\<rparr>) = tview s" "holders (intr_disable s) = holders s" "conds (intr_disable s) = conds s"
  by (simp_all add: tview_def fun_eq_iff set_frames_def intr_disable_def)

lemma core_cong:
  assumes "core s = core s'"
  shows "core (set_st t x s) = core (set_st t x s')" "core (push_frame f s) = core (push_frame f s')"
    "core (set_frames fs s) = core (set_frames fs s')" "core (set_sema p y s) = core (set_sema p y s')"
    "core (s\<lparr>holders := h\<rparr>) = core (s'\<lparr>holders := h\<rparr>)" "core (s\<lparr>ready_list := r\<rparr>) = core (s'\<lparr>ready_list := r\<rparr>)"
proof -
  note c = core_eqD[OF assms]
  show "core (set_st t x s) = core (set_st t x s')" using c by (simp add: core_def tview_set_st fun_eq_iff)
  show "core (push_frame f s) = core (push_frame f s')" "core (set_frames fs s) = core (set_frames fs s')"
    "core (set_sema p y s) = core (set_sema p y s')"
    "core (s\<lparr>holders := h\<rparr>) = core (s'\<lparr>holders := h\<rparr>)" "core (s\<lparr>ready_list := r\<rparr>) = core (s'\<lparr>ready_list := r\<rparr>)"
    using c by (simp_all add: core_def push_frame_set)
qed

text \<open>The running thread gets another status; a thread that stays ready goes to the end of the run queue.\<close>

lemma stop_ok:
  assumes ok: "kernel_ok L s" and x: "x \<noteq> THREAD_RUNNING" "x = THREAD_DYING \<Longrightarrow> running s \<noteq> idle_thread s"
  defines "rl \<equiv> if x = THREAD_READY \<and> running s \<noteq> idle_thread s then ready_list s @ [running s] else ready_list s"
  shows "base_ok L (set_st (running s) x (s\<lparr>ready_list := rl\<rparr>))"
    and "st (set_st (running s) x (s\<lparr>ready_list := rl\<rparr>)) u \<noteq> Some THREAD_RUNNING"
proof -
  let ?s = "set_st (running s) x (s\<lparr>ready_list := rl\<rparr>)"
  note b = base_okD[OF kernel_okD(1)[OF ok]] and r = running_awake[OF ok]
  have "distinct rl" using conjunct1[OF b(1)[unfolded queue_ok_def]] r(4) by (simp add: rl_def)
  moreover have "v \<in> set rl \<longleftrightarrow> st ?s v = Some THREAD_READY \<and> v \<noteq> idle_thread s" for v
    using b(1) r(3,4) by (cases "v = running s") (simp_all add: rl_def queue_ok_def)
  ultimately have "queue_ok ?s" by (simp add: queue_ok_def)
  moreover have "sleepers_ok ?s"
  proof -
    have "v \<noteq> running s" if "v \<in> set (waiters (semas s p))" for v p using r(1) that by blast
    then show ?thesis using b(2) by (simp add: sleepers_ok_def)
  qed
  moreover have "idle_ok ?s" using b(3) x(2) r(2) by (auto simp: idle_ok_def)
  moreover have "create_ok ?s"
  proof (rule create_okI)
    show "length (filter is_create (frames ?s v)) \<le> 1" for v
      using createD(1)[OF b(4)] by simp
    show "frames ?s t = [Kernel_thread] \<and> st ?s t = Some THREAD_BLOCKED" if "Create_tail t n \<in> set (frames ?s v)" for v t n
      using createD(2)[OF b(4), of t n v] that r(3) by (cases "t = running s") simp_all
    show "v = w" if "Create_tail t n \<in> set (frames ?s w)" "Create_tail t n' \<in> set (frames ?s v)" for v w t n n'
      using createD(3)[OF b(4), of t n w n' v] that by simp
  qed
  moreover have "locks_ok L ?s" "frames_ok L ?s" "refs_ok L ?s"
    using b(5,6,7) by (simp_all add: locks_ok_def frames_ok_def)
  ultimately show "base_ok L ?s" by (simp add: base_ok_def)
  show "st ?s u \<noteq> Some THREAD_RUNNING"
    using kernel_okD(2)[OF ok, of u] x(1) r(3) by (cases "u = running s") simp_all
qed

lemma stop_schedule_ok:
  assumes "schedule s1 = Some s'" and ok: "kernel_ok L s"
    and x: "x \<noteq> THREAD_RUNNING" "x = THREAD_DYING \<Longrightarrow> running s \<noteq> idle_thread s"
    and c: "core s1 = core (set_st (running s) x (s\<lparr>ready_list :=
      if x = THREAD_READY \<and> running s \<noteq> idle_thread s then ready_list s @ [running s] else ready_list s\<rparr>))"
  shows "kernel_ok L s'"
  by (rule schedule_ok[OF assms(1)]) (use stop_ok[OF ok x] base_ok_core[OF c] st_core[OF c] in simp_all)

lemma sleep_ok:
  assumes base: "base_ok L s" and t: "st s t = Some THREAD_BLOCKED" "frames s t = Sema_down p lv # fs" "t \<notin> set (waiters (semas s p))"
  shows "base_ok L (set_sema p (waiters_update (\<lambda>ws. ws @ [t]) (semas s p)) s)"
proof -
  let ?s = "set_sema p (waiters_update (\<lambda>ws. ws @ [t]) (semas s p)) s"
  note b = base_okD[OF base]
  have "sleepers_ok ?s" using b(2) t by (auto simp: sleepers_ok_def)
  moreover have "locks_ok L ?s" by (rule locks_ok_cong[OF b(5)]) simp_all
  moreover have "refs_ok L ?s" using b(7) by (simp add: set_sema_def)
  ultimately show ?thesis
    using b by (simp add: base_ok_def queue_ok_def idle_ok_def create_ok_def frames_ok_def)
qed

lemma thread_yield_ok:
  assumes "thread_yield s = Some s'" and ok: "kernel_ok L s"
  shows "kernel_ok L s'"
proof -
  let ?p = "push_frame (Set_level (level s)) s"
  let ?r = "if running s \<noteq> idle_thread s then ready_list s @ [running s] else ready_list s"
  obtain s1 where s1: "upd_thread (running s) (status_update (\<lambda>_. THREAD_READY))
      (if running s \<noteq> idle_thread s then intr_disable s\<lparr>ready_list := ready_list (intr_disable s) @ [running s]\<rparr>
       else intr_disable s) = Some s1"
    and s': "schedule (push_frame (Set_level (level s)) s1) = Some s'"
    using assms(1) by (auto simp: thread_yield_def bind_eq_Some_conv Let_def intr_get_level_def dest!: thread_currentD simp del: if_split_asm)
  have p: "kernel_ok L ?p" by (rule push_frame_ok[OF ok]) (simp_all add: quiet_def is_create_def)
  show ?thesis
  proof (rule stop_schedule_ok[OF s' p, of THREAD_READY])
    have "s1 = set_st (running s) THREAD_READY (intr_disable s\<lparr>ready_list := ?r\<rparr>)"
      using s1 by (cases "running s = idle_thread s") (simp_all add: upd_status intr_disable_def)
    then show "core (push_frame (Set_level (level s)) s1) = core (set_st (running ?p) THREAD_READY (?p\<lparr>ready_list :=
      if THREAD_READY = THREAD_READY \<and> running ?p \<noteq> idle_thread ?p then ready_list ?p @ [running ?p] else ready_list ?p\<rparr>))"
      by (simp add: core_def push_frame_set tview_set_st fun_eq_iff intr_disable_def)
  qed simp_all
qed

lemma thread_block_ok:
  assumes "thread_block s = Some s'" "kernel_ok L s"
  shows "kernel_ok L s'"
proof -
  have "schedule (set_st (running s) THREAD_BLOCKED s) = Some s'"
    using assms(1) by (auto simp: thread_block_def bind_eq_Some_conv upd_status dest!: thread_currentD)
  then show ?thesis
    by (rule stop_schedule_ok[OF _ assms(2), of _ _ THREAD_BLOCKED]) simp_all
qed


section \<open>Semaphores and locks\<close>

text \<open>A round of the loop of \<open>sema_down\<close>: the thread sleeps, or takes the semaphore.\<close>

lemma sema_down_sleep:
  assumes "sema_down_loop p lv (set_frames fs s) = Some s'" and ok: "kernel_ok L s"
    and top: "frames s (running s) = Sema_down p lv # fs" and v: "sema_value (semas s p) = 0"
  shows "kernel_ok L s'"
proof -
  let ?w = "waiters_update (\<lambda>ws. ws @ [running s]) (semas s p)"
  let ?s = "push_frame (Sema_down p lv) (set_sema p ?w (set_frames fs s))"
  let ?b = "set_st (running s) THREAD_BLOCKED s"
  have s': "schedule (set_st (running s) THREAD_BLOCKED ?s) = Some s'"
    using assms(1) v
    by (auto simp: sema_down_loop_def thread_block_def bind_eq_Some_conv Let_def upd_status set_sema_def
        push_frame_set dest!: thread_currentD)
  have b: "base_ok L ?b" "\<And>u. st ?b u \<noteq> Some THREAD_RUNNING"
    using stop_ok[OF ok, of THREAD_BLOCKED] by simp_all
  have fr: "frames (set_st (running s) THREAD_BLOCKED ?s) = frames s"
    using top by (simp add: push_frame_set fun_upd_idem)
  have c: "core (set_st (running s) THREAD_BLOCKED ?s) = core (set_sema p (waiters_update (\<lambda>ws. ws @ [running s]) (semas ?b p)) ?b)"
    unfolding core_def fr
    by (simp add: push_frame_set tview_set_st fun_eq_iff)
  have "base_ok L (set_sema p (waiters_update (\<lambda>ws. ws @ [running s]) (semas ?b p)) ?b)"
    by (rule sleep_ok[OF b(1)]) (use top running_awake[OF ok] in simp_all)
  then show ?thesis
    using base_ok_core[OF c] b(2) st_core[OF c] by (intro schedule_ok[OF s']) simp_all
qed

lemma distinct_waiters: "kernel_ok L s \<Longrightarrow> distinct (waiters (semas s p))"
  by (simp add: kernel_ok_def base_ok_def sleepers_ok_def)

lemma lock_okD: "kernel_ok L s \<Longrightarrow> l \<in> L \<Longrightarrow>
    lock_ok (sema_value (semas s (lock_sema l))) (holders s l) (\<lambda>u. tok l (frames s u))"
  by (simp add: kernel_ok_def base_ok_def locks_ok_def)

lemma sema_down_take:
  assumes "sema_down_loop p lv (set_frames fs s) = Some s'" and ok: "kernel_ok L s"
    and top: "frames s (running s) = Sema_down p lv # fs" and v: "sema_value (semas s p) \<noteq> 0"
  shows "kernel_ok L s'"
proof -
  let ?x = "sema_value_update (\<lambda>v. v - 1) (semas s p)"
  have c: "core s' = core (set_frames fs (set_sema p ?x s))"
  proof -
    have "core s' = core (set_sema p ?x (set_frames fs s))"
      using assms(1) v by (simp add: sema_down_loop_def set_sema_def core_intr_set_level)
    then show ?thesis by (simp add: core_def)
  qed
  have idle: "running s \<noteq> idle_thread s" by (rule top_not_idle[OF ok top]) (simp_all add: quiet_def)
  have fit: "frames_fit L (Sema_down p lv # fs)" using frames_fitD[OF ok, of "running s"] top by simp
  have s1: "kernel_ok L (set_sema p ?x s)"
  proof (rule set_sema_ok[OF ok])
    show "locks_ok L (set_sema p ?x s)"
      unfolding locks_ok_def
    proof
      fix l assume l: "l \<in> L"
      show "lock_ok (sema_value (semas (set_sema p ?x s) (lock_sema l))) (holders (set_sema p ?x s) l)
          (\<lambda>u. tok l (frames (set_sema p ?x s) u))"
        using lock_okD[OF ok l] lock_ok_down(2)[OF lock_okD[OF ok l]] v by (cases "lock_sema l = p") auto
    qed
  qed (simp_all add: distinct_waiters[OF ok])
  have "kernel_ok L (set_frames fs (set_sema p ?x s))"
  proof (rule set_frames_locks_ok[OF s1])
    show "locks_ok L (set_frames fs (set_sema p ?x s))"
      unfolding locks_ok_def
    proof
      fix l assume l: "l \<in> L"
      have "lock_ok (sema_value (semas (set_sema p ?x s) (lock_sema l))) (holders s l) ((\<lambda>u. tok l (frames s u))(running s := tok l fs))"
      proof (cases "lock_sema l = p")
        case True
        then obtain fs' where fs: "fs = Lock_take l # fs'" using fit l by (auto simp: frames_fit_def)
        have "tok l (frames s (running s)) = tok l fs'" using top fs True tok_wait[of l l lv fs'] by simp
        moreover have "tok l fs = Suc (tok l fs')" using tok_take[of l l fs'] fs by simp
        ultimately show ?thesis using lock_ok_down(1)[OF lock_okD[OF ok l], of "running s"] True v by auto
      next
        case False
        then have "tok l fs = tok l (frames s (running s))" using top tok_down[of p l lv fs] by simp
        then have "(\<lambda>u. tok l (frames s u))(running s := tok l fs) = (\<lambda>u. tok l (frames s u))" by (simp add: fun_upd_idem)
        then show ?thesis using lock_okD[OF ok l] False by simp
      qed
      moreover have "(\<lambda>u. tok l (frames s u))(running s := tok l fs) =
          (\<lambda>u. tok l (frames (set_frames fs (set_sema p ?x s)) u))" by auto
      ultimately show "lock_ok (sema_value (semas (set_frames fs (set_sema p ?x s)) (lock_sema l)))
          (holders (set_frames fs (set_sema p ?x s)) l) (\<lambda>u. tok l (frames (set_frames fs (set_sema p ?x s)) u))"
        by simp
    qed
    show "filter is_create fs = filter is_create (frames (set_sema p ?x s) (running (set_sema p ?x s))) \<or> filter is_create fs = []"
      using top by (simp add: is_create_def)
    show "frames_fit L fs" using frames_fit_Cons[OF fit] by simp
  qed (use idle in simp)
  then show ?thesis using kernel_ok_core[OF c] by simp
qed


lemma sema_init_ok:
  assumes "sema_init p v s = Some s'" and ok: "kernel_ok L s" and p: "p \<notin> lock_sema ` L"
  shows "kernel_ok L s' \<and> keeps s s' \<and> holders s' = holders s"
proof -
  have s': "s' = set_sema p \<lparr>sema_value = v, waiters = []\<rparr> s"
    using assms(1) by (simp add: sema_init_def bind_eq_Some_conv set_sema_def)
  have "kernel_ok L s'"
    unfolding s'
  proof (rule set_sema_ok[OF ok])
    show "locks_ok L (set_sema p \<lparr>sema_value = v, waiters = []\<rparr> s)"
      by (rule locks_ok_cong[OF base_okD(5)[OF kernel_okD(1)[OF ok]]]) (use p in auto)
  qed simp_all
  then show ?thesis using keeps_set_sema by (simp add: s')
qed

lemma sema_down_ok:
  assumes "sema_down p s = Some s'" "kernel_ok L s" "p \<notin> lock_sema ` L" "running s \<noteq> idle_thread s"
  shows "kernel_ok L s'"
proof -
  have "core s' = core (push_frame (Sema_down p (level s)) s)"
    using assms(1) by (auto simp: sema_down_def bind_eq_Some_conv intr_get_level_def)
  moreover have "kernel_ok L (push_frame (Sema_down p (level s)) s)"
    by (rule push_frame_ok[OF assms(2)]) (use assms(3,4) in \<open>simp_all add: is_create_def\<close>)
  ultimately show ?thesis using kernel_ok_neutral by blast
qed

lemma lock_acquire_ok:
  assumes "lock_acquire l s = Some s'" and ok: "kernel_ok L s" and l: "l \<in> L" and idle: "running s \<noteq> idle_thread s"
  shows "kernel_ok L s'"
proof -
  let ?fs = "Sema_down (lock_sema l) (level s) # Lock_take l # frames s (running s)"
  have "core s' = core (set_frames ?fs s)"
    using assms(1)
    by (auto simp: lock_acquire_def sema_down_def bind_eq_Some_conv intr_get_level_def push_frame_set)
  moreover have "kernel_ok L (set_frames ?fs s)"
  proof (rule set_frames_ok[OF ok])
    show "tok k ?fs \<le> tok k (frames s (running s))" for k using tok_wait[of k l] by simp
    show "frames_fit L ?fs" using frames_fitD[OF ok, of "running s"] l by (auto simp: frames_fit_def)
  qed (use idle in \<open>simp_all add: is_create_def\<close>)
  ultimately show ?thesis using kernel_ok_neutral by blast
qed

lemma set_holder_ok:
  assumes ok: "kernel_ok L s" and l: "l \<in> L \<Longrightarrow> lock_ok (sema_value (semas s (lock_sema l))) h (\<lambda>u. tok l (frames s u))"
  shows "kernel_ok L (s\<lparr>holders := (holders s)(l := h)\<rparr>)"
proof -
  let ?s = "s\<lparr>semas := semas s, holders := (holders s)(l := h)\<rparr>"
  have "kernel_ok L ?s"
  proof (rule semas_ok[OF ok])
    show "locks_ok L ?s"
      unfolding locks_ok_def
    proof
      fix k assume k: "k \<in> L"
      show "lock_ok (sema_value (semas ?s (lock_sema k))) (holders ?s k) (\<lambda>u. tok k (frames ?s u))"
        using lock_okD[OF ok k] l k by (cases "k = l") simp_all
    qed
  qed (simp add: distinct_waiters[OF ok])
  then show ?thesis by simp
qed

lemma lock_take_ok:
  assumes "lock_take l (set_frames fs s) = Some s'" and ok: "kernel_ok L s"
    and top: "frames s (running s) = Lock_take l # fs"
  shows "kernel_ok L s'"
proof -
  have s': "s' = (set_frames fs s)\<lparr>holders := (holders (set_frames fs s))(l := running s)\<rparr>"
    using assms(1) by (auto simp: lock_take_def bind_eq_Some_conv dest!: thread_currentD)
  have pop: "kernel_ok L (set_frames fs s)" by (rule pop_frame_ok[OF ok top]) simp_all
  show ?thesis
    unfolding s'
  proof (rule set_holder_ok[OF pop])
    assume l: "l \<in> L"
    have "tok l (frames s (running s)) = Suc (tok l fs)" using top tok_take[of l l fs] by simp
    then have "lock_ok (sema_value (semas s (lock_sema l))) (running s) ((\<lambda>u. tok l (frames s u))(running s := tok l fs))"
      by (rule lock_ok_enter[OF lock_okD[OF ok l]])
    moreover have "(\<lambda>u. tok l (frames s u))(running s := tok l fs) = (\<lambda>u. tok l (frames (set_frames fs s) u))" by auto
    ultimately show "lock_ok (sema_value (semas (set_frames fs s) (lock_sema l))) (running s) (\<lambda>u. tok l (frames (set_frames fs s) u))"
      by simp
  qed
qed

lemma sema_try_down_core:
  assumes "sema_try_down p s = Some (r, s')"
  shows "if r then sema_value (semas s p) \<noteq> 0 \<and> core s' = core (set_sema p (sema_value_update (\<lambda>v. v - 1) (semas s p)) s)
    else core s' = core s"
  using assms
  by (auto simp: sema_try_down_def bind_eq_Some_conv Let_def set_sema_def word_neq_0_conv core_def split: if_splits
      dest!: core_intr_set_level)

lemma sema_try_down_ok:
  assumes "sema_try_down p s = Some (r, s')" and ok: "kernel_ok L s" and p: "p \<notin> lock_sema ` L"
  shows "kernel_ok L s'"
proof (cases r)
  case True
  let ?x = "sema_value_update (\<lambda>v. v - 1) (semas s p)"
  have "kernel_ok L (set_sema p ?x s)"
  proof (rule set_sema_ok[OF ok])
    show "locks_ok L (set_sema p ?x s)"
      by (rule locks_ok_cong[OF base_okD(5)[OF kernel_okD(1)[OF ok]]]) (use p in auto)
  qed (simp_all add: distinct_waiters[OF ok])
  then show ?thesis using sema_try_down_core[OF assms(1)] True kernel_ok_neutral by auto
next
  case False
  then show ?thesis using sema_try_down_core[OF assms(1)] ok kernel_ok_neutral by auto
qed

lemma lock_try_acquire_ok:
  assumes "lock_try_acquire l s = Some (r, s')" and ok: "kernel_ok L s" and l: "l \<in> L"
  shows "kernel_ok L s'"
proof -
  obtain s1 where s1: "sema_try_down (lock_sema l) s = Some (r, s1)" "(if r then lock_take l s1 else Some s1) = Some s'"
    using assms(1) by (auto simp: lock_try_acquire_def bind_eq_Some_conv split: prod.splits)
  show ?thesis
  proof (cases r)
    case True
    let ?x = "sema_value_update (\<lambda>v. v - 1) (semas s (lock_sema l))"
    let ?s = "s\<lparr>semas := (semas s)(lock_sema l := ?x), holders := (holders s)(l := running s)\<rparr>"
    have c1: "sema_value (semas s (lock_sema l)) \<noteq> 0" "core s1 = core (set_sema (lock_sema l) ?x s)"
      using sema_try_down_core[OF s1(1)] True by simp_all
    note e = core_eqD[OF c1(2)]
    have "s' = s1\<lparr>holders := (holders s1)(l := running s1)\<rparr>"
      using s1(2) True by (auto simp: lock_take_def bind_eq_Some_conv dest!: thread_currentD)
    then have "core s' = core ?s" using e by (simp add: core_def)
    moreover have "kernel_ok L ?s"
    proof (rule semas_ok[OF ok])
      show "locks_ok L ?s"
        unfolding locks_ok_def
      proof
        fix k assume k: "k \<in> L"
        show "lock_ok (sema_value (semas ?s (lock_sema k))) (holders ?s k) (\<lambda>u. tok k (frames ?s u))"
          using lock_okD[OF ok k] lock_ok_down(2)[OF lock_okD[OF ok l] c1(1)] by (cases "k = l") simp_all
      qed
    qed (simp add: distinct_waiters[OF ok])
    ultimately show ?thesis using kernel_ok_neutral by blast
  next
    case False
    then show ?thesis using sema_try_down_core[OF s1(1)] s1(2) ok kernel_ok_neutral by auto
  qed
qed

lemma lock_release_ok:
  assumes "lock_release l s = Some s'" and ok: "kernel_ok L s" and l: "l \<in> L"
  shows "kernel_ok L s' \<and> keeps s s'"
proof -
  let ?h = "s\<lparr>holders := (holders s)(l := NULL)\<rparr>"
  let ?x = "sema_value_update (\<lambda>v. v + 1) (semas s (lock_sema l))"
  have h: "holders s l \<noteq> NULL" and s': "sema_up (lock_sema l) ?h = Some s'"
    using assms(1) by (auto simp: lock_release_def lock_held_by_current_thread_def bind_eq_Some_conv dest!: thread_currentD)
  have z: "tok l (frames s u) = 0" for u
    using lock_okD[OF ok l] h by (simp add: lock_ok_def)
  have v: "sema_value (semas s (lock_sema l)) = 0"
    using lock_okD[OF ok l] h by (auto simp: lock_ok_def)
  have okh: "kernel_ok L ?h"
    by (rule set_holder_ok[OF ok]) (simp add: lock_ok_zero z v)
  have "locks_ok L (set_sema (lock_sema l) (sema_value_update (\<lambda>v. v + 1) (semas ?h (lock_sema l))) ?h)"
    unfolding locks_ok_def
  proof
    fix k assume k: "k \<in> L"
    show "lock_ok (sema_value (semas (set_sema (lock_sema l) (sema_value_update (\<lambda>v. v + 1) (semas ?h (lock_sema l))) ?h) (lock_sema k)))
        (holders (set_sema (lock_sema l) (sema_value_update (\<lambda>v. v + 1) (semas ?h (lock_sema l))) ?h) k)
        (\<lambda>u. tok k (frames (set_sema (lock_sema l) (sema_value_update (\<lambda>v. v + 1) (semas ?h (lock_sema l))) ?h) u))"
      using lock_okD[OF ok k] lock_ok_zero[of "\<lambda>u. tok k (frames s u)" 1 NULL] v z by (cases "k = l") simp_all
  qed
  then have "kernel_ok L s' \<and> keeps ?h s'" using sema_up_ok[OF s' okh] by blast
  moreover have "keeps s ?h" by (simp add: keeps_def)
  ultimately show ?thesis using keeps_trans by blast
qed

lemma lock_init_ok:
  assumes "lock_init l s = Some s'" and ok: "kernel_ok L s" and l: "l \<in> L" and z: "\<And>u. tok l (frames s u) = 0"
  shows "kernel_ok L s'"
proof -
  let ?s = "s\<lparr>semas := (semas s)(lock_sema l := \<lparr>sema_value = 1, waiters = []\<rparr>), holders := (holders s)(l := NULL)\<rparr>"
  have "core s' = core ?s"
    using assms(1) by (auto simp: lock_init_def sema_init_def bind_eq_Some_conv core_def)
  moreover have "kernel_ok L ?s"
  proof (rule semas_ok[OF ok])
    show "locks_ok L ?s"
      unfolding locks_ok_def
    proof
      fix k assume k: "k \<in> L"
      show "lock_ok (sema_value (semas ?s (lock_sema k))) (holders ?s k) (\<lambda>u. tok k (frames ?s u))"
        using lock_okD[OF ok k] lock_ok_init[of "\<lambda>u. tok k (frames s u)"] z by (cases "k = l") simp_all
    qed
  qed (simp add: distinct_waiters[OF ok])
  ultimately show ?thesis using kernel_ok_neutral by blast
qed


section \<open>Condition variables\<close>

lemma set_conds_ok:
  assumes "kernel_ok L s" "set ws \<inter> lock_sema ` L = {}"
  shows "kernel_ok L (s\<lparr>conds := (conds s)(c := ws)\<rparr>)"
  using assms
  by (simp add: kernel_ok_def base_ok_def queue_ok_def sleepers_ok_def idle_ok_def create_ok_def locks_ok_def frames_ok_def refs_ok_def)

lemma condsD: "kernel_ok L s \<Longrightarrow> set (conds s c) \<inter> lock_sema ` L = {}"
  by (simp add: kernel_ok_def base_ok_def refs_ok_def)

lemma cond_wait_ok:
  assumes "cond_wait c l w s = Some s'" and ok: "kernel_ok L s" and l: "l \<in> L" and w: "w \<notin> lock_sema ` L"
    and idle: "running s \<noteq> idle_thread s"
  shows "kernel_ok L s'"
proof -
  obtain s1 s2 where s1: "sema_init w 0 s = Some s1"
    and s2: "lock_release l (s1\<lparr>conds := (conds s1)(c := conds s1 c @ [w])\<rparr>) = Some s2"
    and s': "sema_down w (push_frame (Cond_acquire l) s2) = Some s'"
    using assms(1) by (auto simp: cond_wait_def bind_eq_Some_conv Let_def)
  note k1 = sema_init_ok[OF s1 ok w]
  have "kernel_ok L (s1\<lparr>conds := (conds s1)(c := conds s1 c @ [w])\<rparr>)"
    by (rule set_conds_ok) (use k1 condsD[of L s1 c] w in auto)
  note k2 = lock_release_ok[OF s2 this l]
  have i2: "running s2 \<noteq> idle_thread s2"
    using keepsD(1,2)[OF conjunct2[OF k2]] keepsD(1,2)[OF conjunct1[OF conjunct2[OF k1]]] idle by simp
  have "kernel_ok L (push_frame (Cond_acquire l) s2)"
    by (rule push_frame_ok) (use k2 i2 l in \<open>simp_all add: is_create_def\<close>)
  then show ?thesis
    by (rule sema_down_ok[OF s']) (use w i2 in \<open>simp_all add: push_frame_set\<close>)
qed

lemma cond_signal_ok:
  assumes "cond_signal c l s = Some s'" and ok: "kernel_ok L s"
  shows "kernel_ok L s'"
proof (cases "conds s c")
  case Nil
  then show ?thesis using assms by (auto simp: cond_signal_def bind_eq_Some_conv)
next
  case (Cons w ws)
  have "sema_up w (s\<lparr>conds := (conds s)(c := ws)\<rparr>) = Some s'"
    using assms(1) Cons by (auto simp: cond_signal_def bind_eq_Some_conv)
  then show ?thesis
    using sema_up_plain set_conds_ok[OF ok, of ws c] condsD[OF ok, of c] Cons by fastforce
qed

lemma broadcast_loop_ok: "broadcast_loop n c l s = Some s' \<Longrightarrow> kernel_ok L s \<Longrightarrow> kernel_ok L s'"
  by (induction n arbitrary: s) (auto simp: bind_eq_Some_conv split: if_splits dest: cond_signal_ok)

lemma cond_broadcast_ok: "cond_broadcast c l s = Some s' \<Longrightarrow> kernel_ok L s \<Longrightarrow> kernel_ok L s'"
  using broadcast_loop_ok by (auto simp: cond_broadcast_def bind_eq_Some_conv)

section \<open>Thread structures\<close>

text \<open>A change of a thread that keeps its status.\<close>

lemma upd_thread_ok:
  assumes "upd_thread t f s = Some s'" and ok: "kernel_ok L s" and f: "\<And>th. status (f th) = status th"
    and r: "\<And>th. threads s t = Some th \<Longrightarrow> ref_ok L t (tid_node (f th)) (child_nodes (f th))"
  shows "kernel_ok L s'" "running s' = running s" "idle_thread s' = idle_thread s" "frames s' = frames s"
    "semas s' = semas s" "holders s' = holders s" "st s' = st s"
proof -
  obtain th where th: "threads s t = Some th" "s' = s\<lparr>threads := (threads s)(t \<mapsto> f th)\<rparr>"
    using assms(1) by (auto simp: upd_thread_def bind_eq_Some_conv)
  show same: "running s' = running s" "idle_thread s' = idle_thread s" "frames s' = frames s" "semas s' = semas s"
      "holders s' = holders s"
    using th(2) by simp_all
  have same2: "ready_list s' = ready_list s" "conds s' = conds s" using th(2) by simp_all
  show st: "st s' = st s" using th f by (auto simp: st_def tview_def fun_eq_iff)
  note b = base_okD[OF kernel_okD(1)[OF ok]]
  have "ref_ok L u n ns" if "tview s' u = Some (a, n, ns)" for u a n ns
    using that b(7) r[OF th(1)] th by (cases "u = t") (auto simp: tview_def refs_ok_def)
  then have "refs_ok L s'" using b(7) same2 by (simp add: refs_ok_def)
  then show "kernel_ok L s'"
    using ok b same same2 st
    by (simp add: kernel_ok_def base_ok_def queue_ok_def sleepers_ok_def idle_ok_def create_ok_def locks_ok_def frames_ok_def)
qed

lemma refsD: "kernel_ok L s \<Longrightarrow> threads s t = Some th \<Longrightarrow> ref_ok L t (tid_node th) (child_nodes th)"
  by (auto simp: kernel_ok_def base_ok_def refs_ok_def tview_def)

lemma upd_thread_same:
  assumes "upd_thread t f s = Some s'" and ok: "kernel_ok L s"
    and f: "\<And>th. status (f th) = status th \<and> tid_node (f th) = tid_node th \<and> child_nodes (f th) = child_nodes th"
  shows "kernel_ok L s'" "core s' = core s"
proof -
  show "kernel_ok L s'"
    by (rule upd_thread_ok(1)[OF assms(1) ok]) (use f refsD[OF ok, of t] in simp_all)
  show "core s' = core s"
    using assms(1) f by (auto simp: upd_thread_def bind_eq_Some_conv core_def tview_def fun_eq_iff)
qed


section \<open>Creating threads\<close>

text \<open>A new thread, blocked, and with the first function to run.\<close>

definition add_thread :: "ptr \<Rightarrow> thread \<Rightarrow> kernel \<Rightarrow> kernel" where
  "add_thread t th s = s\<lparr>threads := (threads s)(t \<mapsto> th), frames := (frames s)(t := [Kernel_thread])\<rparr>"

lemma add_thread_ok:
  assumes ok: "kernel_ok L s" and t: "t \<noteq> NULL" "threads s t = None" "frames s t = []"
    and th: "status th = THREAD_BLOCKED" "ref_ok L t (tid_node th) (child_nodes th)"
  shows "kernel_ok L (add_thread t th s)" "t \<noteq> running s" "Create_tail t n \<notin> set (frames (add_thread t th s) u)"
proof -
  let ?s = "add_thread t th s"
  note base = kernel_okD(1)[OF ok] note b = base_okD[OF base]
  have no: "st s t = None" using t(2) by (simp add: st_def tview_def)
  have tv: "tview ?s v = (if v = t then Some (THREAD_BLOCKED, tid_node th, child_nodes th) else tview s v)"
    and stv: "st ?s v = (if v = t then Some THREAD_BLOCKED else st s v)" for v
    using th(1) by (simp_all add: add_thread_def tview_def st_def)
  have same: "ready_list ?s = ready_list s" "semas ?s = semas s" "idle_thread ?s = idle_thread s"
    "holders ?s = holders s" "conds ?s = conds s" "running ?s = running s" "frames ?s = (frames s)(t := [Kernel_thread])"
    by (simp_all add: add_thread_def)
  show tr: "t \<noteq> running s" using running_awake(3)[OF ok] no by auto
  have p: "t \<notin> set (ready_list s)" "t \<notin> set (waiters (semas s q))" for q
    using readyD[OF base, of t] sleeperD[OF base, of t q] no by auto
  have ti: "t \<noteq> idle_thread s" using b(3) no t(1) by (cases "idle_thread s = NULL") (auto simp: idle_ok_def)
  have cr: "Create_tail t m \<notin> set (frames s v)" for m v
    using createD(2)[OF b(4), of t m v] no by auto
  then show "Create_tail t n \<notin> set (frames ?s u)" by (simp add: same)
  have "v \<in> set (ready_list s) \<longleftrightarrow> st ?s v = Some THREAD_READY \<and> v \<noteq> idle_thread s" for v
    using b(1) p(1) by (cases "v = t") (simp_all add: stv queue_ok_def)
  then have "queue_ok ?s" using b(1) by (simp add: queue_ok_def same)
  moreover have "sleepers_ok ?s"
  proof -
    have "v \<noteq> t" if "v \<in> set (waiters (semas s q))" for v q using p(2) that by blast
    then show ?thesis using b(2) by (simp add: sleepers_ok_def same stv)
  qed
  moreover have "idle_ok ?s" using b(3) t(1) ti by (simp add: idle_ok_def same stv)
  moreover have "create_ok ?s"
  proof (rule create_okI)
    show "length (filter is_create (frames ?s v)) \<le> 1" for v
      using createD(1)[OF b(4), of v] by (simp add: same is_create_def)
    show "frames ?s r = [Kernel_thread] \<and> st ?s r = Some THREAD_BLOCKED" if "Create_tail r m \<in> set (frames ?s v)" for v r m
      using createD(2)[OF b(4), of r m v] that by (cases "v = t"; cases "r = t") (simp_all add: same stv)
    show "v = w" if "Create_tail r m \<in> set (frames ?s w)" "Create_tail r m' \<in> set (frames ?s v)" for v w r m m'
      using createD(3)[OF b(4), of r m w m' v] that by (cases "v = t"; cases "w = t") (simp_all add: same)
  qed
  moreover have "locks_ok L ?s"
    by (rule locks_ok_le[OF b(5)]) (simp_all add: same)
  moreover have "frames_ok L ?s" using b(6) by (simp add: frames_ok_def same)
  moreover have "refs_ok L ?s" using b(7) th(2) by (auto simp: refs_ok_def same tv split: if_splits)
  moreover have "st ?s v = Some THREAD_RUNNING \<longleftrightarrow> v = running ?s" for v
    using kernel_okD(2)[OF ok, of v] tr by (cases "v = t") (simp_all add: stv same)
  ultimately show "kernel_ok L ?s" by (simp add: kernel_ok_def base_ok_def)
qed

lemma push_create_ok:
  assumes ok: "kernel_ok L s" and idle: "running s \<noteq> idle_thread s"
    and none: "filter is_create (frames s (running s)) = []"
    and t: "frames s t = [Kernel_thread]" "st s t = Some THREAD_BLOCKED" "\<And>u n. Create_tail t n \<notin> set (frames s u)"
    and n: "node_sema n \<notin> lock_sema ` L"
  shows "kernel_ok L (push_frame (Create_tail t n) s)"
  unfolding push_frame_set
proof (rule set_frames_create_ok[OF ok])
  let ?fs = "Create_tail t n # frames s (running s)"
  let ?s = "set_frames ?fs s"
  note b = base_okD[OF kernel_okD(1)[OF ok]]
  have tr: "t \<noteq> running s" using running_awake(3)[OF ok] t(2) by auto
  have other: "Create_tail r m \<notin> set (frames s (running s))" for r m
    using none by (auto simp: filter_empty_conv is_create_def)
  have new: "r = t \<and> u = running s \<or> u \<noteq> running s \<and> r \<noteq> t \<and> Create_tail r m \<in> set (frames s u)"
    if "Create_tail r m \<in> set (frames ?s u)" for r m u
    using that other[of r m] t(3)[of m u] by (cases "u = running s") auto
  show "create_ok ?s"
  proof (rule create_okI)
    show "length (filter is_create (frames ?s u)) \<le> 1" for u
      using createD(1)[OF b(4), of u] none by (simp add: is_create_def)
    show "frames ?s r = [Kernel_thread] \<and> st ?s r = Some THREAD_BLOCKED" if "Create_tail r m \<in> set (frames ?s u)" for u r m
      using new[OF that] createD(2)[OF b(4), of r m u] t(1,2) tr running_awake(3)[OF ok] by auto
    show "v = u" if "Create_tail r m \<in> set (frames ?s u)" "Create_tail r m' \<in> set (frames ?s v)" for u v r m m'
      using new[OF that(1)] new[OF that(2)] createD(3)[OF b(4), of r m u m' v] by blast
  qed
  have "tok l ?fs = tok l (frames s (running s))" for l by (rule tok_cons) (simp_all add: waits_def)
  then show "locks_ok L ?s" by (intro locks_ok_le[OF b(5)]) simp_all
  show "frames_fit L ?fs" using frames_fitD[OF ok, of "running s"] n by (simp add: frames_fit_def)
qed (use idle in simp)

lemma thread_create_ok:
  assumes "thread_create name prio t n s = Some s'" and ok: "kernel_ok L s" and v: "valid_locks L"
    and fresh: "fresh_page L t n s" and idle: "running s \<noteq> idle_thread s" and none: "filter is_create (frames s (running s)) = []"
  shows "kernel_ok L s'"
proof (cases "t = NULL")
  case True
  then show ?thesis using assms(1) ok kernel_ok_neutral by (fastforce simp: thread_create_def)
next
  case False
  then have f: "threads s t = None" "frames s t = []" "load_sema t \<notin> lock_sema ` L" "node_sema n \<notin> lock_sema ` L"
    using fresh by (simp_all add: fresh_page_def)
  obtain nm s1 where s1: "init_thread t (Some nm) prio s = Some s1"
    and s': "allocate_tid (push_frame (Create_tail t n) (s1\<lparr>frames := (frames s1)(t := [Kernel_thread])\<rparr>)) = Some s'"
    using assms(1) False by (cases name) (auto simp: thread_create_def bind_eq_Some_conv init_thread_def)
  define th where "th = fresh_thread t nm prio"
  define s2 where "s2 = set_sema (load_sema t) \<lparr>sema_value = 0, waiters = []\<rparr> (add_thread t th s)"
  have add: "kernel_ok L (add_thread t th s)" "t \<noteq> running s" "Create_tail t m \<notin> set (frames (add_thread t th s) u)" for m u
    using add_thread_ok[OF ok False f(1,2), of th] f(3) v
    by (auto simp: th_def fresh_thread_def ref_ok_def valid_locks_def)
  have "sema_init (load_sema t) 0 (add_thread t th s) = Some s2"
    by (simp add: sema_init_def s2_def set_sema_def load_sema_def NULL_def)
  then have ok2: "kernel_ok L s2" using sema_init_ok[OF _ add(1) f(3)] by blast
  have c: "core (s1\<lparr>frames := (frames s1)(t := [Kernel_thread])\<rparr>) = core s2"
    using s1 by (auto simp: init_thread_def sema_init_def bind_eq_Some_conv Let_def s2_def th_def core_def add_thread_def tview_def fun_eq_iff)
  have same: "running s2 = running s" "idle_thread s2 = idle_thread s" "frames s2 = (frames s)(t := [Kernel_thread])"
      "st s2 t = Some THREAD_BLOCKED"
    by (simp_all add: s2_def add_thread_def th_def fresh_thread_def st_def tview_def)
  have "kernel_ok L (push_frame (Create_tail t n) s2)"
    by (rule push_create_ok[OF ok2])
      (use idle none add(2) f(4) same add(3) in \<open>simp_all add: s2_def\<close>)
  then have p: "kernel_ok L (push_frame (Create_tail t n) (s1\<lparr>frames := (frames s1)(t := [Kernel_thread])\<rparr>))"
    using core_cong(2)[OF c] kernel_ok_neutral by blast
  show ?thesis
    by (rule lock_acquire_ok[OF s'[unfolded allocate_tid_def] p])
      (use v idle same core_eqD[OF c] in \<open>simp_all add: valid_locks_def push_frame_set\<close>)
qed


lemma allocate_tid_tail_ok:
  assumes "allocate_tid_tail s = Some (i, s')" and ok: "kernel_ok L s" and v: "valid_locks L"
  shows "kernel_ok L s' \<and> keeps s s'"
proof -
  have c: "core (s\<lparr>next_tid := next_tid s + 1\<rparr>) = core s" by simp
  have r: "lock_release tid_lock (s\<lparr>next_tid := next_tid s + 1\<rparr>) = Some s'"
    using assms(1) by (auto simp: allocate_tid_tail_def bind_eq_Some_conv Let_def)
  have "kernel_ok L s' \<and> keeps (s\<lparr>next_tid := next_tid s + 1\<rparr>) s'"
    using lock_release_ok[OF r kernel_ok_neutral[OF c ok]] v by (simp add: valid_locks_def)
  then show ?thesis using keeps_trans[OF keeps_core[OF c]] by blast
qed

lemma thread_init_tail_ok:
  assumes "thread_init_tail s = Some s'" "kernel_ok L s" "valid_locks L"
  shows "kernel_ok L s'"
proof -
  obtain i s1 where s1: "allocate_tid_tail s = Some (i, s1)" "upd_thread (initial_thread s1) (tid_update (\<lambda>_. i)) s1 = Some s'"
    using assms(1) by (auto simp: thread_init_tail_def bind_eq_Some_conv split: prod.splits)
  show ?thesis
    by (rule upd_thread_same(1)[OF s1(2)]) (use allocate_tid_tail_ok[OF s1(1) assms(2,3)] in simp_all)
qed

lemma alloc_frame_core: "alloc_frame t sz s = Some (b, s') \<Longrightarrow> core s' = core s"
  by (auto simp: alloc_frame_def upd_thread_def bind_eq_Some_conv core_def tview_def fun_eq_iff)

lemma thread_create_tail_ok:
  assumes "thread_create_tail t n (set_frames fs s) = Some s'" and ok: "kernel_ok L s" and v: "valid_locks L"
    and top: "frames s (running s) = Create_tail t n # fs"
  shows "kernel_ok L s'"
proof -
  let ?p = "set_frames fs s"
  obtain i s1 s2 s3 s4 s5 b1 s6 b2 s7 b3 s8 s9 s10 where
    s1: "allocate_tid_tail ?p = Some (i, s1)" and
    s2: "upd_thread t (tid_update (\<lambda>_. i)) s1 = Some s2" and
    s3: "upd_thread t (tid_node_update (\<lambda>_. n)) s2 = Some s3" and
    s4: "sema_init (node_sema n) 0 (s3\<lparr>nodes := (nodes s3)(n \<mapsto>
      \<lparr>node_tid = i, child = t, exit_status = - 2, loaded = False, waiting = False\<rparr>)\<rparr>) = Some s4" and
    s5: "upd_thread t (tid_node_exists_update (\<lambda>_. True)) s4 = Some s5" and
    s6: "alloc_frame t 12 (intr_disable s5) = Some (b1, s6)" and
    s7: "alloc_frame t 4 s6 = Some (b2, s7)" and
    s8: "alloc_frame t 28 s7 = Some (b3, s8)" and
    s9: "intr_set_level (intr_get_level s5) s8 = Some s9" and
    s10: "thread_unblock t s9 = Some s10" "s' = set_ret i s10"
    using assms(1) by (auto simp: thread_create_tail_def bind_eq_Some_conv Let_def split: prod.splits)
  have pop: "kernel_ok L ?p" by (rule pop_frame_ok[OF ok top]) simp_all
  note base = kernel_okD(1)[OF ok]
  have t: "frames s t = [Kernel_thread]" "st s t = Some THREAD_BLOCKED"
    using createD(2)[OF base_okD(4)[OF base], of t n "running s"] top by simp_all
  have tr: "t \<noteq> running s" using running_awake(3)[OF ok] t(2) by auto
  have cr: "Create_tail t m \<notin> set (frames ?p u)" for m u
    using createD(1)[OF base_okD(4)[OF base], of "running s"] top
      createD(3)[OF base_okD(4)[OF base], of t n "running s" m u]
    by (cases "u = running s") (auto simp: is_create_def filter_empty_conv)
  have n: "node_sema n \<notin> lock_sema ` L" using frames_fitD[OF ok, of "running s"] top by (simp add: frames_fit_def)
  note k1 = allocate_tid_tail_ok[OF s1 pop v]
  note k2 = upd_thread_same[OF s2 conjunct1[OF k1]]
  have ok2: "kernel_ok L s2" and c2: "core s2 = core s1" using k2 by simp_all
  have r3: "ref_ok L t (tid_node (tid_node_update (\<lambda>_. n) th)) (child_nodes (tid_node_update (\<lambda>_. n) th))"
    if "threads s2 t = Some th" for th
    using refsD[OF ok2 that] n by (simp add: ref_ok_def)
  have k3: "kernel_ok L s3" "running s3 = running s2" "idle_thread s3 = idle_thread s2" "frames s3 = frames s2"
    using upd_thread_ok[OF s3 ok2 _ r3] by simp_all
  have ok3': "kernel_ok L (s3\<lparr>nodes := (nodes s3)(n \<mapsto> \<lparr>node_tid = i, child = t, exit_status = - 2, loaded = False, waiting = False\<rparr>)\<rparr>)"
    by (rule kernel_ok_neutral[OF _ k3(1)]) simp
  note k4 = sema_init_ok[OF s4 ok3' n]
  have k5: "kernel_ok L s5" "core s5 = core s4" using upd_thread_same[OF s5 conjunct1[OF k4]] by simp_all
  have c9: "core s9 = core s5"
    using core_intr_set_level[OF s9] alloc_frame_core[OF s8] alloc_frame_core[OF s7] alloc_frame_core[OF s6] by simp
  have ok9: "kernel_ok L s9" by (rule kernel_ok_neutral[OF c9 k5(1)])
  have same: "frames s9 = frames ?p" "idle_thread s9 = idle_thread s" "running s9 = running s"
    using core_eqD[OF c9] core_eqD[OF k5(2)] k3 keepsD[OF conjunct1[OF conjunct2[OF k4]]] core_eqD[OF c2]
      keepsD[OF conjunct2[OF k1]]
    by simp_all
  have fr: "frames s9 t = [Kernel_thread]" using same(1) t(1) tr by simp
  have c10: "core s10 = core (unblocked t s9)" "st s9 t = Some THREAD_BLOCKED" using thread_unblock_core[OF s10(1)] by simp_all
  note base9 = kernel_okD(1)[OF ok9]
  have "kernel_ok L (unblocked t s9)"
  proof (rule unblocked_ok[OF ok9 c10(2)])
    show "t \<notin> set (waiters (semas s9 p))" for p using sleeperD[OF base9, of t p] fr by auto
    show "t \<noteq> idle_thread s9"
      using idle_not_sleeping(2)[OF base9] fr c10(2) base_okD(3)[OF base9]
      by (cases "idle_thread s9 = NULL") (auto simp: idle_ok_def)
    show "Create_tail t m \<notin> set (frames s9 u)" for u m using cr[of m u] same(1) by simp
  qed
  then show ?thesis using s10(2) c10(1) kernel_ok_neutral by simp
qed

section \<open>The idle thread\<close>

lemma idle_ok_call:
  assumes "idle p s = Some s'" and ok: "kernel_ok L s" and fr: "frames s (running s) = []"
    and i: "idle_thread s = NULL" "p \<notin> lock_sema ` L"
  shows "kernel_ok L s'"
proof -
  let ?s = "set_frames [Idle_loop] (s\<lparr>idle_thread := running s\<rparr>)"
  note base = kernel_okD(1)[OF ok] note b = base_okD[OF base] note r = running_awake[OF ok]
  have s': "sema_up p ?s = Some s'"
    using assms(1) fr by (auto simp: idle_def bind_eq_Some_conv push_frame_set dest!: thread_currentD)
  have "kernel_ok L ?s"
  proof -
    have f: "kernel_ok L (set_frames [Idle_loop] s)"
      by (rule set_frames_ok[OF ok])
        (use fr in \<open>simp_all add: is_create_def frames_fit_def\<close>)
    note b' = base_okD[OF kernel_okD(1)[OF f]]
    have "queue_ok ?s"
    proof -
      have q: "v \<in> set (ready_list s) \<longleftrightarrow> st s v = Some THREAD_READY \<and> v \<noteq> NULL" for v
        using b(1) i(1) by (simp add: queue_ok_def)
      have "st s NULL = None" using b(3) by (simp add: idle_ok_def)
      then have "v \<in> set (ready_list s) \<longleftrightarrow> st s v = Some THREAD_READY \<and> v \<noteq> running s" for v
        using q[of v] r(3) by (cases "v = running s"; cases "v = NULL") simp_all
      then show ?thesis using conjunct1[OF b(1)[unfolded queue_ok_def]] by (simp add: queue_ok_def)
    qed
    moreover have "idle_ok ?s"
    proof -
      have "\<exists>qs f. [Idle_loop] = qs @ [f] \<and> list_all quiet qs \<and> (f = Idle_loop \<or> f = Idle_halt)"
        by (intro exI[of _ "[]"] exI[of _ Idle_loop]) simp
      then show ?thesis using conjunct1[OF b(3)[unfolded idle_ok_def]] r(3) by (simp add: idle_ok_def)
    qed
    ultimately show ?thesis
      using b' kernel_okD(2)[OF f]
      by (simp add: kernel_ok_def base_ok_def sleepers_ok_def create_ok_def locks_ok_def frames_ok_def)
  qed
  then show ?thesis using sema_up_plain[OF s'] i(2) by blast
qed

lemma idle_round_ok:
  assumes "idle_round (set_frames fs s) = Some s'" and ok: "kernel_ok L s" and top: "frames s (running s) = Idle_loop # fs"
  shows "kernel_ok L s'"
proof -
  have s': "thread_block (push_frame Idle_halt (intr_disable (set_frames fs s))) = Some s'"
    using assms(1) by (simp add: idle_round_def)
  have "kernel_ok L (set_frames (Idle_halt # fs) s)"
  proof (rule set_frames_ok[OF ok])
    show "\<exists>qs f. Idle_halt # fs = qs @ [f] \<and> list_all quiet qs \<and> (f = Idle_loop \<or> f = Idle_halt)" if "running s = idle_thread s"
      using idle_top[OF ok top that] by (intro exI[of _ "[]"] exI[of _ Idle_halt]) (simp add: quiet_def)
    show "tok l (Idle_halt # fs) \<le> tok l (frames s (running s))" for l
      using top tok_cons[of Idle_halt l fs] tok_cons[of Idle_loop l fs] by (simp add: waits_def)
    show "frames_fit L (Idle_halt # fs)" using frames_fitD[OF ok, of "running s"] top by (simp add: frames_fit_def)
  qed (simp add: top is_create_def)
  moreover have "core (push_frame Idle_halt (intr_disable (set_frames fs s))) = core (set_frames (Idle_halt # fs) s)"
    by (simp add: core_def push_frame_set)
  ultimately show ?thesis using thread_block_ok[OF s'] kernel_ok_neutral by blast
qed

lemma idle_halt_ok:
  assumes "idle_halt (set_frames fs s) = Some s'" and ok: "kernel_ok L s" and top: "frames s (running s) = Idle_halt # fs"
  shows "kernel_ok L s'"
proof -
  obtain s1 where s1: "intr_enable (set_frames fs s) = Some s1" "s' = push_frame Idle_loop s1"
    using assms(1) by (auto simp: idle_halt_def bind_eq_Some_conv)
  have "kernel_ok L (set_frames (Idle_loop # fs) s)"
  proof (rule set_frames_ok[OF ok])
    show "\<exists>qs f. Idle_loop # fs = qs @ [f] \<and> list_all quiet qs \<and> (f = Idle_loop \<or> f = Idle_halt)" if "running s = idle_thread s"
      using idle_top[OF ok top that] by (intro exI[of _ "[]"] exI[of _ Idle_loop]) (simp add: quiet_def)
    show "tok l (Idle_loop # fs) \<le> tok l (frames s (running s))" for l
      using top tok_cons[of Idle_halt l fs] tok_cons[of Idle_loop l fs] by (simp add: waits_def)
    show "frames_fit L (Idle_loop # fs)" using frames_fitD[OF ok, of "running s"] top by (simp add: frames_fit_def)
  qed (simp add: top is_create_def)
  moreover have "core s' = core (push_frame Idle_loop (set_frames fs s))"
    using core_cong(2)[OF core_intr_enable[OF s1(1)]] s1(2) by simp
  moreover have "core (push_frame Idle_loop (set_frames fs s)) = core (set_frames (Idle_loop # fs) s)"
    by (simp add: core_def push_frame_set)
  ultimately show ?thesis using kernel_ok_neutral by metis
qed

end
