(* ===== verification/Kernel_Reach.thy ===== *)
theory Kernel_Reach
  imports Kernel_Steps
begin

text \<open>
  The life of processes, interrupts and the initialisation keep the invariant; the theorems on every reachable
  state follow: the status of threads, the run queue, the wait lists and the locks.
\<close>

section \<open>The end of a process\<close>

lemma push_plain_ok:
  assumes "kernel_ok L s" "running s \<noteq> idle_thread s"
  shows "kernel_ok L (push_frame Exit_files s)" "kernel_ok L (push_frame Exit_close s)" "kernel_ok L (push_frame (Wait_tail n) s)"
    "kernel_ok L (push_frame (Exec_created p q) s)" "kernel_ok L (push_frame (Sleep a d) s)"
  by (rule push_frame_ok; use assms in \<open>simp add: is_create_def\<close>)+

lemma idle_push [simp]: "running (push_frame f s) = running s" "idle_thread (push_frame f s) = idle_thread s"
  "filter is_create (frames (push_frame f s) (running s)) =
     (if is_create f then f # filter is_create (frames s (running s)) else filter is_create (frames s (running s)))"
  by (simp_all add: push_frame_set)

lemma process_exit_ok:
  assumes "process_exit s = Some s'" "kernel_ok L s" "running s \<noteq> idle_thread s"
  shows "kernel_ok L s'"
proof -
  have "core s' = core (push_frame Exit_files s)"
    using assms(1) by (auto simp: process_exit_def bind_eq_Some_conv Let_def intro!: core_cong(2))
  then show ?thesis using push_plain_ok(1)[OF assms(2,3)] kernel_ok_neutral by blast
qed

lemma thread_exit_ok: "thread_exit s = Some s' \<Longrightarrow> kernel_ok L s \<Longrightarrow> running s \<noteq> idle_thread s \<Longrightarrow> kernel_ok L s'"
  by (auto simp: thread_exit_def bind_eq_Some_conv intro: process_exit_ok)

lemma exit_children_ok:
  assumes "exit_children ns cur s = Some s'" "kernel_ok L s" "node_sema ` set ns \<inter> lock_sema ` L = {}"
  shows "kernel_ok L s' \<and> running s' = running s \<and> idle_thread s' = idle_thread s"
  using assms
proof (induction ns arbitrary: s)
  case Nil
  then show ?case by simp
next
  case (Cons n ns)
  obtain nd th s1 s2 where nd: "nodes s n = Some nd" "threads s cur = Some th"
    and s1: "(if child nd \<noteq> NULL then do { own \<leftarrow> nodes s (tid_node th);
        upd_thread (child own) (tid_node_exists_update (\<lambda>_. False)) s } else Some s) = Some s1"
    and s2: "upd_thread cur (child_nodes_update (\<lambda>_. ns)) s1 = Some s2"
    and s': "exit_children ns cur (emit (Free n) (s2\<lparr>nodes := (nodes s2)(n := None)\<rparr>)) = Some s'"
    using Cons.prems(1) by (auto simp: bind_eq_Some_conv simp del: if_split_asm)
  have c1: "core s1 = core s"
    using s1 upd_thread_same(2)[OF _ Cons.prems(2)] by (auto simp: bind_eq_Some_conv split: if_splits)
  note ok1 = kernel_ok_neutral[OF c1 Cons.prems(2)]
  have r: "ref_ok L cur (tid_node (child_nodes_update (\<lambda>_. ns) t)) (child_nodes (child_nodes_update (\<lambda>_. ns) t))"
    if "threads s1 cur = Some t" for t
    using refsD[OF ok1 that] Cons.prems(3) by (auto simp: ref_ok_def)
  have k2: "kernel_ok L s2" "running s2 = running s1" "idle_thread s2 = idle_thread s1"
    using upd_thread_ok[OF s2 ok1 _ r] by simp_all
  have "kernel_ok L (emit (Free n) (s2\<lparr>nodes := (nodes s2)(n := None)\<rparr>))"
    by (rule kernel_ok_neutral[OF _ k2(1)]) simp
  then have "kernel_ok L s' \<and> running s' = running s2 \<and> idle_thread s' = idle_thread s2"
    using Cons.IH[OF s'] Cons.prems(3) by (auto simp: emit_def)
  then show ?case using k2 core_eqD[OF c1] by simp
qed

lemma process_exit_tail_ok:
  assumes "process_exit_tail s = Some s'" and ok: "kernel_ok L s"
  shows "kernel_ok L s' \<and> running s' = running s \<and> idle_thread s' = idle_thread s"
proof -
  obtain th s1 th1 s2 s3 where th: "threads s (running s) = Some th"
    and s1: "exit_children (child_nodes th) (running s) s = Some s1"
    and th1: "threads s1 (running s) = Some th1"
    and s2': "(if tid_node_exists th1 then do { nd \<leftarrow> nodes s1 (tid_node th1);
        Some (s1\<lparr>nodes := (nodes s1)(tid_node th1 \<mapsto> nd\<lparr>child := NULL\<rparr>)\<rparr>) } else Some s1) = Some s2"
    and s3: "sema_up (node_sema (tid_node th1)) s2 = Some s3"
    and s': "(if pagedir th1 \<noteq> NULL then do {
       s \<leftarrow> upd_thread (running s) (pagedir_update (\<lambda>_. NULL)) s3;
       Some (emit (Pagedir_destroy (pagedir th1)) (emit (Pagedir_activate NULL) s)) } else Some s3) = Some s'"
    using assms(1)
    by (simp only: process_exit_tail_def bind_eq_Some_conv Let_def) (blast dest: thread_currentD)
  have s2: "core s2 = core s1" using s2' by (auto simp: bind_eq_Some_conv split: if_splits)
  have "node_sema ` set (child_nodes th) \<inter> lock_sema ` L = {}" using refsD[OF ok th] by (simp add: ref_ok_def)
  note k1 = exit_children_ok[OF s1 ok this]
  note ok2 = kernel_ok_neutral[OF s2 conjunct1[OF k1]]
  have "node_sema (tid_node th1) \<notin> lock_sema ` L" using refsD[OF conjunct1[OF k1] th1] by (simp add: ref_ok_def)
  note k3 = sema_up_plain[OF s3 ok2 this]
  have "core s' = core s3"
    using s' upd_thread_same(2)[OF _ conjunct1[OF k3]] by (auto simp: bind_eq_Some_conv split: if_splits)
  then show ?thesis
    using kernel_ok_neutral[OF _ conjunct1[OF k3]] core_eqD[of s' s3] keepsD[of s2 s3] k3 core_eqD[OF s2] k1 by simp
qed

lemma exit_thread_ok:
  assumes "exit_thread s = Some s'" and ok: "kernel_ok L s" and idle: "running s \<noteq> idle_thread s"
  shows "kernel_ok L s'"
proof -
  let ?s = "intr_disable s\<lparr>all_list := remove1 (running s) (all_list (intr_disable s))\<rparr>"
  have "schedule (set_st (running s) THREAD_DYING ?s) = Some s'"
    using assms(1) by (auto simp: exit_thread_def bind_eq_Some_conv upd_status Let_def dest!: thread_currentD)
  then show ?thesis
  proof (rule stop_schedule_ok[OF _ ok, of _ _ THREAD_DYING])
    have c: "core ?s = core s" by simp
    show "core (set_st (running s) THREAD_DYING ?s) = core (set_st (running s) THREAD_DYING (s\<lparr>ready_list :=
      if THREAD_DYING = THREAD_READY \<and> running s \<noteq> idle_thread s then ready_list s @ [running s] else ready_list s\<rparr>))"
      using core_cong(1)[OF c, of "running s" THREAD_DYING] by simp
  qed (use idle in simp_all)
qed

lemma exit_files_ok:
  assumes "exit_files s = Some s'" and ok: "kernel_ok L s" and v: "valid_locks L" and idle: "running s \<noteq> idle_thread s"
  shows "kernel_ok L s'"
proof -
  obtain th :: thread where th: "(if fd_list th \<noteq> [] then lock_acquire file_lock (push_frame Exit_close s)
      else do { s \<leftarrow> process_exit_tail s; exit_thread s }) = Some s'"
    using assms(1) by (auto simp: exit_files_def bind_eq_Some_conv)
  show ?thesis
  proof (cases "fd_list th = []")
    case True
    then obtain s1 where s1: "process_exit_tail s = Some s1" "exit_thread s1 = Some s'" using th by (auto simp: bind_eq_Some_conv)
    show ?thesis using exit_thread_ok[OF s1(2)] process_exit_tail_ok[OF s1(1) ok] idle by auto
  next
    case False
    then show ?thesis
      using lock_acquire_ok[OF _ push_plain_ok(2)[OF ok idle], of file_lock s'] th v idle by (simp add: valid_locks_def)
  qed
qed

lemma exit_close_ok:
  assumes "exit_close s = Some s'" and ok: "kernel_ok L s" and v: "valid_locks L" and idle: "running s \<noteq> idle_thread s"
  shows "kernel_ok L s'"
proof -
  obtain e :: fd_elem and es s1 s2 where s1: "lock_release file_lock (emit (File_close (the_file e)) s) = Some s1"
    and s2: "upd_thread (running s) (fd_list_update (\<lambda>_. es)) s1 = Some s2"
    and s': "s' = push_frame Exit_files (emit (Free_fd e) (emit (Free (filename e)) s2))"
  proof -
    obtain cur th where cur: "thread_current s = Some cur" and th: "threads s cur = Some th"
      using assms(1) by (auto simp: exit_close_def bind_eq_Some_conv)
    show ?thesis
      using assms(1) cur th thread_currentD[OF cur] that
      by (cases "fd_list th") (auto simp: exit_close_def bind_eq_Some_conv)
  qed
  have c0: "core (emit (File_close (the_file e)) s) = core s" by simp
  note k1 = lock_release_ok[OF s1 kernel_ok_neutral[OF c0 ok]]
  have k1': "kernel_ok L s1" "running s1 \<noteq> idle_thread s1"
    using k1 keepsD[of "emit (File_close (the_file e)) s" s1] v idle by (simp_all add: valid_locks_def emit_def)
  have k2: "kernel_ok L s2" "core s2 = core s1" using upd_thread_same[OF s2 k1'(1)] by simp_all
  show ?thesis
    unfolding s'
    by (rule push_plain_ok(1)[OF kernel_ok_neutral[OF _ k2(1)]]) (use core_eqD[OF k2(2)] k1'(2) in \<open>simp_all add: emit_def\<close>)
qed


section \<open>Starting and waiting for a process\<close>

lemma fresh_page_push:
  assumes "fresh_page L t n s" "kernel_ok L s"
  shows "fresh_page L t n (push_frame f s)"
proof (cases "t = NULL")
  case False
  then have "st s t = None" using assms(1) by (simp add: fresh_page_def st_def tview_def)
  then have "t \<noteq> running s" using running_awake(3)[OF assms(2)] by auto
  then show ?thesis using assms(1) by (simp add: fresh_page_def push_frame_set)
qed (simp add: fresh_page_def)

lemma thread_start_ok:
  assumes "thread_start p t n s = Some s'" and ok: "kernel_ok L s" and v: "valid_locks L" and p: "p \<notin> lock_sema ` L"
    and fresh: "fresh_page L t n s" and fr: "frames s (running s) = []" and idle: "running s \<noteq> idle_thread s"
  shows "kernel_ok L s'"
proof -
  obtain s1 where s1: "sema_init p 0 s = Some s1"
    and s': "thread_create (Some ''idle'') PRI_MIN t n (push_frame (Start_tail p) s1) = Some s'"
    using assms(1) by (auto simp: thread_start_def bind_eq_Some_conv)
  note k = sema_init_ok[OF s1 ok p]
  have ok1: "kernel_ok L s1" and same: "running s1 = running s" "idle_thread s1 = idle_thread s" "frames s1 = frames s"
    using k keepsD[of s s1] by simp_all
  have "threads s1 = threads s" using s1 by (auto simp: sema_init_def bind_eq_Some_conv)
  then have f1: "fresh_page L t n s1" using fresh same by (simp add: fresh_page_def)
  have ok2: "kernel_ok L (push_frame (Start_tail p) s1)"
    by (rule push_frame_ok[OF ok1]) (use p idle same in \<open>simp_all add: is_create_def\<close>)
  show ?thesis
    by (rule thread_create_ok[OF s' ok2 v fresh_page_push[OF f1 ok1]]) (use idle same fr in \<open>simp_all add: push_frame_set is_create_def\<close>)
qed

lemma thread_start_tail_ok:
  assumes "thread_start_tail p s = Some s'" and ok: "kernel_ok L s" and p: "p \<notin> lock_sema ` L" and idle: "running s \<noteq> idle_thread s"
  shows "kernel_ok L s'"
proof -
  obtain s1 where s1: "intr_enable s = Some s1" "sema_down p s1 = Some s'"
    using assms(1) by (auto simp: thread_start_tail_def bind_eq_Some_conv)
  note c = core_intr_enable[OF s1(1)]
  show ?thesis by (rule sema_down_ok[OF s1(2) kernel_ok_neutral[OF c ok] p]) (use core_eqD[OF c] idle in simp)
qed

lemma subset_disjoint: "A \<subseteq> B \<Longrightarrow> B \<inter> C = {} \<Longrightarrow> A \<inter> C = {}"
  by blast

lemma find_node_mem: "find_node ns i s = Some n \<Longrightarrow> n = NULL \<or> n \<in> set ns"
  by (induction ns) (auto simp: bind_eq_Some_conv split: if_splits)

lemma process_wait_ok:
  assumes "process_wait i s = Some s'" and ok: "kernel_ok L s" and idle: "running s \<noteq> idle_thread s"
  shows "kernel_ok L s'"
proof -
  obtain th where th: "threads s (running s) = Some th"
      "(if child_nodes th = [] then Some (set_ret (- 1) s)
     else do {
       n \<leftarrow> find_node (child_nodes th) i s;
       if n = NULL then Some (set_ret (- 1) s)
       else do {
         nd \<leftarrow> nodes s n;
         if waiting nd then Some (set_ret (- 1) s)
         else sema_down (node_sema n) (push_frame (Wait_tail n) s) } }) = Some s'"
    using assms(1) by (simp only: process_wait_def bind_eq_Some_conv) (blast dest: thread_currentD)
  have "s' = set_ret (- 1) s \<or> (\<exists>n. n \<in> set (child_nodes th) \<and> sema_down (node_sema n) (push_frame (Wait_tail n) s) = Some s')"
    using th(2) find_node_mem[of "child_nodes th" i s] by (auto simp: bind_eq_Some_conv split: if_splits)
  then show ?thesis
  proof
    assume "s' = set_ret (- 1) s"
    then show ?thesis using kernel_ok_neutral[OF _ ok] by simp
  next
    assume "\<exists>n. n \<in> set (child_nodes th) \<and> sema_down (node_sema n) (push_frame (Wait_tail n) s) = Some s'"
    then obtain n where n: "n \<in> set (child_nodes th)" "sema_down (node_sema n) (push_frame (Wait_tail n) s) = Some s'" by blast
    have "node_sema n \<notin> lock_sema ` L" using refsD[OF ok th(1)] n(1) by (auto simp: ref_ok_def)
    then show ?thesis using sema_down_ok[OF n(2) push_plain_ok(3)[OF ok idle]] idle by simp
  qed
qed

lemma process_wait_tail_ok:
  assumes "process_wait_tail n s = Some s'" and ok: "kernel_ok L s"
  shows "kernel_ok L s'"
proof -
  obtain s1 where s1: "upd_thread (running s) (child_nodes_update (remove1 n)) s = Some s1" and c: "core s' = core s1"
    using assms(1) by (auto simp: process_wait_tail_def bind_eq_Some_conv dest!: thread_currentD)
  have r: "ref_ok L (running s) (tid_node (child_nodes_update (remove1 n) th)) (child_nodes (child_nodes_update (remove1 n) th))"
    if "threads s (running s) = Some th" for th
  proof -
    have "node_sema ` set (remove1 n (child_nodes th)) \<subseteq> node_sema ` set (child_nodes th)"
      by (rule image_mono[OF set_remove1_subset])
    then have "node_sema ` set (remove1 n (child_nodes th)) \<inter> lock_sema ` L = {}"
      by (rule subset_disjoint) (use refsD[OF ok that] in \<open>simp add: ref_ok_def\<close>)
    then show ?thesis using refsD[OF ok that] by (simp add: ref_ok_def)
  qed
  show ?thesis using upd_thread_ok(1)[OF s1 ok _ r] kernel_ok_neutral[OF c] by simp
qed

lemma process_execute_ok:
  assumes "process_execute cmd p1 p2 t n s = Some s'" and ok: "kernel_ok L s" and v: "valid_locks L"
    and fr: "frames s (running s) = []" and fresh: "fresh_page L t n s" and idle: "running s \<noteq> idle_thread s"
  shows "kernel_ok L s'"
proof -
  have "s' = set_ret TID_ERROR s \<or>
      thread_create (first_token (take (PGSIZE - 1) cmd)) PRI_DEFAULT t n (push_frame (Exec_created p1 p2) s) = Some s'"
    using assms(1) by (auto simp: process_execute_def bind_eq_Some_conv split: if_splits)
  then show ?thesis
  proof
    assume "s' = set_ret TID_ERROR s"
    then show ?thesis using kernel_ok_neutral[OF _ ok] by simp
  next
    assume c: "thread_create (first_token (take (PGSIZE - 1) cmd)) PRI_DEFAULT t n (push_frame (Exec_created p1 p2) s) = Some s'"
    show ?thesis
      using thread_create_ok[OF c push_plain_ok(4)[OF ok idle] v fresh_page_push[OF fresh ok]] idle fr by (simp add: is_create_def)
  qed
qed

lemma exec_created_ok:
  assumes "exec_created p1 p2 s = Some s'" and ok: "kernel_ok L s" and idle: "running s \<noteq> idle_thread s"
  shows "kernel_ok L s'"
proof -
  let ?i = "retval s (running s)" and ?s = "emit (Free_page p1) s"
  have c: "core ?s = core s" by simp
  have "core s' = core s \<or> (\<exists>c th. threads s c = Some th \<and>
      sema_down (load_sema c) (push_frame (Exec_tail (tid_node th) ?i) ?s) = Some s')"
    using assms(1) by (auto simp: exec_created_def bind_eq_Some_conv Let_def split: if_splits)
  then show ?thesis
  proof
    assume "core s' = core s"
    then show ?thesis using kernel_ok_neutral[OF _ ok] by simp
  next
    assume "\<exists>c th. threads s c = Some th \<and> sema_down (load_sema c) (push_frame (Exec_tail (tid_node th) ?i) ?s) = Some s'"
    then obtain c th where th: "threads s c = Some th" "sema_down (load_sema c) (push_frame (Exec_tail (tid_node th) ?i) ?s) = Some s'"
      by blast
    have r: "load_sema c \<notin> lock_sema ` L" "node_sema (tid_node th) \<notin> lock_sema ` L"
      using refsD[OF ok th(1)] by (simp_all add: ref_ok_def)
    have i: "running ?s \<noteq> idle_thread ?s" using idle by (simp add: emit_def)
    have "kernel_ok L (push_frame (Exec_tail (tid_node th) ?i) ?s)"
      by (rule push_frame_ok[OF kernel_ok_neutral[OF _ ok]]) (use i r(2) in \<open>simp_all add: is_create_def\<close>)
    then show ?thesis using sema_down_ok[OF th(2)] r(1) i by simp
  qed
qed

lemma exec_tail_ok:
  assumes "exec_tail n i s = Some s'" and ok: "kernel_ok L s" and n: "node_sema n \<notin> lock_sema ` L"
  shows "kernel_ok L s'"
proof -
  have "core s' = core s \<or> (\<exists>s1. upd_thread (running s) (child_nodes_update (\<lambda>ns. ns @ [n])) s = Some s1 \<and> core s' = core s1)"
    using assms(1) by (auto simp: exec_tail_def bind_eq_Some_conv split: if_splits)
  then show ?thesis
  proof
    assume "core s' = core s"
    then show ?thesis using kernel_ok_neutral[OF _ ok] by simp
  next
    assume "\<exists>s1. upd_thread (running s) (child_nodes_update (\<lambda>ns. ns @ [n])) s = Some s1 \<and> core s' = core s1"
    then obtain s1 where s1: "upd_thread (running s) (child_nodes_update (\<lambda>ns. ns @ [n])) s = Some s1" "core s' = core s1" by blast
    have r: "ref_ok L (running s) (tid_node (child_nodes_update (\<lambda>ns. ns @ [n]) th)) (child_nodes (child_nodes_update (\<lambda>ns. ns @ [n]) th))"
      if "threads s (running s) = Some th" for th
      using refsD[OF ok that] n by (auto simp: ref_ok_def)
    show ?thesis using upd_thread_ok(1)[OF s1(1) ok _ r] kernel_ok_neutral[OF s1(2)] by simp
  qed
qed

lemma start_process_tail_ok:
  assumes "start_process_tail success s = Some s'" and ok: "kernel_ok L s" and idle: "running s \<noteq> idle_thread s"
  shows "kernel_ok L s'"
proof -
  obtain th s1 s2 where th: "threads s (running s) = Some th"
    and s1: "(if success then do { nd \<leftarrow> nodes s (tid_node th);
        Some (s\<lparr>nodes := (nodes s)(tid_node th \<mapsto> nd\<lparr>loaded := True\<rparr>)\<rparr>) } else Some s) = Some s1"
    and s2: "sema_up (load_sema (running s)) s1 = Some s2"
    and s': "(if \<not> success then thread_exit s2 else Some s2) = Some s'"
    using assms(1) by (simp only: start_process_tail_def bind_eq_Some_conv) (blast dest: thread_currentD)
  have c: "core s1 = core s" using s1 by (auto simp: bind_eq_Some_conv split: if_splits)
  have "load_sema (running s) \<notin> lock_sema ` L" using refsD[OF ok th] by (simp add: ref_ok_def)
  note k = sema_up_plain[OF s2 kernel_ok_neutral[OF c ok] this]
  have "running s2 \<noteq> idle_thread s2" using keepsD[of s1 s2] k core_eqD[OF c] idle by simp
  then show ?thesis using s' k thread_exit_ok[of s2 s' L] by (auto split: if_splits)
qed

section \<open>Timer and interrupts\<close>

lemma timer_ticks_core: "timer_ticks s = Some (t, s') \<Longrightarrow> core s' = core s"
  by (auto simp: timer_ticks_def bind_eq_Some_conv Let_def dest!: core_intr_set_level)

lemma timer_sleep_loop_ok:
  assumes "timer_sleep_loop a d s = Some s'" and ok: "kernel_ok L s" and idle: "running s \<noteq> idle_thread s"
  shows "kernel_ok L s'"
proof -
  obtain t s1 where t: "timer_ticks s = Some (t, s1)" "(if t - a < d then thread_yield (push_frame (Sleep a d) s1) else Some s1) = Some s'"
    using assms(1) by (auto simp: timer_sleep_loop_def timer_elapsed_def bind_eq_Some_conv split: prod.splits)
  note c = timer_ticks_core[OF t(1)]
  have ok1: "kernel_ok L s1" "running s1 \<noteq> idle_thread s1"
    using kernel_ok_neutral[OF c ok] core_eqD[OF c] idle by simp_all
  show ?thesis using t(2) ok1(1) thread_yield_ok[OF _ push_plain_ok(5)[OF ok1]] by (auto split: if_splits)
qed

lemma timer_sleep_ok:
  assumes "timer_sleep d s = Some s'" and ok: "kernel_ok L s" and idle: "running s \<noteq> idle_thread s"
  shows "kernel_ok L s'"
proof -
  obtain t s1 where t: "timer_ticks s = Some (t, s1)" "timer_sleep_loop t d s1 = Some s'"
    using assms(1) by (auto simp: timer_sleep_def bind_eq_Some_conv split: prod.splits)
  note c = timer_ticks_core[OF t(1)]
  show ?thesis
    by (rule timer_sleep_loop_ok[OF t(2) kernel_ok_neutral[OF c ok]]) (use core_eqD[OF c] idle in simp)
qed

lemma thread_tick_core:
  assumes "thread_tick s = Some s'"
  shows "core s' = core s"
proof -
  obtain s1 where c: "core s1 = core s"
    and s': "(if thread_ticks s1 \<ge> TIME_SLICE then intr_yield_on_return s1 else Some s1) = Some s'"
  proof -
    obtain t th where th: "thread_current s = Some t" "threads s t = Some th"
      using assms by (auto simp: thread_tick_def bind_eq_Some_conv)
    define s0 where "s0 = (if t = idle_thread s then s\<lparr>idle_ticks := idle_ticks s + 1\<rparr>
      else if pagedir th \<noteq> NULL then s\<lparr>user_ticks := user_ticks s + 1\<rparr> else s\<lparr>kernel_ticks := kernel_ticks s + 1\<rparr>)"
    have "core (s0\<lparr>thread_ticks := thread_ticks s0 + 1\<rparr>) = core s" by (simp add: s0_def)
    moreover have "(let s = s0\<lparr>thread_ticks := thread_ticks s0 + 1\<rparr> in
        if thread_ticks s \<ge> TIME_SLICE then intr_yield_on_return s else Some s) = Some s'"
      using assms th by (simp only: thread_tick_def s0_def[symmetric] Let_def bind.bind_lunit)
    ultimately show ?thesis using that unfolding Let_def by blast
  qed
  then show ?thesis by (cases "thread_ticks s1 \<ge> TIME_SLICE") (auto simp: intr_yield_on_return_def bind_eq_Some_conv)
qed

lemma timer_interrupt_core: "timer_interrupt s = Some s' \<Longrightarrow> core s' = core s"
  using thread_tick_core[of "s\<lparr>ticks := ticks s + 1\<rparr>" s'] by (simp add: timer_interrupt_def)

lemma intr_handler_ok:
  assumes "intr_handler h s = Some s'" and ok: "kernel_ok L s"
    and h: "\<And>r r'. h r = Some r' \<Longrightarrow> kernel_ok L r \<Longrightarrow> kernel_ok L r'"
  shows "kernel_ok L s'"
proof -
  let ?s = "s\<lparr>level := INTR_OFF, in_external_intr := True, yield_on_return := False\<rparr>"
  obtain s1 where s1: "h ?s = Some s1"
    "(if yield_on_return s1 then thread_yield (push_frame Intr_return (s1\<lparr>in_external_intr := False\<rparr>))
      else Some (s1\<lparr>in_external_intr := False, level := INTR_ON\<rparr>)) = Some s'"
    using assms(1) by (auto simp: intr_handler_def bind_eq_Some_conv Let_def simp del: if_split_asm)
  have "kernel_ok L ?s" by (rule kernel_ok_neutral[OF _ ok]) simp
  then have ok1: "kernel_ok L s1" using h[OF s1(1)] by simp
  have p: "kernel_ok L (push_frame Intr_return (s1\<lparr>in_external_intr := False\<rparr>))"
    by (rule push_frame_ok[OF kernel_ok_neutral[OF _ ok1]]) (simp_all add: quiet_def is_create_def)
  show ?thesis
  proof (cases "yield_on_return s1")
    case True
    then show ?thesis using thread_yield_ok[OF _ p] s1(2) by simp
  next
    case False
    then show ?thesis using kernel_ok_neutral[OF _ ok1, of s'] s1(2) by auto
  qed
qed


section \<open>Every step\<close>

lemma run_frame_ok:
  assumes r: "run_frame f (set_frames fs s) = Some s'" and ok: "kernel_ok L s" and v: "valid_locks L"
    and top: "frames s (running s) = f # fs"
  shows "kernel_ok L s'"
proof -
  have pop: "kernel_ok L (set_frames fs s)" if "f \<noteq> Idle_loop" "f \<noteq> Idle_halt" "\<And>p lv. f \<noteq> Sema_down p lv"
    by (rule pop_frame_ok[OF ok top]) (use that in simp_all)
  have idle: "running (set_frames fs s) \<noteq> idle_thread (set_frames fs s)" if "\<not> quiet f" "f \<noteq> Idle_loop" "f \<noteq> Idle_halt"
    using top_not_idle[OF ok top that] by simp
  have fit: "frame_ok L f" using frames_fitD[OF ok, of "running s"] top by (simp add: frames_fit_def)
  show ?thesis
  proof (cases f)
    case (Sema_down p lv)
    then show ?thesis
      using sema_down_sleep[of p lv fs s s' L] sema_down_take[of p lv fs s s' L] r ok top
      by (cases "sema_value (semas s p) = 0") simp_all
  next
    case (Lock_take l)
    then show ?thesis using lock_take_ok[of l fs s s' L] r ok top by simp
  next
    case (Cond_acquire l)
    then show ?thesis using lock_acquire_ok[OF _ pop, of l s'] r fit idle by (simp add: quiet_def)
  next
    case (Set_level l)
    then have "core s' = core (set_frames fs s)" using r core_intr_set_level by simp
    then show ?thesis using pop Set_level kernel_ok_neutral by simp
  next
    case Intr_return
    then have "core s' = core (set_frames fs s)" using r by auto
    then show ?thesis using pop Intr_return kernel_ok_neutral by simp
  next
    case Kernel_thread
    then have "core s' = core (set_frames fs s)" using r core_intr_enable by (simp add: kernel_thread_def)
    then show ?thesis using pop Kernel_thread kernel_ok_neutral by simp
  next
    case Idle_loop
    then show ?thesis using idle_round_ok[of fs s s' L] r ok top by simp
  next
    case Idle_halt
    then show ?thesis using idle_halt_ok[of fs s s' L] r ok top by simp
  next
    case (Create_tail t n)
    then show ?thesis using thread_create_tail_ok[of t n fs s s' L] r ok v top by simp
  next
    case Init_tail
    then show ?thesis using thread_init_tail_ok[OF _ pop v] r by simp
  next
    case Exit_files
    then show ?thesis using exit_files_ok[OF _ pop v idle] r by (simp add: quiet_def)
  next
    case Exit_close
    then show ?thesis using exit_close_ok[OF _ pop v idle] r by (simp add: quiet_def)
  next
    case (Exec_created p1 p2)
    then show ?thesis using exec_created_ok[OF _ pop idle] r by (simp add: quiet_def)
  next
    case (Exec_tail n i)
    then show ?thesis using exec_tail_ok[OF _ pop] r fit by simp
  next
    case (Wait_tail n)
    then show ?thesis using process_wait_tail_ok[OF _ pop] r by simp
  next
    case (Start_tail p)
    then show ?thesis using thread_start_tail_ok[OF _ pop _ idle] r fit by (simp add: quiet_def)
  next
    case (Sleep a d)
    then show ?thesis using timer_sleep_loop_ok[OF _ pop idle] r by (simp add: quiet_def)
  qed
qed

lemma do_call_ok:
  assumes r: "do_call c s = Some s'" and ok: "kernel_ok L s" and v: "valid_locks L" and a: "allowed L c s"
    and fr: "frames s (running s) = []"
  shows "kernel_ok L s'"
proof -
  note idle = call_not_idle[OF ok fr]
  show ?thesis
  proof (cases c)
    case Call_yield
    then show ?thesis using thread_yield_ok[OF _ ok] r by simp
  next
    case (Call_sema_init p x)
    then show ?thesis using sema_init_ok[OF _ ok, of p x s'] r a by simp
  next
    case (Call_sema_down p)
    then show ?thesis using sema_down_ok[OF _ ok _ idle, of p s'] r a by simp
  next
    case (Call_sema_try_down p)
    then show ?thesis using sema_try_down_ok[OF _ ok, of p _ s'] r a by auto
  next
    case (Call_sema_up p)
    then show ?thesis using sema_up_plain[OF _ ok, of p s'] r a by simp
  next
    case (Call_lock_init l)
    then show ?thesis using lock_init_ok[OF _ ok, of l s'] r a by simp
  next
    case (Call_lock_acquire l)
    then show ?thesis using lock_acquire_ok[OF _ ok _ idle, of l s'] r a by simp
  next
    case (Call_lock_try_acquire l)
    then show ?thesis using lock_try_acquire_ok[OF _ ok, of l _ s'] r a by auto
  next
    case (Call_lock_release l)
    then show ?thesis using lock_release_ok[OF _ ok, of l s'] r a by simp
  next
    case (Call_cond_init k)
    then show ?thesis using set_conds_ok[OF ok, of "[]" k] r by (auto simp: cond_init_def bind_eq_Some_conv)
  next
    case (Call_cond_wait k l w)
    then show ?thesis using cond_wait_ok[OF _ ok _ _ idle, of k l w s'] r a by simp
  next
    case (Call_cond_signal k l)
    then show ?thesis using cond_signal_ok[OF _ ok, of k l s'] r by simp
  next
    case (Call_cond_broadcast k l)
    then show ?thesis using cond_broadcast_ok[OF _ ok, of k l s'] r by simp
  next
    case (Call_create name prio t n)
    then show ?thesis using thread_create_ok[OF _ ok v _ idle, of name prio t n s'] r a fr by simp
  next
    case (Call_start p t n)
    then show ?thesis using thread_start_ok[OF _ ok v _ _ fr idle, of p t n s'] r a by simp
  next
    case (Call_execute cmd p1 p2 t n)
    then show ?thesis using process_execute_ok[OF _ ok v fr _ idle, of cmd p1 p2 t n s'] r a by simp
  next
    case (Call_loaded b)
    then show ?thesis using start_process_tail_ok[OF _ ok idle, of b s'] r by simp
  next
    case (Call_wait i)
    then show ?thesis using process_wait_ok[OF _ ok idle, of i s'] r by simp
  next
    case Call_exit
    then show ?thesis using thread_exit_ok[OF _ ok idle] r by simp
  next
    case (Call_idle p)
    then show ?thesis using idle_ok_call[OF _ ok fr, of p s'] r a by simp
  next
    case (Call_sleep n)
    then show ?thesis using timer_sleep_ok[OF _ ok idle, of n s'] r by simp
  next
    case (Call_set_priority p)
    then obtain t where "upd_thread t (priority_update (\<lambda>_. p)) s = Some s'"
      using r by (auto simp: thread_set_priority_def bind_eq_Some_conv)
    then show ?thesis by (rule upd_thread_same(1)[OF _ ok]) simp
  qed
qed

lemma kstep_ok:
  assumes "kstep L s s'" "kernel_ok L s" "valid_locks L"
  shows "kernel_ok L s'"
  using assms(1)
proof (cases rule: kstep.cases)
  case (frame f fs)
  then show ?thesis using run_frame_ok[of f fs s s' L] assms(2,3) by (simp add: set_frames_def)
next
  case (call c)
  then show ?thesis using do_call_ok assms(2,3) by blast
next
  case tick
  then show ?thesis using intr_handler_ok[OF _ assms(2)] timer_interrupt_core kernel_ok_neutral by blast
next
  case (device p)
  show ?thesis
    by (rule intr_handler_ok[OF device(3) assms(2)]) (use sema_up_plain device(2) in blast)
qed

lemma thread_init_ok:
  assumes "thread_init (boot t) = Some s" and v: "valid_locks L" and t: "load_sema t \<notin> lock_sema ` L"
  shows "kernel_ok L s"
proof -
  define th where "th = (fresh_thread t ''main'' PRI_DEFAULT)\<lparr>status := THREAD_RUNNING\<rparr>"
  define s0 where "s0 = (boot t)\<lparr>threads := [t \<mapsto> th],
     semas := (semas (boot t))(lock_sema tid_lock := \<lparr>sema_value = 1, waiters = []\<rparr>, load_sema t := \<lparr>sema_value = 0, waiters = []\<rparr>),
     frames := (\<lambda>_. [])(t := [Init_tail])\<rparr>"
  obtain s1 where s1: "lock_acquire tid_lock s1 = Some s" and c: "core s1 = core s0" and n: "t \<noteq> NULL"
    using assms(1)
    by (auto simp: thread_init_def lock_init_def sema_init_def init_thread_def upd_thread_def bind_eq_Some_conv Let_def
        allocate_tid_def running_thread_def boot_def s0_def th_def core_def push_frame_def tview_def fun_eq_iff)
  have st: "st s0 u = (if u = t then Some THREAD_RUNNING else None)"
    and tv: "tview s0 u = (if u = t then Some (THREAD_RUNNING, NULL, []) else None)" for u
    by (simp_all add: s0_def th_def fresh_thread_def st_def tview_def)
  have f: "ready_list s0 = []" "idle_thread s0 = NULL" "running s0 = t" "holders s0 = (\<lambda>_. NULL)" "conds s0 = (\<lambda>_. [])"
    "frames s0 = (\<lambda>_. [])(t := [Init_tail])"
    "semas s0 p = \<lparr>sema_value = (if p = lock_sema tid_lock \<and> p \<noteq> load_sema t then 1 else 0), waiters = []\<rparr>" for p
    by (simp_all add: s0_def boot_def)
  have "queue_ok s0" by (simp add: queue_ok_def f st)
  moreover have "sleepers_ok s0" by (simp add: sleepers_ok_def f)
  moreover have "idle_ok s0" using n by (simp add: idle_ok_def f st)
  moreover have "create_ok s0" by (rule create_okI) (auto simp: f is_create_def split: if_splits)
  moreover have "locks_ok L s0"
    unfolding locks_ok_def
  proof
    fix l assume "l \<in> L"
    show "lock_ok (sema_value (semas s0 (lock_sema l))) (holders s0 l) (\<lambda>u. tok l (frames s0 u))"
      by (rule lock_ok_zero) (auto simp: f)
  qed
  moreover have "frames_ok L s0" by (simp add: frames_ok_def f)
  moreover have "refs_ok L s0" using t v by (simp add: refs_ok_def f tv ref_ok_def valid_locks_def)
  ultimately have "kernel_ok L s0" by (simp add: kernel_ok_def base_ok_def st f)
  then have "kernel_ok L s1" by (rule kernel_ok_neutral[OF c])
  then show ?thesis
    by (rule lock_acquire_ok[OF s1]) (use v n core_eqD[OF c] f in \<open>simp_all add: valid_locks_def\<close>)
qed

lemma reachable_ok: "reachable L s \<Longrightarrow> valid_locks L \<Longrightarrow> kernel_ok L s"
  by (induction rule: reachable.induct) (auto intro: thread_init_ok kstep_ok)

end
