(* ===== verification/Kernel_Props.thy ===== *)
theory Kernel_Props
  imports Kernel_Reach
begin

text \<open>
  What the invariant says of every reachable state of the thread system, round-robin scheduling, and the
  protocol between a process and its children.
\<close>

section \<open>Concrete runs\<close>

text \<open>A run for the witnesses: the boot code in the page at \<open>0x3000\<close>, up to the first states that follow.\<close>

definition demo_locks :: "ptr set" where
  "demo_locks = {tid_lock, file_lock}"

definition frame_step :: "kernel \<Rightarrow> kernel option" where
  "frame_step s = (case frames s (running s) of
     [] \<Rightarrow> None
   | f # fs \<Rightarrow> run_frame f (s\<lparr>frames := (frames s)(running s := fs)\<rparr>))"

lemma frame_step_kstep: "frame_step s = Some s' \<Longrightarrow> kstep L s s'"
  by (auto simp: frame_step_def split: list.splits intro: kstep.frame)

definition demo_boot :: "kernel option" where
  "demo_boot = thread_init (boot 0x3000)"

definition demo_take :: "kernel option" where
  "demo_take = do { s \<leftarrow> demo_boot; frame_step s }"

definition demo_held :: "kernel option" where
  "demo_held = do { s \<leftarrow> demo_take; frame_step s }"

definition demo_main :: "kernel option" where
  "demo_main = do { s \<leftarrow> demo_held; frame_step s }"

text \<open>The main thread then creates a thread in the page at \<open>0x5000\<close>, and waits on a semaphore at \<open>0x7000\<close>.\<close>

definition demo_create :: call where
  "demo_create = Call_create (Some ''child'') PRI_DEFAULT 0x5000 0x9000"

definition demo_created :: "kernel option" where
  "demo_created = do { s \<leftarrow> demo_main; do_call demo_create s }"

definition demo_ready :: "kernel option" where
  "demo_ready = do { s \<leftarrow> demo_created; s \<leftarrow> frame_step s; s \<leftarrow> frame_step s; frame_step s }"

definition demo_asleep :: "kernel option" where
  "demo_asleep = do { s \<leftarrow> demo_ready; s \<leftarrow> do_call (Call_sema_down 0x7000) s; frame_step s }"

lemma demo_valid: "valid_locks demo_locks"
  by (simp add: valid_locks_def demo_locks_def node_sema_def lock_sema_def tid_lock_def file_lock_def NULL_def)

lemma demo_boot_reachable:
  assumes "demo_boot = Some s"
  shows "reachable demo_locks s"
proof (rule reachable.init)
  show "thread_init (boot 0x3000) = Some s" using assms by (simp add: demo_boot_def)
  show "load_sema 0x3000 \<notin> lock_sema ` demo_locks"
    by (auto simp: demo_locks_def load_sema_def lock_sema_def tid_lock_def file_lock_def)
qed

lemma demo_reachable:
  "demo_take = Some s \<Longrightarrow> reachable demo_locks s" "demo_held = Some s \<Longrightarrow> reachable demo_locks s"
  "demo_main = Some s \<Longrightarrow> reachable demo_locks s"
proof -
  show 1: "reachable demo_locks s" if "demo_take = Some s" for s
    using that demo_boot_reachable frame_step_kstep reachable.step by (fastforce simp: demo_take_def bind_eq_Some_conv)
  show 2: "reachable demo_locks s" if "demo_held = Some s" for s
    using that 1 frame_step_kstep reachable.step by (fastforce simp: demo_held_def bind_eq_Some_conv)
  show "reachable demo_locks s" if "demo_main = Some s" for s
    using that 2 frame_step_kstep reachable.step by (fastforce simp: demo_main_def bind_eq_Some_conv)
qed

lemmas run_defs = thread_init_def boot_def lock_init_def sema_init_def init_thread_def upd_thread_def allocate_tid_def
  lock_acquire_def sema_down_def sema_down_loop_def lock_held_by_current_thread_def lock_take_def lock_release_def sema_up_def
  thread_init_tail_def allocate_tid_tail_def thread_current_def running_thread_def is_thread_def fresh_thread_def
  intr_get_level_def intr_context_def intr_disable_def intr_enable_def intr_set_level_def push_frame_def
  tid_lock_def lock_sema_def load_sema_def NULL_def PRI_DEFAULT_def PRI_MIN_def PRI_MAX_def thread_create_def
  thread_create_tail_def node_sema_def alloc_frame_def set_ret_def thread_unblock_def thread_block_def schedule_def
  next_thread_to_run_def thread_schedule_tail_def process_activate_def emit_def Let_def

lemma frame_step_top:
  "frames s (running s) = f # fs \<Longrightarrow> frame_step s = run_frame f (s\<lparr>frames := (frames s)(running s := fs)\<rparr>)"
  by (simp add: frame_step_def)

lemmas step_defs = run_defs frame_step_top demo_boot_def demo_take_def demo_held_def demo_main_def

lemma demo_held_state:
  "\<exists>s. demo_held = Some s \<and> running s = 0x3000 \<and> holders s tid_lock = 0x3000"
  by (simp add: step_defs)

lemma demo_main_state:
  "\<exists>s. demo_main = Some s \<and> frames s (running s) = [] \<and> threads s 0x5000 = None \<and> frames s 0x5000 = []"
  by (simp add: step_defs)

lemma demo_ready_state:
  "\<exists>s. demo_ready = Some s \<and> running s = 0x3000 \<and> frames s 0x3000 = [] \<and> ready_list s = [0x5000] \<and> \<not> in_external_intr s"
  by (simp add: step_defs demo_create_def demo_created_def demo_ready_def)


lemma demo_asleep_state:
  "\<exists>s. demo_asleep = Some s \<and> waiters (semas s 0x7000) = [0x3000] \<and> running s = 0x5000"
  by (simp add: step_defs demo_create_def demo_created_def demo_ready_def demo_asleep_def)

lemma demo_ready_reachable:
  assumes "demo_ready = Some s"
  shows "reachable demo_locks s"
proof -
  obtain m where m: "demo_main = Some m" "frames m (running m) = []" "threads m 0x5000 = None" "frames m 0x5000 = []"
    using demo_main_state by (elim exE conjE) simp
  obtain c where c: "do_call demo_create m = Some c" "do { s \<leftarrow> frame_step c; s \<leftarrow> frame_step s; frame_step s } = Some s"
    using assms unfolding demo_ready_def demo_created_def m(1) by (auto simp: bind_eq_Some_conv)
  have "allowed demo_locks demo_create m"
    using m(3,4) by (auto simp: demo_create_def fresh_page_def demo_locks_def load_sema_def lock_sema_def node_sema_def
        tid_lock_def file_lock_def)
  then have "reachable demo_locks c" by (rule reachable.step[OF demo_reachable(3)[OF m(1)] kstep.call[OF m(2) _ c(1)]])
  moreover have "reachable demo_locks r'" if "reachable demo_locks r" "frame_step r = Some r'" for r r'
    using that frame_step_kstep reachable.step by blast
  ultimately show ?thesis
    using c(2) by (auto simp: bind_eq_Some_conv)
qed

lemma demo_asleep_reachable:
  assumes "demo_asleep = Some s"
  shows "reachable demo_locks s"
proof -
  obtain r where r: "demo_ready = Some r" "running r = 0x3000 \<and> frames r 0x3000 = []"
    using demo_ready_state by (elim exE conjE) simp
  obtain c where c: "do_call (Call_sema_down 0x7000) r = Some c" "frame_step c = Some s"
    using assms unfolding demo_asleep_def r(1) by (auto simp: bind_eq_Some_conv simp del: do_call.simps)
  have "allowed demo_locks (Call_sema_down 0x7000) r"
    by (auto simp: demo_locks_def lock_sema_def tid_lock_def file_lock_def)
  then have "reachable demo_locks c" using r(2) by (intro reachable.step[OF demo_ready_reachable[OF r(1)] kstep.call[OF _ _ c(1)]]) simp_all
  then show ?thesis using c(2) frame_step_kstep reachable.step by blast
qed

section \<open>The run queue and the wait lists\<close>

text \<open>C1: in every reachable state one thread has the status of a running thread, it is the thread whose stack the
  processor uses, and the run queue holds exactly the ready threads other than the idle thread, each once.
\<close>
theorem run_queue_exact:
  assumes "reachable L s" "valid_locks L"
  shows "(st s t = Some THREAD_RUNNING \<longleftrightarrow> t = running s) \<and> distinct (ready_list s) \<and>
    (t \<in> set (ready_list s) \<longleftrightarrow> st s t = Some THREAD_READY \<and> t \<noteq> idle_thread s)"
proof -
  note ok = reachable_ok[OF assms]
  show ?thesis
    using kernel_okD(2)[OF ok, of t] base_okD(1)[OF kernel_okD(1)[OF ok]] by (simp add: queue_ok_def)
qed

theorem run_queue_exact_witness:
  "\<exists>s. reachable demo_locks s \<and> st s 0x3000 = Some THREAD_RUNNING"
proof -
  obtain s where s: "demo_held = Some s" "running s = 0x3000 \<and> holders s tid_lock = 0x3000"
    using demo_held_state by (elim exE conjE) simp
  have "st s 0x3000 = Some THREAD_RUNNING"
    using run_queue_exact[OF demo_reachable(2)[OF s(1)] demo_valid, of "0x3000"] s(2) by simp
  then show ?thesis using demo_reachable(2)[OF s(1)] by (intro exI[of _ s] conjI)
qed

text \<open>C18: the wait lists of semaphores have no duplicates and are disjoint from each other, every thread in one is
  blocked inside \<open>sema_down\<close> on that semaphore, and so is neither running nor in the run queue.
\<close>
theorem wait_lists_disjoint:
  assumes "reachable L s" "valid_locks L" "t \<in> set (waiters (semas s p))"
  shows "distinct (waiters (semas s p)) \<and> st s t = Some THREAD_BLOCKED \<and> (\<exists>lv fs. frames s t = Sema_down p lv # fs) \<and>
    t \<notin> set (ready_list s) \<and> t \<noteq> running s \<and> (t \<in> set (waiters (semas s q)) \<longrightarrow> q = p)"
proof -
  note ok = reachable_ok[OF assms(1,2)] note base = kernel_okD(1)[OF ok]
  obtain lv fs where t: "st s t = Some THREAD_BLOCKED" "frames s t = Sema_down p lv # fs"
    using sleeperD[OF base assms(3)] by blast
  have "q = p" if "t \<in> set (waiters (semas s q))" using sleeperD[OF base that] t(2) by auto
  moreover have "t \<notin> set (ready_list s)" using readyD[OF base, of t] t(1) by auto
  moreover have "t \<noteq> running s" using running_awake(1)[OF ok, of p] assms(3) by auto
  ultimately show ?thesis using distinct_waiters[OF ok] t by blast
qed

theorem wait_lists_disjoint_witness:
  "\<exists>s. reachable demo_locks s \<and> waiters (semas s 0x7000) = [0x3000] \<and> st s 0x3000 = Some THREAD_BLOCKED"
proof -
  obtain s where s: "demo_asleep = Some s" "waiters (semas s 0x7000) = [0x3000] \<and> running s = 0x5000"
    using demo_asleep_state by (elim exE conjE) simp
  note r = demo_asleep_reachable[OF s(1)]
  have "st s 0x3000 = Some THREAD_BLOCKED"
    using wait_lists_disjoint[OF r demo_valid, of "0x3000" "0x7000" "0x7000"] s(2) by simp
  then show ?thesis using r s(2) by (intro exI[of _ s] conjI) simp_all
qed

section \<open>Mutual exclusion\<close>

text \<open>A thread owns a lock when it is entered as holder, or has taken the semaphore and is about to be entered.\<close>

definition owns :: "kernel \<Rightarrow> ptr \<Rightarrow> ptr \<Rightarrow> bool" where
  "owns s l t \<longleftrightarrow> t \<noteq> NULL \<and> holders s l = t \<or> 0 < tok l (frames s t)"

text \<open>C2: a lock has at most one owner in every reachable state, and its semaphore is 0 while it has one.
\<close>
theorem lock_exclusive:
  assumes "reachable L s" "valid_locks L" "l \<in> L" "owns s l t"
  shows "sema_value (semas s (lock_sema l)) = 0 \<and> (u \<noteq> t \<longrightarrow> \<not> owns s l u)"
proof -
  have "lock_ok (sema_value (semas s (lock_sema l))) (holders s l) (\<lambda>u. tok l (frames s u))"
    by (rule lock_okD[OF reachable_ok[OF assms(1,2)] assms(3)])
  then show ?thesis
  proof (cases rule: lock_okE)
    case (down w)
    have "t = w" using assms(4) down(2) down(3)[of t] by (simp add: owns_def split: if_splits)
    then show ?thesis using down(1,2) down(3)[of u] by (auto simp: owns_def split: if_splits)
  next
    case held
    then show ?thesis using assms(4) by (auto simp: owns_def)
  next
    case up
    then show ?thesis using assms(4) by (auto simp: owns_def)
  qed
qed

theorem lock_exclusive_witness:
  "\<exists>s. reachable demo_locks s \<and> owns s tid_lock 0x3000 \<and> \<not> owns s tid_lock 0x5000"
proof -
  obtain s where s: "demo_held = Some s" "running s = 0x3000 \<and> holders s tid_lock = 0x3000"
    using demo_held_state by (elim exE conjE) simp
  have o: "owns s tid_lock 0x3000" using s by (simp add: owns_def NULL_def)
  have "tid_lock \<in> demo_locks" by (simp add: demo_locks_def)
  then show ?thesis
    using lock_exclusive[OF demo_reachable(2)[OF s(1)] demo_valid _ o, of "0x5000"] demo_reachable(2)[OF s(1)] o
    by (intro exI[of _ s]) simp
qed


section \<open>Round-robin scheduling\<close>

text \<open>A thread whose stack has not grown into its structure.\<close>

definition intact :: "kernel \<Rightarrow> ptr \<Rightarrow> bool" where
  "intact s t \<longleftrightarrow> (case threads s t of None \<Rightarrow> False | Some th \<Rightarrow> magic th = THREAD_MAGIC)"

text \<open>Whichever thread runs yields, a number of times.\<close>

primrec yield_times :: "nat \<Rightarrow> kernel \<Rightarrow> kernel option" where
  "yield_times 0 s = Some s"
| "yield_times (Suc n) s = do { s \<leftarrow> thread_yield s; yield_times n s }"

lemma yield_step:
  assumes ok: "kernel_ok L s" and ext: "\<not> in_external_intr s" and q: "ready_list s = t # ts"
    and int: "intact s (running s)" "intact s t"
  obtains s' where "thread_yield s = Some s'" "running s' = t" "\<not> in_external_intr s'"
    "ready_list s' = ts @ (if running s = idle_thread s then [] else [running s])" "\<And>u. intact s' u = intact s u"
proof -
  note base = kernel_okD(1)[OF ok] and r = running_awake[OF ok]
  obtain c where c: "threads s (running s) = Some c" "status c = THREAD_RUNNING" "magic c = THREAD_MAGIC"
    using r(3) int(1) by (auto simp: st_def tview_def intact_def)
  have "st s t = Some THREAD_READY" using readyD[OF base, of t] q by simp
  then obtain d where d: "threads s t = Some d" "status d = THREAD_READY" "magic d = THREAD_MAGIC"
    using int(2) by (auto simp: st_def tview_def intact_def)
  have n: "t \<noteq> NULL" "running s \<noteq> NULL" "t \<noteq> running s" "running s \<noteq> t"
    using d c r(2) base_okD(3)[OF base] \<open>st s t = Some THREAD_READY\<close> by (auto simp: idle_ok_def)
  let ?q = "ts @ (if running s = idle_thread s then [] else [running s])"
  have ex: "\<exists>s'. thread_yield s = Some s' \<and> running s' = t \<and> \<not> in_external_intr s' \<and> ready_list s' = ?q \<and>
      threads s' = (threads s)(running s \<mapsto> c\<lparr>status := THREAD_READY\<rparr>, t \<mapsto> d\<lparr>status := THREAD_RUNNING\<rparr>)"
    using q c d n ext
    by (cases "running s = idle_thread s")
      (simp_all add: thread_yield_def thread_current_def running_thread_def is_thread_def intr_context_def intr_get_level_def
        intr_disable_def upd_thread_def push_frame_def schedule_def next_thread_to_run_def thread_schedule_tail_def
        process_activate_def emit_def Let_def)
  then obtain s' where s': "thread_yield s = Some s'" "running s' = t" "\<not> in_external_intr s'" "ready_list s' = ?q"
      "threads s' = (threads s)(running s \<mapsto> c\<lparr>status := THREAD_READY\<rparr>, t \<mapsto> d\<lparr>status := THREAD_RUNNING\<rparr>)"
    by blast
  have "intact s' u = intact s u" for u using s'(5) c d by (simp add: intact_def)
  then show ?thesis using that s' by blast
qed

lemma yields_reach:
  assumes "kernel_ok L s" "\<not> in_external_intr s" "\<And>t. t \<in> set (running s # ready_list s) \<Longrightarrow> intact s t"
    "k < length (ready_list s)"
  shows "\<exists>s'. yield_times (Suc k) s = Some s' \<and> running s' = ready_list s ! k"
  using assms
proof (induction k arbitrary: s)
  case (0 s)
  then obtain t ts where q: "ready_list s = t # ts" by (cases "ready_list s") auto
  obtain s' where "thread_yield s = Some s'" "running s' = t"
    by (rule yield_step[OF 0(1,2) q]) (use 0(3) q in auto)
  then show ?case using q by simp
next
  case (Suc k s)
  then obtain t ts where q: "ready_list s = t # ts" by (cases "ready_list s") auto
  obtain s' where s': "thread_yield s = Some s'" "running s' = t" "\<not> in_external_intr s'"
      "ready_list s' = ts @ (if running s = idle_thread s then [] else [running s])" "\<And>u. intact s' u = intact s u"
    by (rule yield_step[OF Suc.prems(1,2) q]) (use Suc.prems(3) q in auto)
  have "intact s' u" if "u \<in> set (running s' # ready_list s')" for u
    using that s'(2,4,5) Suc.prems(3)[of u] q by (auto split: if_splits)
  moreover have "k < length (ready_list s')" "ready_list s' ! k = ts ! k"
    using Suc.prems(4) q s'(4) by (simp_all add: nth_append)
  ultimately obtain r where "yield_times (Suc k) s' = Some r" "running r = ts ! k"
    using Suc.IH[OF thread_yield_ok[OF s'(1) Suc.prems(1)] s'(3)] by auto
  then show ?case using s'(1) q by simp
qed

text \<open>C4: no ready thread starves: the thread at position \<open>k\<close> of the run queue runs after the running threads have
  yielded \<open>k + 1\<close> times, and none of these calls fails.
\<close>
theorem round_robin:
  assumes "reachable L s" "valid_locks L" "\<not> in_external_intr s" "k < length (ready_list s)"
    and "\<forall>t\<in>set (running s # ready_list s). intact s t"
  shows "\<exists>s'. yield_times (Suc k) s = Some s' \<and> running s' = ready_list s ! k"
  by (rule yields_reach[OF reachable_ok[OF assms(1,2)] assms(3) _ assms(4)]) (use assms(5) in blast)

lemma demo_ready_intact: "\<exists>s. demo_ready = Some s \<and> intact s 0x3000 \<and> intact s 0x5000"
  by (simp add: step_defs demo_create_def demo_created_def demo_ready_def intact_def)

theorem round_robin_witness:
  "\<exists>s s'. reachable demo_locks s \<and> running s = 0x3000 \<and> yield_times 1 s = Some s' \<and> running s' = 0x5000"
proof -
  obtain s where s: "demo_ready = Some s" "running s = 0x3000 \<and> frames s 0x3000 = [] \<and> ready_list s = [0x5000] \<and> \<not> in_external_intr s"
    using demo_ready_state by (elim exE conjE) simp
  note r = demo_ready_reachable[OF s(1)]
  have "intact s 0x3000 \<and> intact s 0x5000" using demo_ready_intact s(1) by (metis option.inject)
  then have "\<exists>s'. yield_times (Suc 0) s = Some s' \<and> running s' = ready_list s ! 0"
    by (intro round_robin[OF r demo_valid]) (use s(2) in simp_all)
  then obtain s' where "yield_times 1 s = Some s'" "running s' = 0x5000" using s(2) by auto
  then show ?thesis using r s(2) by blast
qed


section \<open>Processes and their children\<close>

lemma first_token_blank: "\<forall>c\<in>set cmd. c = CHR '' '' \<Longrightarrow> first_token (take n cmd) = None"
proof -
  assume a: "\<forall>c\<in>set cmd. c = CHR '' ''"
  have "dropWhile (\<lambda>c. c = CHR '' '') (take n cmd) = []"
    using a set_take_subset[of n cmd] by (auto simp: dropWhile_eq_Nil_conv)
  then show ?thesis unfolding first_token_def by (simp only: list.case)
qed

text \<open>C20: a command line of blanks, or the empty one, brings the kernel down: \<open>strtok_r\<close> finds no token and
  \<open>init_thread\<close> asserts that the name of the new thread is not the null pointer.
\<close>
theorem exec_blank_panics:
  assumes "\<forall>c\<in>set cmd. c = CHR '' ''" "p1 \<noteq> NULL" "p2 \<noteq> NULL" "t \<noteq> NULL"
  shows "process_execute cmd p1 p2 t n s = None"
  using assms(2-4) first_token_blank[OF assms(1)]
  by (cases "thread_current s") (simp_all add: process_execute_def thread_create_def init_thread_def ASSERT_def bind_eq_None_conv)

theorem exec_blank_panics_witness:
  "process_execute ''  '' 0x6000 0x7000 0x5000 0x9000 (the demo_main) = None"
  by (rule exec_blank_panics) (simp_all add: NULL_def)

lemma find_node_distinct:
  assumes "\<And>m. m \<in> set ns \<Longrightarrow> \<exists>nd. nodes s m = Some nd \<and> node_tid nd \<noteq> i"
  shows "find_node ns i s = Some NULL"
  using assms
proof (induction ns)
  case (Cons m ns)
  then obtain nd where "nodes s m = Some nd" "node_tid nd \<noteq> i" by (meson list.set_intros(1))
  then show ?case using Cons by simp
qed simp

lemma thread_current_cong: "threads s' = threads s \<Longrightarrow> running s' = running s \<Longrightarrow> thread_current s' = thread_current s"
  by (simp add: thread_current_def running_thread_def is_thread_def Let_def)

lemma find_node_member:
  assumes "n \<in> set ns" "nodes s n = Some nd"
    and "\<And>m. m \<in> set ns \<Longrightarrow> m \<noteq> n \<Longrightarrow> \<exists>md. nodes s m = Some md \<and> node_tid md \<noteq> node_tid nd"
  shows "find_node ns (node_tid nd) s = Some n"
  using assms(1,3)
proof (induction ns)
  case (Cons m ns)
  show ?case
  proof (cases "m = n")
    case False
    then obtain md where "nodes s m = Some md" "node_tid md \<noteq> node_tid nd" using Cons.prems(2)[of m] by auto
    then show ?thesis using Cons False by simp
  qed (simp add: assms(2))
qed simp

lemma thread_block_sleeps:
  assumes "thread_block s = Some s'" "running s \<notin> set (ready_list s)" "running s \<noteq> idle_thread s"
  shows "st s' (running s) = Some THREAD_BLOCKED" "running s' \<noteq> running s" "semas s' = semas s" "frames s' = frames s"
    "nodes s' = nodes s" "retval s' = retval s"
proof -
  have n: "fst (next_thread_to_run s) \<noteq> running s" using assms(2,3) by (auto simp: next_thread_to_run_def split: list.splits)
  note d = thread_block_def schedule_def thread_schedule_tail_def process_activate_def upd_thread_def next_thread_to_run_def
    running_thread_def bind_eq_Some_conv Let_def emit_def thread_current_def
  show "st s' (running s) = Some THREAD_BLOCKED" "running s' \<noteq> running s" "semas s' = semas s" "frames s' = frames s"
    "nodes s' = nodes s" "retval s' = retval s"
    using assms(1) n by (auto simp: d st_def tview_def split: list.splits if_splits)
qed

text \<open>The thread \<open>cur\<close> runs outside of interrupts and has a child with the record \<open>n\<close>; the records of its children are
  live and have different identifiers.\<close>

definition has_child :: "ptr \<Rightarrow> thread \<Rightarrow> ptr \<Rightarrow> tid_status \<Rightarrow> kernel \<Rightarrow> bool" where
  "has_child cur th n nd s \<longleftrightarrow> thread_current s = Some cur \<and> threads s cur = Some th \<and> \<not> intr_context s \<and>
     n \<noteq> NULL \<and> nodes s n = Some nd \<and> n \<in> set (child_nodes th) \<and> distinct (child_nodes th) \<and>
     (\<forall>m\<in>set (child_nodes th) - {n}. \<exists>md. nodes s m = Some md \<and> node_tid md \<noteq> node_tid nd)"

lemma wait_call:
  assumes "has_child cur th n nd s" "\<not> waiting nd"
  shows "process_wait (node_tid nd) s =
    Some (intr_disable (push_frame (Sema_down (node_sema n) (level s)) (push_frame (Wait_tail n) s)))"
proof -
  note c = assms(1)[unfolded has_child_def]
  have "find_node (child_nodes th) (node_tid nd) s = Some n" using c by (intro find_node_member) auto
  moreover have "child_nodes th \<noteq> []" using c by auto
  ultimately show ?thesis
    using c assms(2) by (simp add: process_wait_def sema_down_def node_sema_def NULL_def intr_get_level_def intr_context_def push_frame_def)
qed

lemma wait_tail_ends:
  assumes "has_child cur th n nd s"
  shows "\<exists>s'. process_wait_tail n s = Some s' \<and> retval s' cur = exit_status nd \<and> frames s' = frames s \<and>
    nodes s' = (nodes s)(n := None) \<and> threads s' = (threads s)(cur \<mapsto> child_nodes_update (remove1 n) th) \<and>
    semas s' = semas s \<and> level s' = level s \<and> running s' = running s \<and> events s' = events s @ [Free n, Write_freed n] \<and>
    process_wait (node_tid nd) s' = Some (set_ret (- 1) s')"
proof -
  note c = assms[unfolded has_child_def]
  have run: "cur = running s" using c thread_currentD by blast
  let ?th = "child_nodes_update (remove1 n) th"
  define s' where "s' = set_ret (exit_status nd) (emit (Write_freed n) (emit (Free n)
    (s\<lparr>threads := (threads s)(running s \<mapsto> ?th), nodes := (nodes s)(n := None)\<rparr>)))"
  have s': "process_wait_tail n s = Some s'" using c run by (simp add: process_wait_tail_def upd_thread_def s'_def Let_def)
  have f: "threads s' = (threads s)(running s \<mapsto> ?th)" "running s' = running s" "nodes s' = (nodes s)(n := None)"
    "retval s' cur = exit_status nd" "frames s' = frames s" "semas s' = semas s" "level s' = level s" "events s' = events s @ [Free n, Write_freed n]"
    by (simp_all add: s'_def set_ret_def emit_def run)
  have c1: "thread_current s' = Some (running s')"
    using c run f by (auto simp: thread_current_def running_thread_def is_thread_def bind_eq_Some_conv Let_def split: if_splits)
  have "find_node (child_nodes ?th) (node_tid nd) s' = Some NULL"
    by (rule find_node_distinct) (use c f(3) in auto)
  then have "process_wait (node_tid nd) s' = Some (set_ret (- 1) s')"
    using c1 f(1,2) by (simp add: process_wait_def)
  then show ?thesis using s' f run by blast
qed

lemma wait_takes:
  assumes "has_child cur th n nd s"
    and fr: "frames s cur = Sema_down (node_sema n) lv # Wait_tail n # fs" and v: "sema_value (semas s (node_sema n)) > 0"
  shows "\<exists>s1 s2. frame_step s = Some s1 \<and> frame_step s1 = Some s2 \<and> retval s2 cur = exit_status nd \<and>
      frames s2 = (frames s)(cur := fs) \<and> level s2 = lv \<and> nodes s2 = (nodes s)(n := None) \<and>
      threads s2 = (threads s)(cur \<mapsto> child_nodes_update (remove1 n) th) \<and>
      sema_value (semas s2 (node_sema n)) = sema_value (semas s (node_sema n)) - 1 \<and>
      events s2 = events s @ [Free n, Write_freed n] \<and> process_wait (node_tid nd) s2 = Some (set_ret (- 1) s2)"
proof -
  note c = assms(1)[unfolded has_child_def]
  have run: "cur = running s" using c thread_currentD by blast
  define s1 where "s1 = s\<lparr>frames := (frames s)(cur := Wait_tail n # fs),
    semas := (semas s)(node_sema n := sema_value_update (\<lambda>v. v - 1) (semas s (node_sema n))), level := lv\<rparr>"
  have s1: "frame_step s = Some s1" using v c fr run unfolding s1_def
    by (cases lv) (auto simp: frame_step_def sema_down_loop_def intr_set_level_def intr_enable_def intr_disable_def intr_context_def)
  let ?q = "s1\<lparr>frames := (frames s1)(cur := fs)\<rparr>"
  have "has_child cur th n nd ?q"
    using c thread_current_cong[of ?q s] by (simp add: has_child_def s1_def intr_context_def)
  from wait_tail_ends[OF this] obtain s2 where "process_wait_tail n ?q = Some s2" "retval s2 cur = exit_status nd"
    "frames s2 = (frames s)(cur := fs)" "nodes s2 = (nodes s)(n := None)" "level s2 = lv" "events s2 = events s @ [Free n, Write_freed n]"
    "threads s2 = (threads s)(cur \<mapsto> child_nodes_update (remove1 n) th)" "semas s2 = semas s1"
    "process_wait (node_tid nd) s2 = Some (set_ret (- 1) s2)"
    by (auto simp: s1_def)
  moreover have "frame_step s1 = process_wait_tail n ?q" by (simp add: frame_step_def s1_def run)
  ultimately show ?thesis using s1 by (simp add: s1_def)
qed

lemma wait_sleeps:
  assumes "has_child cur th n nd s" and fr: "frames s cur = Sema_down p lv # fs"
    and z: "sema_value (semas s p) = 0" "cur \<notin> set (ready_list s)" "cur \<noteq> idle_thread s" "frame_step s = Some s1"
  shows "st s1 cur = Some THREAD_BLOCKED \<and> running s1 \<noteq> cur \<and> waiters (semas s1 p) = waiters (semas s p) @ [cur] \<and>
    frames s1 = frames s \<and> nodes s1 = nodes s \<and> retval s1 = retval s"
proof -
  note c = assms(1)[unfolded has_child_def]
  have run: "cur = running s" using c thread_currentD by blast
  let ?b = "s\<lparr>semas := (semas s)(p := waiters_update (\<lambda>ws. ws @ [cur]) (semas s p)),
    frames := (frames s)(cur := Sema_down p lv # fs)\<rparr>"
  have "thread_current (s\<lparr>frames := (frames s)(cur := fs)\<rparr>) = Some cur"
    using c thread_current_cong[of "s\<lparr>frames := (frames s)(cur := fs)\<rparr>" s] by simp
  then have "thread_block ?b = Some s1"
    using z(1,4) fr run by (simp add: frame_step_def sema_down_loop_def push_frame_def)
  note b = thread_block_sleeps[OF this]
  have "frames ?b = frames s" using fr fun_upd_idem[of "frames s" cur] by simp
  then show ?thesis using b z(2,3) run by simp
qed

text \<open>C19: \<open>process_wait\<close> for a child. The call enters \<open>sema_down\<close> on the semaphore of the child's record with interrupts off.
  While the semaphore is 0 the caller goes to sleep in its wait list, and its result and the records stay as they are. Once it is
  positive, in the call or after waking up, the caller takes it and returns the exit status of the child; the record is
  removed and freed, then written to once more, and a second call for the same child returns -1 and changes nothing else. For an
  identifier that no child has, the call returns -1 at once.\<close>

theorem wait_once:
  assumes "has_child cur th n nd s"
  shows "(\<not> waiting nd \<longrightarrow> process_wait (node_tid nd) s =
       Some (s\<lparr>level := INTR_OFF, frames := (frames s)(cur := Sema_down (node_sema n) (level s) # Wait_tail n # frames s cur)\<rparr>)) \<and>
    (\<forall>lv fs. frames s cur = Sema_down (node_sema n) lv # Wait_tail n # fs \<and> sema_value (semas s (node_sema n)) > 0 \<longrightarrow>
       (\<exists>s1 s2. frame_step s = Some s1 \<and> frame_step s1 = Some s2 \<and> retval s2 cur = exit_status nd \<and>
          frames s2 = (frames s)(cur := fs) \<and> level s2 = lv \<and> nodes s2 = (nodes s)(n := None) \<and>
          threads s2 = (threads s)(cur \<mapsto> child_nodes_update (remove1 n) th) \<and>
          sema_value (semas s2 (node_sema n)) = sema_value (semas s (node_sema n)) - 1 \<and>
          events s2 = events s @ [Free n, Write_freed n] \<and>
          process_wait (node_tid nd) s2 = Some (set_ret (- 1) s2))) \<and>
    (\<forall>lv fs s1. frames s cur = Sema_down (node_sema n) lv # Wait_tail n # fs \<and> sema_value (semas s (node_sema n)) = 0 \<and>
       cur \<notin> set (ready_list s) \<and> cur \<noteq> idle_thread s \<and> frame_step s = Some s1 \<longrightarrow>
       st s1 cur = Some THREAD_BLOCKED \<and> running s1 \<noteq> cur \<and>
       waiters (semas s1 (node_sema n)) = waiters (semas s (node_sema n)) @ [cur] \<and>
       frames s1 = frames s \<and> nodes s1 = nodes s \<and> retval s1 = retval s) \<and>
    (\<forall>i. (\<forall>m\<in>set (child_nodes th). \<exists>md. nodes s m = Some md \<and> node_tid md \<noteq> i) \<longrightarrow>
       process_wait i s = Some (set_ret (- 1) s))"
proof (intro conjI)
  note c = assms[unfolded has_child_def]
  have run: "cur = running s" using c thread_currentD by blast
  show "\<not> waiting nd \<longrightarrow> process_wait (node_tid nd) s =
      Some (s\<lparr>level := INTR_OFF, frames := (frames s)(cur := Sema_down (node_sema n) (level s) # Wait_tail n # frames s cur)\<rparr>)"
    using wait_call[OF assms] run by (simp add: intr_disable_def push_frame_def)
  show "\<forall>i. (\<forall>m\<in>set (child_nodes th). \<exists>md. nodes s m = Some md \<and> node_tid md \<noteq> i) \<longrightarrow> process_wait i s = Some (set_ret (- 1) s)"
    using find_node_distinct[of "child_nodes th" s] c by (simp add: process_wait_def)
qed (use wait_takes[OF assms] wait_sleeps[OF assms] in blast)+

text \<open>A parent with the records of two children, the first of which has ended with status 7.\<close>

definition demo_parent :: kernel where
  "demo_parent = (boot 0x3000)\<lparr>
     threads := [0x3000 \<mapsto> (fresh_thread 0x3000 ''main'' PRI_DEFAULT)\<lparr>status := THREAD_RUNNING, child_nodes := [0x9000, 0xA000]\<rparr>],
     semas := (\<lambda>_. \<lparr>sema_value = 0, waiters = []\<rparr>)(node_sema 0x9000 := \<lparr>sema_value = 1, waiters = []\<rparr>),
     nodes := [0x9000 \<mapsto> \<lparr>node_tid = 3, child = NULL, exit_status = 7, loaded = True, waiting = False\<rparr>,
       0xA000 \<mapsto> \<lparr>node_tid = 4, child = 0x5000, exit_status = - 2, loaded = True, waiting = False\<rparr>]\<rparr>"

theorem wait_once_witness:
  "\<exists>s s1 s2. process_wait 3 demo_parent = Some s \<and> frame_step s = Some s1 \<and> frame_step s1 = Some s2 \<and>
     retval s2 0x3000 = 7 \<and> process_wait 3 s2 = Some (set_ret (- 1) s2)"
proof -
  define th where "th = (fresh_thread 0x3000 ''main'' PRI_DEFAULT)\<lparr>status := THREAD_RUNNING, child_nodes := [0x9000, 0xA000]\<rparr>"
  define nd where "nd = \<lparr>node_tid = 3, child = NULL, exit_status = 7, loaded = True, waiting = False\<rparr>"
  define s where "s = demo_parent\<lparr>level := INTR_OFF, frames := (frames demo_parent)(0x3000 :=
    Sema_down (node_sema 0x9000) (level demo_parent) # Wait_tail 0x9000 # frames demo_parent 0x3000)\<rparr>"
  have c: "has_child 0x3000 th 0x9000 nd demo_parent" "has_child 0x3000 th 0x9000 nd s"
    by (simp_all add: has_child_def s_def demo_parent_def th_def nd_def run_defs)
  have s: "process_wait 3 demo_parent = Some s" using wait_once[OF c(1)] unfolding s_def by (simp add: nd_def)
  have "frames s 0x3000 = Sema_down (node_sema 0x9000) (level demo_parent) # Wait_tail 0x9000 # frames demo_parent 0x3000"
    "sema_value (semas s (node_sema 0x9000)) > 0" by (simp_all add: s_def demo_parent_def)
  then obtain s1 s2 where "frame_step s = Some s1" "frame_step s1 = Some s2" "retval s2 0x3000 = exit_status nd"
    "process_wait (node_tid nd) s2 = Some (set_ret (- 1) s2)"
    using wait_once[OF c(2)] by blast
  then show ?thesis using s by (auto simp: nd_def)
qed

end
