(* ===== verification/Kpaging.thy ===== *)
theory Kpaging
  imports Bitmap "HOL-Library.Signed_Division"
begin

text \<open>
  Physical pages and address spaces: virtual addresses (\<open>threads/vaddr.h\<close>), page table entries
  (\<open>threads/pte.h\<close>), the page pools (\<open>threads/old_palloc.c\<close>), page directories (\<open>userprog/pagedir.c\<close>),
  the frame table (\<open>vm/frame.c\<close>) and the allocation of user pages (\<open>threads/palloc.c\<close>). Addresses and entries
  are machine words; kernel memory is a function from word addresses to words. A pool is scanned and marked
  while its lock is held, so that the two form one step here. The machine state that the assembler instructions
  reach is the register that holds the page directory.
\<close>

section \<open>Virtual addresses\<close>

definition PGSIZE32 :: u32 where "PGSIZE32 = 4096"
definition PGMASK :: u32 where "PGMASK = 0xfff"
definition PHYS_BASE :: u32 where "PHYS_BASE = 0xc0000000"

definition pg_ofs :: "u32 \<Rightarrow> u32" where "pg_ofs va = va AND PGMASK"
definition pg_no :: "u32 \<Rightarrow> u32" where "pg_no va = drop_bit 12 va"
definition pg_round_up :: "u32 \<Rightarrow> u32" where "pg_round_up va = (va + PGSIZE32 - 1) AND NOT PGMASK"
definition pg_round_down :: "u32 \<Rightarrow> u32" where "pg_round_down va = va AND NOT PGMASK"
definition is_user_vaddr :: "u32 \<Rightarrow> bool" where "is_user_vaddr va \<longleftrightarrow> va < PHYS_BASE"
definition is_kernel_vaddr :: "u32 \<Rightarrow> bool" where "is_kernel_vaddr va \<longleftrightarrow> va \<ge> PHYS_BASE"

definition ptov :: "u32 \<Rightarrow> u32 option" where
  "ptov paddr = do { ASSERT (paddr < PHYS_BASE); Some (paddr + PHYS_BASE) }"

definition vtop :: "u32 \<Rightarrow> u32 option" where
  "vtop va = do { ASSERT (is_kernel_vaddr va); Some (va - PHYS_BASE) }"

section \<open>Page table entries\<close>

definition PTMASK :: u32 where "PTMASK = 0x3ff000"
definition PTE_ADDR :: u32 where "PTE_ADDR = 0xfffff000"
definition PTE_P :: u32 where "PTE_P = 0x1"
definition PTE_W :: u32 where "PTE_W = 0x2"
definition PTE_U :: u32 where "PTE_U = 0x4"
definition PTE_A :: u32 where "PTE_A = 0x20"
definition PTE_D :: u32 where "PTE_D = 0x40"

definition pt_no :: "u32 \<Rightarrow> u32" where "pt_no va = drop_bit 12 (va AND PTMASK)"
definition pd_no :: "u32 \<Rightarrow> u32" where "pd_no va = drop_bit 22 va"

definition pde_create :: "u32 \<Rightarrow> u32 option" where
  "pde_create pt = do { ASSERT (pg_ofs pt = 0); p \<leftarrow> vtop pt; Some (p OR PTE_U OR PTE_P OR PTE_W) }"

definition pde_get_pt :: "u32 \<Rightarrow> u32 option" where
  "pde_get_pt pde = do { ASSERT (pde AND PTE_P \<noteq> 0); ptov (pde AND PTE_ADDR) }"

definition pte_create_kernel :: "u32 \<Rightarrow> bool \<Rightarrow> u32 option" where
  "pte_create_kernel page writable = do {
     ASSERT (pg_ofs page = 0);
     p \<leftarrow> vtop page;
     Some (p OR PTE_P OR (if writable then PTE_W else 0))
   }"

definition pte_create_user :: "u32 \<Rightarrow> bool \<Rightarrow> u32 option" where
  "pte_create_user page writable = do { e \<leftarrow> pte_create_kernel page writable; Some (e OR PTE_U) }"

definition pte_get_page :: "u32 \<Rightarrow> u32 option" where
  "pte_get_page pte = ptov (pte AND PTE_ADDR)"

section \<open>Page pools\<close>

record pool =
  used_map :: bitmap
  base :: u32

record frame_entry =
  pid :: int
  page_num :: u32
  reference :: bool
  dirty :: bool
  resident :: bool
  kpage :: u32

text \<open>Of the running thread the code reads the page directory and the identifier.\<close>

record vm =
  words :: "u32 \<Rightarrow> u32"
  cr3 :: u32
  init_page_dir :: u32
  init_ram_pages :: u32
  kernel_pool :: pool
  user_pool :: pool
  frame_pool :: pool
  frame_list :: "frame_entry list"
  cur_pagedir :: u32
  cur_tid :: int

datatype palloc_flag = PAL_ASSERT | PAL_ZERO | PAL_USER

text \<open>\<open>memset\<close> over a number of pages; every word of a page filled with the byte \<open>0xcc\<close> is \<open>0xcccccccc\<close>.\<close>

definition fill_pages :: "u32 \<Rightarrow> u32 \<Rightarrow> u32 \<Rightarrow> vm \<Rightarrow> vm" where
  "fill_pages pages n v s = s\<lparr>words := \<lambda>a. if a - pages < PGSIZE32 * n then v else words s a\<rparr>"

text \<open>The bit map of a pool lies in its first pages, whose previous contents are the argument \<open>buf\<close>.\<close>

definition init_pool :: "elem_type list \<Rightarrow> u32 \<Rightarrow> u32 \<Rightarrow> pool option" where
  "init_pool buf b page_cnt = do {
     let bm_pages = DIV_ROUND_UP (bitmap_buf_size page_cnt) PGSIZE32;
     ASSERT (\<not> bm_pages > page_cnt);
     let page_cnt = page_cnt - bm_pages;
     bm \<leftarrow> bitmap_create_in_buf page_cnt buf (bm_pages * PGSIZE32);
     Some \<lparr>used_map = bm, base = b + bm_pages * PGSIZE32\<rparr>
   }"

definition page_from_pool :: "pool \<Rightarrow> u32 \<Rightarrow> bool" where
  "page_from_pool p page = (
     let page_no = pg_no page; start_page = pg_no (base p); end_page = start_page + bitmap_size (used_map p)
     in page_no \<ge> start_page \<and> page_no < end_page)"

text \<open>The difference of two pointers is a signed integer, and so is \<open>PGSIZE\<close>: the division rounds towards zero.\<close>

definition old_palloc_init :: "elem_type list \<Rightarrow> elem_type list \<Rightarrow> u32 \<Rightarrow> vm \<Rightarrow> (u32 \<times> vm) option" where
  "old_palloc_init kbuf ubuf user_page_limit s = do {
     free_start \<leftarrow> ptov (1024 * 1024);
     free_end \<leftarrow> ptov (init_ram_pages s * PGSIZE32);
     let free_pages = word_of_int (sint (free_end - free_start) sdiv sint PGSIZE32);
     let user_pages = free_pages div 2;
     let user_pages = (if user_pages > user_page_limit then user_page_limit else user_pages);
     let kernel_pages = free_pages - user_pages;
     k \<leftarrow> init_pool kbuf free_start kernel_pages;
     u \<leftarrow> init_pool ubuf (free_start + kernel_pages * PGSIZE32) user_pages;
     Some (user_pages, s\<lparr>kernel_pool := k, user_pool := u\<rparr>)
   }"

definition old_palloc_get_multiple :: "palloc_flag set \<Rightarrow> u32 \<Rightarrow> vm \<Rightarrow> (u32 \<times> vm) option" where
  "old_palloc_get_multiple flags page_cnt s = (
     let pool = (if PAL_USER \<in> flags then user_pool s else kernel_pool s)
     in if page_cnt = 0 then Some (0, s)
        else do {
          (page_idx, bm) \<leftarrow> bitmap_scan_and_flip (used_map pool) 0 page_cnt False;
          let s = (if PAL_USER \<in> flags then s\<lparr>user_pool := pool\<lparr>used_map := bm\<rparr>\<rparr> else s\<lparr>kernel_pool := pool\<lparr>used_map := bm\<rparr>\<rparr>);
          let pages = (if page_idx \<noteq> BITMAP_ERROR then base pool + PGSIZE32 * page_idx else 0);
          if pages \<noteq> 0 then Some (pages, if PAL_ZERO \<in> flags then fill_pages pages page_cnt 0 s else s)
          else do { ASSERT (PAL_ASSERT \<notin> flags); Some (0, s) }
        })"

definition old_palloc_free_multiple :: "u32 \<Rightarrow> u32 \<Rightarrow> vm \<Rightarrow> vm option" where
  "old_palloc_free_multiple pages page_cnt s = do {
     ASSERT (pg_ofs pages = 0);
     if pages = 0 \<or> page_cnt = 0 then Some s
     else do {
       ASSERT (page_from_pool (kernel_pool s) pages \<or> page_from_pool (user_pool s) pages);
       let pool = (if page_from_pool (kernel_pool s) pages then kernel_pool s else user_pool s);
       let page_idx = pg_no pages - pg_no (base pool);
       let s' = fill_pages pages page_cnt 0xcccccccc s;
       al \<leftarrow> bitmap_all (used_map pool) page_idx page_cnt;
       ASSERT al;
       bm \<leftarrow> bitmap_set_multiple (used_map pool) page_idx page_cnt False;
       Some (if page_from_pool (kernel_pool s) pages then s'\<lparr>kernel_pool := pool\<lparr>used_map := bm\<rparr>\<rparr>
             else s'\<lparr>user_pool := pool\<lparr>used_map := bm\<rparr>\<rparr>)
     }
   }"

definition palloc_get_page :: "palloc_flag set \<Rightarrow> vm \<Rightarrow> (u32 \<times> vm) option" where
  "palloc_get_page flags s = old_palloc_get_multiple flags 1 s"

definition palloc_get_multiple :: "palloc_flag set \<Rightarrow> u32 \<Rightarrow> vm \<Rightarrow> (u32 \<times> vm) option" where
  "palloc_get_multiple flags page_cnt s = do {
     ASSERT (PAL_USER \<notin> flags);
     old_palloc_get_multiple flags page_cnt s
   }"

definition palloc_free_multiple :: "u32 \<Rightarrow> u32 \<Rightarrow> vm \<Rightarrow> vm option" where
  "palloc_free_multiple pages page_cnt s = old_palloc_free_multiple pages page_cnt s"

definition palloc_free_page :: "u32 \<Rightarrow> vm \<Rightarrow> vm option" where
  "palloc_free_page page s = old_palloc_free_multiple page 1 s"

section \<open>Page directories\<close>

definition pagedir_activate :: "u32 \<Rightarrow> vm \<Rightarrow> vm option" where
  "pagedir_activate pd s = do {
     let pd = (if pd = 0 then init_page_dir s else pd);
     p \<leftarrow> vtop pd;
     Some (s\<lparr>cr3 := p\<rparr>)
   }"

definition active_pd :: "vm \<Rightarrow> u32 option" where
  "active_pd s = ptov (cr3 s)"

definition invalidate_pagedir :: "u32 \<Rightarrow> vm \<Rightarrow> vm option" where
  "invalidate_pagedir pd s = do {
     a \<leftarrow> active_pd s;
     if a = pd then pagedir_activate pd s else Some s
   }"

definition pagedir_create :: "vm \<Rightarrow> (u32 \<times> vm) option" where
  "pagedir_create s = do {
     (pd, s) \<leftarrow> palloc_get_page {} s;
     Some (pd, if pd \<noteq> 0 then s\<lparr>words := \<lambda>a. if a - pd < PGSIZE32 then words s (a - pd + init_page_dir s) else words s a\<rparr> else s)
   }"

definition pagedir_destroy :: "u32 \<Rightarrow> vm \<Rightarrow> vm option" where
  "pagedir_destroy pd s =
     (if pd = 0 then Some s else do { ASSERT (pd \<noteq> init_page_dir s); palloc_free_page pd s })"

definition lookup_page :: "u32 \<Rightarrow> u32 \<Rightarrow> bool \<Rightarrow> vm \<Rightarrow> (u32 \<times> vm) option" where
  "lookup_page pd vaddr create s = do {
     ASSERT (pd \<noteq> 0);
     ASSERT (\<not> create \<or> is_user_vaddr vaddr);
     let pde = pd + 4 * pd_no vaddr;
     (ok, s) \<leftarrow>
       (if words s pde = 0 then
          if create then do {
            (pt, s) \<leftarrow> palloc_get_page {PAL_ZERO} s;
            if pt = 0 then Some (False, s)
            else do {
              e \<leftarrow> pde_create pt;
              Some (True, s\<lparr>words := (words s)(pde := e)\<rparr>)
            }
          } else Some (False, s)
        else Some (True, s));
     if \<not> ok then Some (0, s)
     else do {
       pt \<leftarrow> pde_get_pt (words s pde);
       Some (pt + 4 * pt_no vaddr, s)
     }
   }"

definition pagedir_set_page :: "u32 \<Rightarrow> u32 \<Rightarrow> u32 \<Rightarrow> bool \<Rightarrow> vm \<Rightarrow> (bool \<times> vm) option" where
  "pagedir_set_page pd upage kp writable s = do {
     ASSERT (pg_ofs upage = 0);
     ASSERT (pg_ofs kp = 0);
     ASSERT (is_user_vaddr upage);
     p \<leftarrow> vtop kp;
     ASSERT (drop_bit 12 p < init_ram_pages s);
     ASSERT (pd \<noteq> init_page_dir s);
     (pte, s) \<leftarrow> lookup_page pd upage True s;
     if pte \<noteq> 0 then do {
       ASSERT (words s pte AND PTE_P = 0);
       e \<leftarrow> pte_create_user kp writable;
       Some (True, s\<lparr>words := (words s)(pte := e)\<rparr>)
     } else Some (False, s)
   }"

definition pagedir_get_page :: "u32 \<Rightarrow> u32 \<Rightarrow> vm \<Rightarrow> u32 option" where
  "pagedir_get_page pd uaddr s = do {
     ASSERT (is_user_vaddr uaddr);
     (pte, _) \<leftarrow> lookup_page pd uaddr False s;
     if pte \<noteq> 0 \<and> words s pte AND PTE_P \<noteq> 0 then do {
       page \<leftarrow> pte_get_page (words s pte);
       Some (page + pg_ofs uaddr)
     } else Some 0
   }"

definition pagedir_clear_page :: "u32 \<Rightarrow> u32 \<Rightarrow> vm \<Rightarrow> vm option" where
  "pagedir_clear_page pd upage s = do {
     ASSERT (pg_ofs upage = 0);
     ASSERT (is_user_vaddr upage);
     (pte, _) \<leftarrow> lookup_page pd upage False s;
     if pte \<noteq> 0 \<and> words s pte AND PTE_P \<noteq> 0
     then invalidate_pagedir pd (s\<lparr>words := (words s)(pte := words s pte AND NOT PTE_P)\<rparr>)
     else Some s
   }"

definition pagedir_is_dirty :: "u32 \<Rightarrow> u32 \<Rightarrow> vm \<Rightarrow> bool option" where
  "pagedir_is_dirty pd vpage s = do {
     (pte, _) \<leftarrow> lookup_page pd vpage False s;
     Some (pte \<noteq> 0 \<and> words s pte AND PTE_D \<noteq> 0)
   }"

definition pagedir_set_dirty :: "u32 \<Rightarrow> u32 \<Rightarrow> bool \<Rightarrow> vm \<Rightarrow> vm option" where
  "pagedir_set_dirty pd vpage d s = do {
     (pte, _) \<leftarrow> lookup_page pd vpage False s;
     if pte \<noteq> 0 then
       if d then Some (s\<lparr>words := (words s)(pte := words s pte OR PTE_D)\<rparr>)
       else invalidate_pagedir pd (s\<lparr>words := (words s)(pte := words s pte AND NOT PTE_D)\<rparr>)
     else Some s
   }"

definition pagedir_is_accessed :: "u32 \<Rightarrow> u32 \<Rightarrow> vm \<Rightarrow> bool option" where
  "pagedir_is_accessed pd vpage s = do {
     (pte, _) \<leftarrow> lookup_page pd vpage False s;
     Some (pte \<noteq> 0 \<and> words s pte AND PTE_A \<noteq> 0)
   }"

definition pagedir_set_accessed :: "u32 \<Rightarrow> u32 \<Rightarrow> bool \<Rightarrow> vm \<Rightarrow> vm option" where
  "pagedir_set_accessed pd vpage acc s = do {
     (pte, _) \<leftarrow> lookup_page pd vpage False s;
     if pte \<noteq> 0 then
       if acc then Some (s\<lparr>words := (words s)(pte := words s pte OR PTE_A)\<rparr>)
       else invalidate_pagedir pd (s\<lparr>words := (words s)(pte := words s pte AND NOT PTE_A)\<rparr>)
     else Some s
   }"

section \<open>The frame table and user pages\<close>

primrec frame_loop :: "nat \<Rightarrow> u32 \<Rightarrow> u32 \<Rightarrow> frame_entry list" where
  "frame_loop 0 b i = []"
| "frame_loop (Suc n) b i =
     \<lparr>pid = - 1, page_num = - 1, reference = False, dirty = False, resident = False, kpage = b + i * PGSIZE32\<rparr> # frame_loop n b (i + 1)"

definition frame_table_init :: "elem_type list \<Rightarrow> u32 \<Rightarrow> vm \<Rightarrow> vm option" where
  "frame_table_init buf num_frames s = do {
     (b, s) \<leftarrow> old_palloc_get_multiple {PAL_USER, PAL_ZERO, PAL_ASSERT} num_frames s;
     fp \<leftarrow> init_pool buf b num_frames;
     Some (s\<lparr>frame_pool := fp, frame_list := frame_loop (unat num_frames) (base fp) 0\<rparr>)
   }"

definition palloc_init :: "elem_type list \<Rightarrow> elem_type list \<Rightarrow> elem_type list \<Rightarrow> u32 \<Rightarrow> vm \<Rightarrow> vm option" where
  "palloc_init kbuf ubuf fbuf user_page_limit s = do {
     (num_user_pages, s) \<leftarrow> old_palloc_init kbuf ubuf user_page_limit s;
     let bm_pages = DIV_ROUND_UP (bitmap_buf_size num_user_pages) PGSIZE32;
     frame_table_init fbuf (num_user_pages - bm_pages) s
   }"

definition install_page :: "u32 \<Rightarrow> u32 \<Rightarrow> bool \<Rightarrow> vm \<Rightarrow> (bool \<times> vm) option" where
  "install_page upage kp writable s = do {
     p \<leftarrow> pagedir_get_page (cur_pagedir s) upage s;
     let isnull = (p = 0);
     (pageset, s) \<leftarrow> (if isnull then pagedir_set_page (cur_pagedir s) upage kp writable s else Some (False, s));
     Some (isnull \<and> pageset, s)
   }"

text \<open>An index past the end of the frame table is an access outside the array. The page is cleared through its
  user address, which the new mapping takes to the frame.\<close>

definition palloc_page :: "palloc_flag set \<Rightarrow> u32 \<Rightarrow> bool \<Rightarrow> vm \<Rightarrow> (u32 \<times> vm) option" where
  "palloc_page flags upage writable s = do {
     ASSERT (PAL_USER \<in> flags);
     (page_idx, bm) \<leftarrow> bitmap_scan_and_flip (used_map (frame_pool s)) 0 1 False;
     let s = s\<lparr>frame_pool := (frame_pool s)\<lparr>used_map := bm\<rparr>\<rparr>;
     ASSERT (unat page_idx < length (frame_list s));
     let cur_frame = (frame_list s ! unat page_idx)\<lparr>pid := cur_tid s, page_num := pg_no upage, reference := True,
       dirty := False, resident := True\<rparr>;
     let s = s\<lparr>frame_list := (frame_list s)[unat page_idx := cur_frame]\<rparr>;
     (success, s) \<leftarrow> install_page upage (kpage cur_frame) writable s;
     if \<not> success then do { ASSERT (PAL_ASSERT \<notin> flags); Some (0, s) }
     else Some (kpage cur_frame, if PAL_ZERO \<in> flags then fill_pages (kpage cur_frame) 1 0 s else s)
   }"

primrec palloc_multiple_loop :: "nat \<Rightarrow> palloc_flag set \<Rightarrow> u32 \<Rightarrow> bool \<Rightarrow> u32 \<Rightarrow> vm \<Rightarrow> (bool \<times> vm) option" where
  "palloc_multiple_loop 0 flags upage writable i s = Some (True, s)"
| "palloc_multiple_loop (Suc n) flags upage writable i s = do {
     (p, s) \<leftarrow> palloc_page flags (upage + i * PGSIZE32) writable s;
     if p = 0 then Some (False, s) else palloc_multiple_loop n flags upage writable (i + 1) s
   }"

definition palloc_multiple :: "palloc_flag set \<Rightarrow> u32 \<Rightarrow> u32 \<Rightarrow> bool \<Rightarrow> vm \<Rightarrow> (bool \<times> vm) option" where
  "palloc_multiple flags page_cnt upage writable s = do {
     ASSERT (PAL_USER \<in> flags);
     if page_cnt = 0 then Some (False, s)
     else do {
       (success, s) \<leftarrow> palloc_multiple_loop (unat page_cnt) flags upage writable 0 s;
       ASSERT (success \<or> PAL_ASSERT \<notin> flags);
       Some (success, s)
     }
   }"

primrec palloc_free_uloop :: "nat \<Rightarrow> u32 \<Rightarrow> u32 \<Rightarrow> vm \<Rightarrow> vm option" where
  "palloc_free_uloop 0 pages i s = Some s"
| "palloc_free_uloop (Suc n) pages i s = do {
     (kp, s) \<leftarrow> lookup_page (cur_pagedir s) (pages + i * PGSIZE32) False s;
     s \<leftarrow> palloc_free_page kp s;
     palloc_free_uloop n pages (i + 1) s
   }"

definition palloc_free_umultiple :: "u32 \<Rightarrow> u32 \<Rightarrow> vm \<Rightarrow> vm option" where
  "palloc_free_umultiple pages page_cnt s = palloc_free_uloop (unat page_cnt) pages 0 s"

definition palloc_free_upage :: "u32 \<Rightarrow> vm \<Rightarrow> vm option" where
  "palloc_free_upage page s = palloc_free_umultiple page 1 s"

end
