(* ===== verification/Kpaging_Props.thy ===== *)
theory Kpaging_Props
  imports Kpaging
begin

text \<open>
  A page directory implements a map from user pages to frames: what \<open>pagedir_set_page\<close> and
  \<open>pagedir_clear_page\<close> do to the result of \<open>pagedir_get_page\<close>. Page tables come from the kernel pool, whose bit map
  keeps them apart from each other.
\<close>

section \<open>Pages and offsets\<close>

lemma unat_pg_no: "unat (pg_no a) = unat a div 4096"
  by (simp add: pg_no_def drop_bit_eq_div unat_div)

lemma unat_pg_ofs: "unat (pg_ofs a) = unat a mod 4096"
proof -
  have "PGMASK = mask 12" by (simp add: PGMASK_def mask_eq_exp_minus_1)
  then have "pg_ofs a = take_bit 12 a" by (simp add: pg_ofs_def take_bit_eq_mask)
  then show ?thesis by (simp add: take_bit_eq_mod unat_mod)
qed

lemma pg_ofs_0_iff: "pg_ofs a = 0 \<longleftrightarrow> 4096 dvd unat a"
  by (metis unat_pg_ofs unat_eq_zero dvd_eq_mod_eq_0)

lemma unat_pd_no: "unat (pd_no a) = unat a div 4194304"
  by (simp add: pd_no_def drop_bit_eq_div unat_div)

lemma unat_pt_no: "unat (pt_no a) = unat a div 4096 mod 1024"
proof -
  have m: "PTMASK = push_bit 12 (mask 10)" by (simp add: PTMASK_def push_bit_eq_mult mask_eq_exp_minus_1)
  have "pt_no a = take_bit 10 (drop_bit 12 a)"
    unfolding pt_no_def m by (rule bit_eqI) (auto simp: bit_simps)
  then show ?thesis by (simp add: take_bit_eq_mod drop_bit_eq_div unat_mod unat_div)
qed

lemma unat_lt_32: "unat (a :: u32) < 4294967296"
  using unsigned_less[of a, where ?'a = nat] by simp

lemma unat_page_word:
  fixes p i :: u32
  assumes "pg_ofs p = 0" "unat i < 1024"
  shows "unat (p + 4 * i) = unat p + 4 * unat i"
proof -
  obtain k where k: "unat p = 4096 * k" using assms(1) by (auto simp: pg_ofs_0_iff)
  have "unat (4 * i) = 4 * unat i" using assms(2) by (simp add: unat_word_ariths)
  moreover have "unat p + 4 * unat i < 4294967296" using k assms(2) unat_lt_32[of p] by simp
  ultimately show ?thesis by (simp add: unat_word_ariths)
qed

lemma pg_no_page_word:
  assumes "pg_ofs p = 0" "unat i < 1024"
  shows "pg_no (p + 4 * i) = pg_no p"
proof -
  obtain k where "unat p = 4096 * k" using assms(1) by (auto simp: pg_ofs_0_iff)
  then have "unat (pg_no (p + 4 * i)) = unat (pg_no p)" using assms by (simp add: unat_pg_no unat_page_word)
  then show ?thesis by (simp add: word_unat_eq_iff)
qed

lemma page_word_eq:
  assumes "pg_ofs p = 0" "pg_ofs q = 0" "unat i < 1024" "unat j < 1024" "p + 4 * i = q + 4 * j"
  shows "p = q \<and> i = j"
proof -
  have "pg_no p = pg_no q" using pg_no_page_word[OF assms(1,3)] pg_no_page_word[OF assms(2,4)] assms(5) by simp
  then have "unat p div 4096 = unat q div 4096" by (metis unat_pg_no)
  then have pq: "unat p = unat q" using assms(1,2) by (auto simp: pg_ofs_0_iff elim!: dvdE)
  then have "4 * unat i = 4 * unat j" using unat_page_word[OF assms(1,3)] unat_page_word[OF assms(2,4)] assms(5) by simp
  then show ?thesis using pq by (simp add: word_unat_eq_iff)
qed

lemma in_page_iff:
  assumes "pg_ofs p = 0" "pg_ofs q = 0" "unat i < 1024"
  shows "q + 4 * i - p < PGSIZE32 * 1 \<longleftrightarrow> q = p"
proof -
  obtain k where k: "unat p = 4096 * k" using assms(1) by (auto simp: pg_ofs_0_iff)
  obtain m where m: "unat q = 4096 * m" using assms(2) by (auto simp: pg_ofs_0_iff)
  have a: "unat (q + 4 * i) = 4096 * m + 4 * unat i" using unat_page_word[OF assms(2,3)] m by simp
  have km: "k < 1048576" "m < 1048576" using k m unat_lt_32[of p] unat_lt_32[of q] by simp_all
  have "unat (q + 4 * i - p) < 4096 \<longleftrightarrow> m = k"
  proof (cases "4096 * k \<le> 4096 * m + 4 * unat i")
    case True
    then have "k \<le> m" using assms(3) by linarith
    have "unat (q + 4 * i - p) = 4096 * m + 4 * unat i - 4096 * k" using True a k by (simp add: unat_sub_if')
    then show ?thesis using \<open>k \<le> m\<close> assms(3) by auto
  next
    case False
    then have "unat (q + 4 * i - p) = 4096 * m + 4 * unat i + 4294967296 - 4096 * k" using a k by (simp add: unat_sub_if')
    then show ?thesis using False km assms(3) by auto
  qed
  then show ?thesis using k m by (simp add: PGSIZE32_def word_less_nat_alt word_unat_eq_iff)
qed

lemma user_pd_no: "is_user_vaddr va \<Longrightarrow> unat (pd_no va) < 768"
  by (auto simp: is_user_vaddr_def PHYS_BASE_def unat_pd_no word_less_nat_alt)

lemma pt_no_lt: "unat (pt_no va) < 1024"
  by (simp add: unat_pt_no)

lemma pg_no_split: "pg_no va = pg_no vb \<longleftrightarrow> pd_no va = pd_no vb \<and> pt_no va = pt_no vb"
proof -
  have split: "a = b \<longleftrightarrow> a div 1024 = b div 1024 \<and> a mod 1024 = b mod 1024" for a b :: nat
    by (metis div_mult_mod_eq)
  have "x div 4194304 = x div 4096 div 1024" for x :: nat by (simp add: div_mult2_eq[symmetric])
  then have "x div 4096 = y div 4096 \<longleftrightarrow> x div 4194304 = y div 4194304 \<and> x div 4096 mod 1024 = y div 4096 mod 1024" for x y :: nat
    using split[of "x div 4096" "y div 4096"] by simp
  then show ?thesis by (simp add: word_unat_eq_iff unat_pg_no unat_pd_no unat_pt_no)
qed


section \<open>Entries\<close>

lemma PTE_ADDR_mask: "PTE_ADDR = NOT (mask 12)"
  by (simp add: PTE_ADDR_def mask_eq_exp_minus_1)

lemma aligned_and_addr: "pg_ofs p = 0 \<Longrightarrow> p AND PTE_ADDR = p"
proof -
  assume "pg_ofs p = 0"
  then have z: "p AND mask 12 = 0" by (simp add: pg_ofs_def PGMASK_def mask_eq_exp_minus_1)
  show ?thesis
  proof (rule bit_eqI)
    fix n
    have "bit (p AND mask 12) n \<longleftrightarrow> bit p n \<and> n < 12" using bit_imp_le_length[of p n] by (auto simp: bit_and_iff bit_mask_iff)
    then have "\<not> (bit p n \<and> n < 12)" unfolding z by simp
    then show "bit (p AND PTE_ADDR) n \<longleftrightarrow> bit p n"
      using bit_imp_le_length[of p n] by (auto simp: PTE_ADDR_mask bit_simps)
  qed
qed

lemma addr_or_flags:
  assumes "pg_ofs p = 0" "f AND PTE_ADDR = 0"
  shows "(p OR f) AND PTE_ADDR = p"
  using aligned_and_addr[OF assms(1)] assms(2) by (simp add: bit.conj_disj_distrib2)

lemma vtop_aligned:
  assumes "pg_ofs p = 0" "is_kernel_vaddr p"
  shows "pg_ofs (p - PHYS_BASE) = 0" "p - PHYS_BASE < PHYS_BASE" "p \<noteq> 0" "vtop p = Some (p - PHYS_BASE)"
proof -
  have k: "unat p \<ge> 3221225472" using assms(2) by (simp add: is_kernel_vaddr_def PHYS_BASE_def word_le_nat_alt)
  then have u: "unat (p - PHYS_BASE) = unat p - 3221225472" by (simp add: PHYS_BASE_def unat_sub_if')
  obtain m where m: "unat p = 4096 * m" using assms(1) by (auto simp: pg_ofs_0_iff)
  have "unat p - 3221225472 = 4096 * (m - 786432)" using m by simp
  then show "pg_ofs (p - PHYS_BASE) = 0" by (simp add: pg_ofs_0_iff u)
  show "p - PHYS_BASE < PHYS_BASE" using u unat_lt_32[of p] by (simp add: word_less_nat_alt) (simp add: PHYS_BASE_def)
  show "p \<noteq> 0" using k by auto
  show "vtop p = Some (p - PHYS_BASE)" using assms(2) by (simp add: vtop_def)
qed

text \<open>The page an entry points to.\<close>

definition entry_page :: "u32 \<Rightarrow> u32" where
  "entry_page e = (e AND PTE_ADDR) + PHYS_BASE"

lemma present_bit: "e AND PTE_P \<noteq> 0 \<longleftrightarrow> bit e 0" for e :: u32
  by (simp add: PTE_P_def and_one_eq bit_0 odd_iff_mod_2_eq_one even_iff_mod_2_eq_zero)

lemma bit_not_zero: "bit e n \<Longrightarrow> e \<noteq> 0" for e :: u32
  by auto

lemma pde_create_page:
  assumes "pg_ofs pt = 0" "is_kernel_vaddr pt"
  shows "\<exists>e. pde_create pt = Some e \<and> e \<noteq> 0 \<and> e AND PTE_P \<noteq> 0 \<and> e AND PTE_ADDR < PHYS_BASE \<and> entry_page e = pt"
proof -
  note v = vtop_aligned[OF assms]
  let ?e = "(pt - PHYS_BASE) OR PTE_U OR PTE_P OR PTE_W"
  have f: "(PTE_U OR PTE_P OR PTE_W) AND PTE_ADDR = 0" by (simp add: PTE_U_def PTE_P_def PTE_W_def PTE_ADDR_def)
  have a: "?e AND PTE_ADDR = pt - PHYS_BASE" using addr_or_flags[OF v(1) f] by (simp add: or.assoc)
  have p: "bit ?e 0" by (simp add: bit_simps PTE_P_def)
  then have "?e AND PTE_P \<noteq> 0" "?e \<noteq> 0" using present_bit bit_not_zero by blast+
  then show ?thesis using a v assms by (simp add: pde_create_def entry_page_def)
qed

lemma pte_create_page:
  assumes "pg_ofs kp = 0" "is_kernel_vaddr kp"
  shows "\<exists>e. pte_create_user kp w = Some e \<and> e AND PTE_P \<noteq> 0 \<and> e AND PTE_ADDR < PHYS_BASE \<and> entry_page e = kp"
proof -
  note v = vtop_aligned[OF assms]
  let ?e = "(kp - PHYS_BASE) OR PTE_P OR (if w then PTE_W else 0) OR PTE_U"
  have f: "(PTE_P OR (if w then PTE_W else 0) OR PTE_U) AND PTE_ADDR = 0"
    by (simp add: PTE_U_def PTE_P_def PTE_W_def PTE_ADDR_def)
  have a: "?e AND PTE_ADDR = kp - PHYS_BASE" using addr_or_flags[OF v(1) f] by (simp add: or.assoc)
  have p: "bit ?e 0" by (simp add: bit_simps PTE_P_def)
  then have "?e AND PTE_P \<noteq> 0" using present_bit by blast
  moreover have "pte_create_user kp w = Some ?e"
    using v(4) assms(1) by (simp add: pte_create_user_def pte_create_kernel_def or.assoc)
  ultimately show ?thesis using a v(2) unfolding entry_page_def by (metis diff_add_cancel)
qed


section \<open>The kernel pool\<close>

definition pool_wf :: "pool \<Rightarrow> bool" where
  "pool_wf p \<longleftrightarrow> bm_wf (used_map p) \<and> pg_ofs (base p) = 0 \<and> is_kernel_vaddr (base p) \<and>
     unat (base p) + 4096 * unat (bit_cnt (used_map p)) \<le> 2 ^ 32"

text \<open>A page of the kernel pool that is in use.\<close>

definition owned :: "vm \<Rightarrow> u32 \<Rightarrow> bool" where
  "owned s p \<longleftrightarrow> (\<exists>i < unat (bit_cnt (used_map (kernel_pool s))).
     bm_bits (used_map (kernel_pool s)) ! i \<and> p = base (kernel_pool s) + PGSIZE32 * of_nat i)"

lemma pool_page:
  assumes "pool_wf p" "i < unat (bit_cnt (used_map p))"
  shows "unat (base p + PGSIZE32 * of_nat i) = unat (base p) + 4096 * i"
    and "pg_ofs (base p + PGSIZE32 * of_nat i) = 0" "is_kernel_vaddr (base p + PGSIZE32 * of_nat i)"
proof -
  have le: "unat (base p) + 4096 * unat (bit_cnt (used_map p)) \<le> 4294967296" using assms(1) by (simp add: pool_wf_def)
  then have s: "unat (base p) + 4096 * i < 4294967296" using assms(2) by linarith
  then have "unat (of_nat i :: u32) = i" by (simp add: unat_of_nat)
  then have m: "unat (PGSIZE32 * of_nat i) = 4096 * i" using s by (simp add: PGSIZE32_def unat_word_ariths)
  show u: "unat (base p + PGSIZE32 * of_nat i) = unat (base p) + 4096 * i"
    using s m by (simp add: unat_word_ariths)
  have "4096 dvd unat (base p)" using assms(1) by (simp add: pool_wf_def pg_ofs_0_iff)
  then show "pg_ofs (base p + PGSIZE32 * of_nat i) = 0" by (simp add: pg_ofs_0_iff u)
  show "is_kernel_vaddr (base p + PGSIZE32 * of_nat i)"
    using assms(1) u by (simp add: pool_wf_def is_kernel_vaddr_def word_le_nat_alt)
qed

lemma owned_page: "pool_wf (kernel_pool s) \<Longrightarrow> owned s p \<Longrightarrow> pg_ofs p = 0 \<and> is_kernel_vaddr p"
  by (auto simp: owned_def pool_page)

text \<open>The kernel pool has a free page.\<close>

definition free_kpage :: "vm \<Rightarrow> bool" where
  "free_kpage s \<longleftrightarrow> (\<exists>i < unat (bit_cnt (used_map (kernel_pool s))). \<not> bm_bits (used_map (kernel_pool s)) ! i)"

lemma get_zero_page:
  assumes wf: "pool_wf (kernel_pool s)"
  shows "(\<exists>s'. palloc_get_page {PAL_ZERO} s = Some (0, s') \<and> \<not> free_kpage s \<and> words s' = words s \<and> kernel_pool s' = kernel_pool s \<and>
      init_page_dir s' = init_page_dir s \<and> cr3 s' = cr3 s) \<or>
    (\<exists>pt s'. palloc_get_page {PAL_ZERO} s = Some (pt, s') \<and> free_kpage s \<and> pt \<noteq> 0 \<and> owned s' pt \<and> \<not> owned s pt \<and> pool_wf (kernel_pool s') \<and>
      (\<forall>p. owned s p \<longrightarrow> owned s' p) \<and> words s' = (\<lambda>a. if a - pt < PGSIZE32 * 1 then 0 else words s a) \<and>
      init_page_dir s' = init_page_dir s \<and> cr3 s' = cr3 s)"
proof -
  let ?k = "kernel_pool s"
  have bw: "bm_wf (used_map ?k)" using wf by (simp add: pool_wf_def)
  show ?thesis
  proof (cases "first_group 0 1 False (bm_bits (used_map ?k))")
    case None
    then have "bitmap_scan_and_flip (used_map ?k) 0 1 False = Some (BITMAP_ERROR, used_map ?k)"
      using bitmap_scan_and_flip_bits[OF bw, of 0 1 False] by simp
    moreover have "\<not> free_kpage s"
      using first_group_None[OF None] by (fastforce simp: free_kpage_def all_range_def)
    ultimately show ?thesis by (simp add: palloc_get_page_def old_palloc_get_multiple_def)
  next
    case (Some i)
    then obtain idx b where sc: "bitmap_scan_and_flip (used_map ?k) 0 1 False = Some (idx, b)" "unat idx = i" "idx \<noteq> BITMAP_ERROR"
        "bm_wf b" "bit_cnt b = bit_cnt (used_map ?k)" "bm_bits b = set_range i 1 True (bm_bits (used_map ?k))"
      using bitmap_scan_and_flip_bits[OF bw, of 0 1 False] by auto
    have len: "1 \<le> length (bm_bits (used_map ?k))" if "all_range i 1 False (bm_bits (used_map ?k))" using that by (simp add: all_range_def)
    have fg: "all_range i 1 False (bm_bits (used_map ?k))"
    proof -
      have "length (bm_bits (used_map ?k)) \<noteq> 0" using Some by (auto simp: first_group_def find_Some_iff)
      then show ?thesis using first_group_Some(2)[OF Some] by simp
    qed
    have i: "i < unat (bit_cnt (used_map ?k))" "\<not> bm_bits (used_map ?k) ! i"
      using fg by (simp_all add: all_range_def)
    then have fk: "free_kpage s" unfolding free_kpage_def by blast
    define pt where "pt = base ?k + PGSIZE32 * idx"
    have idx: "idx = of_nat i" using sc(2) by auto
    note pg = pool_page[OF wf i(1), folded idx, folded pt_def]
    define s' where "s' = fill_pages pt 1 0 (s\<lparr>kernel_pool := ?k\<lparr>used_map := b\<rparr>\<rparr>)"
    have nz: "pt \<noteq> 0" using vtop_aligned(3)[OF pg(2,3)] .
    have "palloc_get_page {PAL_ZERO} s = Some (pt, s') \<and> free_kpage s"
      using sc(1,3) nz fk by (simp add: palloc_get_page_def old_palloc_get_multiple_def Let_def pt_def s'_def)
    moreover have kp: "kernel_pool s' = ?k\<lparr>used_map := b\<rparr>" by (simp add: s'_def fill_pages_def)
    moreover have bits: "bm_bits b ! j \<longleftrightarrow> bm_bits (used_map ?k) ! j \<or> j = i" if "j < unat (bit_cnt (used_map ?k))" for j
      using that sc(6) by (auto simp: nth_set_range)
    moreover have "owned s' pt"
      unfolding owned_def kp using i(1) bits[OF i(1)] sc(5) by (intro exI[of _ i]) (simp add: pt_def idx)
    moreover have "\<not> owned s pt"
    proof
      assume "owned s pt"
      then obtain j where j: "j < unat (bit_cnt (used_map ?k))" "bm_bits (used_map ?k) ! j" "pt = base ?k + PGSIZE32 * of_nat j"
        by (auto simp: owned_def)
      have "unat pt = unat (base ?k) + 4096 * j" using pool_page(1)[OF wf j(1)] j(3) by simp
      then have "j = i" using pg(1) by simp
      then show False using i(2) j(2) by simp
    qed
    moreover have "owned s' p" if "owned s p" for p
      using that bits sc(5) unfolding owned_def kp by auto
    moreover have "pool_wf (kernel_pool s')" using wf sc(4,5) by (simp add: kp pool_wf_def)
    moreover have "words s' = (\<lambda>a. if a - pt < PGSIZE32 * 1 then 0 else words s a)" "init_page_dir s' = init_page_dir s \<and> cr3 s' = cr3 s"
      by (simp_all add: s'_def fill_pages_def cong: if_cong)
    ultimately show ?thesis using nz by blast
  qed
qed


section \<open>Page directories\<close>

definition pde_at :: "u32 \<Rightarrow> u32 \<Rightarrow> vm \<Rightarrow> u32" where
  "pde_at pd i s = words s (pd + 4 * i)"

text \<open>The entries for user pages are empty or point to page tables, which are distinct pages of the kernel pool.\<close>

definition pde_ok :: "u32 \<Rightarrow> vm \<Rightarrow> u32 \<Rightarrow> bool" where
  "pde_ok pd s e \<longleftrightarrow> e = 0 \<or> e AND PTE_P \<noteq> 0 \<and> e AND PTE_ADDR < PHYS_BASE \<and> owned s (entry_page e) \<and> entry_page e \<noteq> pd"

definition pd_wf :: "u32 \<Rightarrow> vm \<Rightarrow> bool" where
  "pd_wf pd s \<longleftrightarrow> pool_wf (kernel_pool s) \<and> owned s pd \<and>
     (\<forall>i. unat i < 768 \<longrightarrow> pde_ok pd s (pde_at pd i s)) \<and>
     (\<forall>i j. unat i < 768 \<longrightarrow> unat j < 768 \<longrightarrow> pde_at pd i s \<noteq> 0 \<longrightarrow> pde_at pd j s \<noteq> 0 \<longrightarrow>
        entry_page (pde_at pd i s) = entry_page (pde_at pd j s) \<longrightarrow> i = j)"

text \<open>The page table entry for an address; 0 where there is no page table.\<close>

definition pte_addr :: "u32 \<Rightarrow> u32 \<Rightarrow> vm \<Rightarrow> u32" where
  "pte_addr pd va s = entry_page (pde_at pd (pd_no va) s) + 4 * pt_no va"

definition pte_of :: "u32 \<Rightarrow> u32 \<Rightarrow> vm \<Rightarrow> u32" where
  "pte_of pd va s = (if pde_at pd (pd_no va) s = 0 then 0 else words s (pte_addr pd va s))"

lemma pd_wfD:
  assumes "pd_wf pd s"
  shows "pool_wf (kernel_pool s)" "owned s pd" "pg_ofs pd = 0" "is_kernel_vaddr pd"
    "unat i < 768 \<Longrightarrow> pde_at pd i s \<noteq> 0 \<Longrightarrow> pde_at pd i s AND PTE_P \<noteq> 0 \<and> pde_at pd i s AND PTE_ADDR < PHYS_BASE \<and>
       owned s (entry_page (pde_at pd i s)) \<and> entry_page (pde_at pd i s) \<noteq> pd \<and> pg_ofs (entry_page (pde_at pd i s)) = 0 \<and>
       is_kernel_vaddr (entry_page (pde_at pd i s))"
    "unat i < 768 \<Longrightarrow> unat j < 768 \<Longrightarrow> pde_at pd i s \<noteq> 0 \<Longrightarrow> pde_at pd j s \<noteq> 0 \<Longrightarrow>
       entry_page (pde_at pd i s) = entry_page (pde_at pd j s) \<Longrightarrow> i = j"
proof -
  show pool: "pool_wf (kernel_pool s)" and o: "owned s pd" using assms by (simp_all add: pd_wf_def)
  show "pg_ofs pd = 0" "is_kernel_vaddr pd" using owned_page[OF pool o] by simp_all
  show "pde_at pd i s AND PTE_P \<noteq> 0 \<and> pde_at pd i s AND PTE_ADDR < PHYS_BASE \<and>
       owned s (entry_page (pde_at pd i s)) \<and> entry_page (pde_at pd i s) \<noteq> pd \<and> pg_ofs (entry_page (pde_at pd i s)) = 0 \<and>
       is_kernel_vaddr (entry_page (pde_at pd i s))"
    if "unat i < 768" "pde_at pd i s \<noteq> 0"
  proof -
    have "pde_ok pd s (pde_at pd i s)" using assms that(1) by (simp add: pd_wf_def)
    then show ?thesis using that(2) owned_page[OF pool] by (auto simp: pde_ok_def)
  qed
  show "i = j" if "unat i < 768" "unat j < 768" "pde_at pd i s \<noteq> 0" "pde_at pd j s \<noteq> 0"
      "entry_page (pde_at pd i s) = entry_page (pde_at pd j s)"
    using assms that by (simp add: pd_wf_def)
qed

lemma pte_addr_page:
  assumes "pd_wf pd s" "is_user_vaddr va" "pde_at pd (pd_no va) s \<noteq> 0"
  shows "pg_no (pte_addr pd va s) = pg_no (entry_page (pde_at pd (pd_no va) s))" "pte_addr pd va s \<noteq> 0"
proof -
  note e = pd_wfD(5)[OF assms(1) user_pd_no[OF assms(2)] assms(3)]
  show p: "pg_no (pte_addr pd va s) = pg_no (entry_page (pde_at pd (pd_no va) s))"
    unfolding pte_addr_def using e pt_no_lt by (intro pg_no_page_word) simp_all
  have "pg_no (entry_page (pde_at pd (pd_no va) s)) \<noteq> 0"
    using e by (simp add: is_kernel_vaddr_def PHYS_BASE_def word_unat_eq_iff unat_pg_no word_le_nat_alt div_eq_0_iff)
  then show "pte_addr pd va s \<noteq> 0" using p by (auto simp: pg_no_def)
qed

lemma pd_word_lt: "is_user_vaddr va \<Longrightarrow> unat (pd_no va) < 1024"
  using user_pd_no[of va] by simp

lemma lookup_no_create:
  assumes "pd_wf pd s" "is_user_vaddr va"
  shows "lookup_page pd va False s = Some (if pde_at pd (pd_no va) s = 0 then 0 else pte_addr pd va s, s)"
proof -
  have "pd \<noteq> 0" using vtop_aligned(3) pd_wfD(3,4)[OF assms(1)] by blast
  then show ?thesis
    using pd_wfD(5)[OF assms(1) user_pd_no[OF assms(2)]]
    by (auto simp: lookup_page_def pde_at_def pde_get_pt_def ptov_def pte_addr_def entry_page_def Let_def)
qed

lemma get_page_eq:
  assumes "pd_wf pd s" "is_user_vaddr va"
  shows "pagedir_get_page pd va s =
    (if pte_of pd va s AND PTE_P \<noteq> 0 then do { p \<leftarrow> pte_get_page (pte_of pd va s); Some (p + pg_ofs va) } else Some 0)"
  using assms(2) lookup_no_create[OF assms] pte_addr_page(2)[OF assms]
  by (auto simp: pagedir_get_page_def pte_of_def)

text \<open>Two addresses of different pages have different entries.\<close>

lemma pte_addr_inj:
  assumes "pd_wf pd s" "is_user_vaddr va" "is_user_vaddr vb" "pde_at pd (pd_no va) s \<noteq> 0" "pde_at pd (pd_no vb) s \<noteq> 0"
    and "pte_addr pd va s = pte_addr pd vb s"
  shows "pg_no va = pg_no vb"
proof -
  note a = pd_wfD(5)[OF assms(1) user_pd_no[OF assms(2)] assms(4)] and b = pd_wfD(5)[OF assms(1) user_pd_no[OF assms(3)] assms(5)]
  have "entry_page (pde_at pd (pd_no va) s) = entry_page (pde_at pd (pd_no vb) s) \<and> pt_no va = pt_no vb"
    by (rule page_word_eq[OF _ _ pt_no_lt pt_no_lt]) (use a b assms(6) in \<open>simp_all add: pte_addr_def\<close>)
  then show ?thesis
    using pd_wfD(6)[OF assms(1) user_pd_no[OF assms(2)] user_pd_no[OF assms(3)] assms(4,5)] by (simp add: pg_no_split)
qed

lemma pte_not_pde:
  assumes "pd_wf pd s" "is_user_vaddr va" "pde_at pd (pd_no va) s \<noteq> 0" "unat i < 768"
  shows "pd + 4 * i \<noteq> pte_addr pd va s"
proof
  assume eq: "pd + 4 * i = pte_addr pd va s"
  note e = pd_wfD(5)[OF assms(1) user_pd_no[OF assms(2)] assms(3)]
  have "pd = entry_page (pde_at pd (pd_no va) s)"
    using page_word_eq[OF pd_wfD(3)[OF assms(1)] _ _ pt_no_lt, of "entry_page (pde_at pd (pd_no va) s)" i va] e eq assms(4)
    by (simp add: pte_addr_def)
  then show False using e by simp
qed

text \<open>A write to the entry of one page.\<close>

lemma set_pte:
  fixes e :: u32
  assumes wf: "pd_wf pd s" and u: "is_user_vaddr va" and t: "pde_at pd (pd_no va) s \<noteq> 0"
  defines "s' \<equiv> s\<lparr>words := (words s)(pte_addr pd va s := e)\<rparr>"
  shows "pd_wf pd s'" "is_user_vaddr vb \<Longrightarrow> pte_of pd vb s' = (if pg_no vb = pg_no va then e else pte_of pd vb s)"
proof -
  have k: "kernel_pool s' = kernel_pool s" by (simp add: s'_def)
  have o: "owned s' p = owned s p" for p by (simp add: owned_def k)
  have pde: "pde_at pd i s' = pde_at pd i s" if "unat i < 768" for i
    using pte_not_pde[OF wf u t that] by (simp add: pde_at_def s'_def)
  show "pd_wf pd s'"
    using wf by (auto simp: pd_wf_def k o pde pde_ok_def)
  show "pte_of pd vb s' = (if pg_no vb = pg_no va then e else pte_of pd vb s)" if ub: "is_user_vaddr vb"
  proof -
    note pb = pde[OF user_pd_no[OF ub]]
    have ab: "pte_addr pd vb s' = pte_addr pd vb s" by (simp add: pte_addr_def pb)
    show ?thesis
    proof (cases "pg_no vb = pg_no va")
      case True
      then have "pd_no vb = pd_no va" "pt_no vb = pt_no va" by (simp_all add: pg_no_split)
      then show ?thesis using True t pb ab by (simp add: pte_of_def) (simp add: s'_def pte_addr_def)
    next
      case False
      then have "pde_at pd (pd_no vb) s \<noteq> 0 \<Longrightarrow> pte_addr pd vb s \<noteq> pte_addr pd va s"
        using pte_addr_inj[OF wf ub u _ t] by blast
      then show ?thesis using False pb ab by (simp add: pte_of_def) (simp add: s'_def)
    qed
  qed
qed


text \<open>A new page table is empty, so it changes no translation.\<close>

lemma lookup_create:
  assumes wf: "pd_wf pd s" and u: "is_user_vaddr va"
  shows "(\<exists>s'. lookup_page pd va True s = Some (0, s') \<and> \<not> (pde_at pd (pd_no va) s = 0 \<longrightarrow> free_kpage s) \<and> pd_wf pd s' \<and> words s' = words s \<and> init_page_dir s' = init_page_dir s \<and> cr3 s' = cr3 s) \<or>
    (\<exists>s'. lookup_page pd va True s = Some (pte_addr pd va s', s') \<and> (pde_at pd (pd_no va) s = 0 \<longrightarrow> free_kpage s) \<and> pd_wf pd s' \<and> pde_at pd (pd_no va) s' \<noteq> 0 \<and>
       (\<forall>vb. is_user_vaddr vb \<longrightarrow> pte_of pd vb s' = pte_of pd vb s) \<and> init_page_dir s' = init_page_dir s \<and> cr3 s' = cr3 s)"
proof -
  have nz: "pd \<noteq> 0" using vtop_aligned(3) pd_wfD(3,4)[OF wf] by blast
  note pool = pd_wfD(1)[OF wf]
  show ?thesis
  proof (cases "pde_at pd (pd_no va) s = 0")
    case False
    then have "lookup_page pd va True s = Some (pte_addr pd va s, s)"
      using nz u pd_wfD(5)[OF wf user_pd_no[OF u]]
      by (auto simp: lookup_page_def pde_at_def pde_get_pt_def ptov_def pte_addr_def entry_page_def Let_def)
    then show ?thesis using wf False by blast
  next
    case True
    show ?thesis
      using get_zero_page[OF pool]
    proof (elim disjE exE conjE)
      fix s1
      assume fk: "\<not> free_kpage s"
      assume p: "palloc_get_page {PAL_ZERO} s = Some (0, s1)" "words s1 = words s" "kernel_pool s1 = kernel_pool s"
        "init_page_dir s1 = init_page_dir s" "cr3 s1 = cr3 s"
      have "lookup_page pd va True s = Some (0, s1)"
        using nz u True p(1) by (simp add: lookup_page_def pde_at_def Let_def)
      moreover have "pd_wf pd s1" using wf p(2,3) by (simp add: pd_wf_def pde_at_def pde_ok_def owned_def)
      ultimately show ?thesis using p(2,4,5) True fk by blast
    next
      fix pt s1
      assume fk: "free_kpage s"
      assume p: "palloc_get_page {PAL_ZERO} s = Some (pt, s1)" "pt \<noteq> 0" "owned s1 pt" "\<not> owned s pt" "pool_wf (kernel_pool s1)"
        "\<forall>q. owned s q \<longrightarrow> owned s1 q" "words s1 = (\<lambda>a. if a - pt < PGSIZE32 * 1 then 0 else words s a)"
        "init_page_dir s1 = init_page_dir s" "cr3 s1 = cr3 s"
      note pg = owned_page[OF p(5,3)]
      obtain e where e: "pde_create pt = Some e" "e \<noteq> 0" "e AND PTE_P \<noteq> 0" "e AND PTE_ADDR < PHYS_BASE" "entry_page e = pt"
        using pde_create_page pg by blast
      let ?d = "pd_no va"
      define s2 where "s2 = s1\<lparr>words := (words s1)(pd + 4 * ?d := e)\<rparr>"
      have k2: "kernel_pool s2 = kernel_pool s1" by (simp add: s2_def)
      have o2: "owned s2 q = owned s1 q" for q by (simp add: owned_def k2)
      have ptpd: "pt \<noteq> pd" using p(4) pd_wfD(2)[OF wf] by auto
      have keep: "words s1 (q + 4 * i) = words s (q + 4 * i)" if "owned s q" "unat i < 1024" for q i
      proof -
        have "pg_ofs q = 0" "q \<noteq> pt" using owned_page[OF pool that(1)] that(1) p(4) by auto
        then show ?thesis using in_page_iff[OF conjunct1[OF pg] _ that(2), of q] p(7) by simp
      qed
      have pde: "pde_at pd i s2 = (if i = ?d then e else pde_at pd i s)" if "unat i < 768" for i
      proof -
        have "pd + 4 * i = pd + 4 * ?d \<Longrightarrow> i = ?d"
          using page_word_eq[OF pd_wfD(3)[OF wf] pd_wfD(3)[OF wf] _ pd_word_lt[OF u], of i] that by simp
        then show ?thesis using keep[OF pd_wfD(2)[OF wf], of i] that by (auto simp: pde_at_def s2_def)
      qed
      have "lookup_page pd va True s = Some (pte_addr pd va s2, s2)"
      proof -
        have "pde_at pd ?d s2 = e" using pde[OF user_pd_no[OF u]] by simp
        then have "pte_addr pd va s2 = (e AND PTE_ADDR) + PHYS_BASE + 4 * pt_no va" by (simp add: pte_addr_def entry_page_def)
        then show ?thesis
          using nz u True p(1,2) e by (simp add: lookup_page_def pde_at_def Let_def s2_def pde_get_pt_def ptov_def)
      qed
      moreover have wf2: "pd_wf pd s2"
        unfolding pd_wf_def
      proof (intro conjI allI impI)
        show "pool_wf (kernel_pool s2)" "owned s2 pd" using p(5,6) pd_wfD(2)[OF wf] by (simp_all add: k2 o2)
        show "pde_ok pd s2 (pde_at pd i s2)" if "unat i < 768" for i
          using pd_wfD(5)[OF wf that] e p(3,6) ptpd pde[OF that] by (cases "i = ?d"; cases "pde_at pd i s = 0") (simp_all add: pde_ok_def o2)
        show "i = j" if ij: "unat i < 768" "unat j < 768" "pde_at pd i s2 \<noteq> 0" "pde_at pd j s2 \<noteq> 0"
            "entry_page (pde_at pd i s2) = entry_page (pde_at pd j s2)" for i j
        proof -
          have new: "entry_page (pde_at pd m s) \<noteq> pt" if "unat m < 768" "pde_at pd m s \<noteq> 0" for m
            using pd_wfD(5)[OF wf that] p(4) by auto
          show ?thesis
            using ij(3-5) new[OF ij(1)] new[OF ij(2)] pd_wfD(6)[OF wf ij(1,2)] e(5) pde[OF ij(1)] pde[OF ij(2)]
            by (cases "i = ?d"; cases "j = ?d") simp_all
        qed
      qed
      moreover have "pde_at pd ?d s2 \<noteq> 0" using pde[OF user_pd_no[OF u]] e(2) by simp
      moreover have "pte_of pd vb s2 = pte_of pd vb s" if ub: "is_user_vaddr vb" for vb
      proof (cases "pd_no vb = ?d")
        case same: True
        have "pte_addr pd vb s2 = pt + 4 * pt_no vb" using same pde[OF user_pd_no[OF u]] e(5) by (simp add: pte_addr_def)
        moreover have "pd + 4 * ?d \<noteq> pt + 4 * pt_no vb"
          using page_word_eq[OF pd_wfD(3)[OF wf] conjunct1[OF pg] pd_word_lt[OF u] pt_no_lt, of vb] ptpd by auto
        moreover have "words s1 (pt + 4 * pt_no vb) = 0"
          using in_page_iff[OF conjunct1[OF pg] conjunct1[OF pg] pt_no_lt, of vb] p(7) by simp
        ultimately have "words s2 (pte_addr pd vb s2) = 0" by (simp add: s2_def)
        then show ?thesis using same True by (simp add: pte_of_def)
      next
        case False
        then have d: "pde_at pd (pd_no vb) s2 = pde_at pd (pd_no vb) s" using pde[OF user_pd_no[OF ub]] by simp
        then have a: "pte_addr pd vb s2 = pte_addr pd vb s" by (simp add: pte_addr_def)
        have "words s2 (pte_addr pd vb s) = words s (pte_addr pd vb s)" if n: "pde_at pd (pd_no vb) s \<noteq> 0"
        proof -
          have "pd + 4 * ?d \<noteq> pte_addr pd vb s" by (rule pte_not_pde[OF wf ub n user_pd_no[OF u]])
          then have "words s2 (pte_addr pd vb s) = words s1 (pte_addr pd vb s)" by (simp add: s2_def)
          then show ?thesis
            using keep[OF _ pt_no_lt, of "entry_page (pde_at pd (pd_no vb) s)" vb] pd_wfD(5)[OF wf user_pd_no[OF ub] n]
            by (simp add: pte_addr_def)
        qed
        then show ?thesis using d a by (simp add: pte_of_def)
      qed
      moreover have "init_page_dir s2 = init_page_dir s \<and> cr3 s2 = cr3 s" by (simp add: s2_def p(8,9))
      ultimately show ?thesis using fk by blast
    qed
  qed
qed


section \<open>Address spaces\<close>

text \<open>
  What the operations on an address space use of its page tables: an entry for every page that has a table, and a
  write that changes the entry of one page.
\<close>

locale entry_store =
  fixes inv :: "'s \<Rightarrow> bool" and entry :: "u32 \<Rightarrow> 's \<Rightarrow> u32" and put :: "u32 \<Rightarrow> u32 \<Rightarrow> 's \<Rightarrow> 's" and has :: "u32 \<Rightarrow> 's \<Rightarrow> bool"
  assumes put_inv: "inv s \<Longrightarrow> is_user_vaddr va \<Longrightarrow> has va s \<Longrightarrow> inv (put va e s)"
    and put_has: "inv s \<Longrightarrow> is_user_vaddr va \<Longrightarrow> has va s \<Longrightarrow> is_user_vaddr vb \<Longrightarrow> has vb (put va e s) = has vb s"
    and put_entry: "inv s \<Longrightarrow> is_user_vaddr va \<Longrightarrow> has va s \<Longrightarrow> is_user_vaddr vb \<Longrightarrow>
      entry vb (put va e s) = (if pg_no vb = pg_no va then e else entry vb s)"
begin

lemma put_put:
  assumes "inv s" "is_user_vaddr va" "has va s" "is_user_vaddr vb"
  shows "inv (put va e' (put va e s))"
    "entry vb (put va e' (put va e s)) = (if pg_no vb = pg_no va then e' else entry vb s)"
proof -
  have i: "inv (put va e s)" by (rule put_inv[OF assms(1-3)])
  have h: "has va (put va e s)" using put_has[OF assms(1-3) assms(2)] assms(3) by simp
  show "inv (put va e' (put va e s))" by (rule put_inv[OF i assms(2) h])
  show "entry vb (put va e' (put va e s)) = (if pg_no vb = pg_no va then e' else entry vb s)"
    using put_entry[OF i assms(2) h assms(4)] put_entry[OF assms] by simp
qed

lemma put_restores:
  assumes "inv s" "is_user_vaddr va" "has va s" "is_user_vaddr vb"
  shows "entry vb (put va (entry va s) (put va e s)) = (if pg_no vb = pg_no va then entry va s else entry vb s)"
  using put_put(2)[OF assms] by simp

end

definition put_pte :: "u32 \<Rightarrow> u32 \<Rightarrow> u32 \<Rightarrow> vm \<Rightarrow> vm" where
  "put_pte pd va e s = s\<lparr>words := (words s)(pte_addr pd va s := e)\<rparr>"

definition has_table :: "u32 \<Rightarrow> u32 \<Rightarrow> vm \<Rightarrow> bool" where
  "has_table pd va s \<longleftrightarrow> pde_at pd (pd_no va) s \<noteq> 0"

interpretation pdir: entry_store "pd_wf pd" "pte_of pd" "put_pte pd" "has_table pd" for pd
proof
  fix s va vb e
  assume a: "pd_wf pd s" "is_user_vaddr va" "has_table pd va s"
  then have t: "pde_at pd (pd_no va) s \<noteq> 0" by (simp add: has_table_def)
  show "pd_wf pd (put_pte pd va e s)" unfolding put_pte_def by (rule set_pte(1)[OF a(1,2) t])
  assume u: "is_user_vaddr vb"
  show "pte_of pd vb (put_pte pd va e s) = (if pg_no vb = pg_no va then e else pte_of pd vb s)"
    unfolding put_pte_def by (rule set_pte(2)[OF a(1,2) t u])
  show "has_table pd vb (put_pte pd va e s) = has_table pd vb s"
    using pte_not_pde[OF a(1,2) t user_pd_no[OF u]] by (simp add: has_table_def put_pte_def pde_at_def)
qed

text \<open>The address a user address is translated to, 0 where the page is not present.\<close>

lemma get_page_cong:
  assumes "pd_wf pd s" "pd_wf pd s'" "is_user_vaddr va" "pte_of pd va s' = pte_of pd va s"
  shows "pagedir_get_page pd va s' = pagedir_get_page pd va s"
  using get_page_eq[OF assms(1,3)] get_page_eq[OF assms(2,3)] assms(4) by simp

lemma get_page_new:
  assumes "pd_wf pd s" "is_user_vaddr va" "pte_of pd va s = e"
    and "e AND PTE_P \<noteq> 0" "e AND PTE_ADDR < PHYS_BASE" "entry_page e = kp"
  shows "pagedir_get_page pd va s = Some (kp + pg_ofs va)"
  using get_page_eq[OF assms(1,2)] assms(3-6) by (simp add: pte_get_page_def ptov_def entry_page_def)

lemma set_page_cases:
  assumes wf: "pd_wf pd s" and up: "pg_ofs upage = 0" "is_user_vaddr upage" and kp: "pg_ofs kp = 0" "is_kernel_vaddr kp"
    "drop_bit 12 (kp - PHYS_BASE) < init_ram_pages s" and pd: "pd \<noteq> init_page_dir s"
    and free: "pte_of pd upage s AND PTE_P = 0"
  shows "(\<exists>s'. pagedir_set_page pd upage kp w s = Some (False, s') \<and> \<not> (\<not> has_table pd upage s \<longrightarrow> free_kpage s) \<and> pd_wf pd s' \<and> words s' = words s \<and> cr3 s' = cr3 s) \<or>
    (\<exists>s1 e. pagedir_set_page pd upage kp w s = Some (True, put_pte pd upage e s1) \<and> (\<not> has_table pd upage s \<longrightarrow> free_kpage s) \<and> pd_wf pd s1 \<and> has_table pd upage s1 \<and>
       (\<forall>va. is_user_vaddr va \<longrightarrow> pte_of pd va s1 = pte_of pd va s) \<and> cr3 s1 = cr3 s \<and>
       e AND PTE_P \<noteq> 0 \<and> e AND PTE_ADDR < PHYS_BASE \<and> entry_page e = kp)"
proof -
  note v = vtop_aligned[OF kp(1,2)]
  obtain e where e: "pte_create_user kp w = Some e" "e AND PTE_P \<noteq> 0" "e AND PTE_ADDR < PHYS_BASE" "entry_page e = kp"
    using pte_create_page[OF kp(1,2)] by blast
  show ?thesis
    using lookup_create[OF wf up(2)]
  proof (elim disjE exE conjE)
    fix s1 assume "lookup_page pd upage True s = Some (0, s1)" "\<not> (pde_at pd (pd_no upage) s = 0 \<longrightarrow> free_kpage s)"
      "pd_wf pd s1" "words s1 = words s" "cr3 s1 = cr3 s"
    then show ?thesis using up kp pd v by (simp add: pagedir_set_page_def has_table_def)
  next
    fix s1 assume ok: "pde_at pd (pd_no upage) s = 0 \<longrightarrow> free_kpage s"
      and l: "lookup_page pd upage True s = Some (pte_addr pd upage s1, s1)" "pd_wf pd s1" "pde_at pd (pd_no upage) s1 \<noteq> 0"
      "\<forall>vb. is_user_vaddr vb \<longrightarrow> pte_of pd vb s1 = pte_of pd vb s" "cr3 s1 = cr3 s"
    have "words s1 (pte_addr pd upage s1) = pte_of pd upage s1" using l(3) by (simp add: pte_of_def)
    then have "words s1 (pte_addr pd upage s1) AND PTE_P = 0" using l(4) up(2) free by simp
    then have "pagedir_set_page pd upage kp w s = Some (True, put_pte pd upage e s1)"
      using up kp pd v l(1) e(1) pte_addr_page(2)[OF l(2) up(2) l(3)] by (simp add: pagedir_set_page_def put_pte_def)
    then show ?thesis using l e ok by (auto simp: has_table_def)
  qed
qed

lemma clear_page_entry:
  assumes wf: "pd_wf pd s" and up: "pg_ofs upage = 0" "is_user_vaddr upage" and cr: "cr3 s < PHYS_BASE"
    and pr: "has_table pd upage s" "pte_of pd upage s AND PTE_P \<noteq> 0"
  shows "\<exists>s'. pagedir_clear_page pd upage s = Some s' \<and> words s' = words (put_pte pd upage (pte_of pd upage s AND NOT PTE_P) s) \<and>
    kernel_pool s' = kernel_pool s"
proof -
  have t: "pde_at pd (pd_no upage) s \<noteq> 0" using pr(1) by (simp add: has_table_def)
  have w: "words s (pte_addr pd upage s) = pte_of pd upage s" using t by (simp add: pte_of_def)
  note k = pd_wfD(3,4)[OF wf]
  let ?s = "put_pte pd upage (pte_of pd upage s AND NOT PTE_P) s"
  have "pagedir_clear_page pd upage s = invalidate_pagedir pd ?s"
    using up lookup_no_create[OF wf up(2)] t pte_addr_page(2)[OF wf up(2) t] pr(2) w by (simp add: pagedir_clear_page_def put_pte_def)
  moreover have "\<exists>s'. invalidate_pagedir pd ?s = Some s' \<and> words s' = words ?s \<and> kernel_pool s' = kernel_pool ?s"
    using cr vtop_aligned(3,4)[OF k] by (simp add: invalidate_pagedir_def active_pd_def ptov_def pagedir_activate_def put_pte_def)
  ultimately show ?thesis by (simp add: put_pte_def)
qed

lemma pd_wf_cong: "words s' = words s \<Longrightarrow> kernel_pool s' = kernel_pool s \<Longrightarrow> pd_wf pd s' = pd_wf pd s"
  by (simp add: pd_wf_def pde_at_def pde_ok_def owned_def)

lemma pte_of_cong: "words s' = words s \<Longrightarrow> pte_of pd va s' = pte_of pd va s"
  by (simp add: pte_of_def pte_addr_def pde_at_def)


text \<open>C5: \<open>pagedir_set_page\<close> on a page that is not mapped never panics. It returns true exactly if the page directory has a
  page table for the address or the kernel pool has a free page to make one. Then every address of the page is translated to the same
  offset in the frame; when it returns false nothing is mapped. The translation of every other page stays as it was.
  \<open>pagedir_clear_page\<close> then restores the previous translation of all pages.\<close>

theorem pagedir_set_get_clear:
  assumes wf: "pd_wf pd s" and up: "pg_ofs upage = 0" "is_user_vaddr upage" and kp: "pg_ofs kp = 0" "is_kernel_vaddr kp"
    "drop_bit 12 (kp - PHYS_BASE) < init_ram_pages s" and pd: "pd \<noteq> init_page_dir s" and cr: "cr3 s < PHYS_BASE"
    and free: "pte_of pd upage s AND PTE_P = 0"
  shows "\<exists>ok s' s''. pagedir_set_page pd upage kp w s = Some (ok, s') \<and> (ok \<longleftrightarrow> has_table pd upage s \<or> free_kpage s) \<and> pd_wf pd s' \<and>
    (\<forall>va. is_user_vaddr va \<longrightarrow> pagedir_get_page pd va s' =
       (if ok \<and> pg_no va = pg_no upage then Some (kp + pg_ofs va) else pagedir_get_page pd va s)) \<and>
    pagedir_clear_page pd upage s' = Some s'' \<and> pd_wf pd s'' \<and>
    (\<forall>va. is_user_vaddr va \<longrightarrow> pagedir_get_page pd va s'' = pagedir_get_page pd va s)"
  using set_page_cases[OF wf up kp pd free, of w]
proof (elim disjE exE conjE)
  fix s' assume ok: "\<not> (\<not> has_table pd upage s \<longrightarrow> free_kpage s)"
    and s': "pagedir_set_page pd upage kp w s = Some (False, s')" "pd_wf pd s'" "words s' = words s" "cr3 s' = cr3 s"
  have g: "pagedir_get_page pd va s' = pagedir_get_page pd va s" if "is_user_vaddr va" for va
    by (rule get_page_cong[OF wf s'(2) that pte_of_cong[OF s'(3)]])
  have "pte_of pd upage s' AND PTE_P = 0" using free pte_of_cong[OF s'(3)] by simp
  then have "pagedir_clear_page pd upage s' = Some s'"
    using up lookup_no_create[OF s'(2) up(2)] by (auto simp: pagedir_clear_page_def pte_of_def)
  then show ?thesis using s' g ok by auto
next
  fix s1 e
  assume ok: "\<not> has_table pd upage s \<longrightarrow> free_kpage s"
  assume s1: "pagedir_set_page pd upage kp w s = Some (True, put_pte pd upage e s1)" "pd_wf pd s1" "has_table pd upage s1"
    "\<forall>va. is_user_vaddr va \<longrightarrow> pte_of pd va s1 = pte_of pd va s" "cr3 s1 = cr3 s" and e: "e AND PTE_P \<noteq> 0"
    "e AND PTE_ADDR < PHYS_BASE" "entry_page e = kp"
  let ?s = "put_pte pd upage e s1"
  note wf' = pdir.put_inv[OF s1(2) up(2) s1(3), of e]
  note en = pdir.put_entry[OF s1(2) up(2) s1(3), of _ e]
  have g: "pagedir_get_page pd va ?s = (if True \<and> pg_no va = pg_no upage then Some (kp + pg_ofs va) else pagedir_get_page pd va s)"
    if "is_user_vaddr va" for va
    using get_page_new[OF wf' that _ e] get_page_cong[OF wf wf' that] en[OF that] s1(4) that by simp
  have "cr3 ?s < PHYS_BASE" "has_table pd upage ?s" "pte_of pd upage ?s = e"
    using cr s1(5) pdir.put_has[OF s1(2) up(2) s1(3) up(2)] s1(3) en[OF up(2)] by (simp_all add: put_pte_def)
  then obtain s'' where s'': "pagedir_clear_page pd upage ?s = Some s''" "words s'' = words (put_pte pd upage (e AND NOT PTE_P) ?s)"
      "kernel_pool s'' = kernel_pool ?s"
    using clear_page_entry[OF wf' up] e(1) by auto
  have k: "kernel_pool s'' = kernel_pool (put_pte pd upage (e AND NOT PTE_P) ?s)" using s''(3) by (simp add: put_pte_def)
  note two = pdir.put_put[OF s1(2) up(2) s1(3), of _ "e AND NOT PTE_P" e]
  have wf'': "pd_wf pd s''" using pd_wf_cong[OF s''(2) k] two(1)[OF up(2)] by simp
  have z: "(e AND NOT PTE_P) AND PTE_P = 0" using present_bit[of "e AND NOT PTE_P"] by (auto simp: bit_simps PTE_P_def)
  have "pagedir_get_page pd va s'' = pagedir_get_page pd va s" if u: "is_user_vaddr va" for va
  proof (cases "pg_no va = pg_no upage")
    case True
    then have "pd_no va = pd_no upage" "pt_no va = pt_no upage" by (simp_all add: pg_no_split)
    then have "pte_of pd va s = pte_of pd upage s" by (simp add: pte_of_def pte_addr_def)
    then have "pagedir_get_page pd va s = Some 0" using get_page_eq[OF wf u] free by simp
    moreover have "pagedir_get_page pd va s'' = Some 0"
      using get_page_eq[OF wf'' u] pte_of_cong[OF s''(2), of pd va] two(2)[OF u] True z by simp
    ultimately show ?thesis by simp
  next
    case False
    then show ?thesis
      using get_page_cong[OF wf wf'' u] pte_of_cong[OF s''(2), of pd va] two(2)[OF u] s1(4) u by simp
  qed
  then show ?thesis using s1(1) wf' g s''(1) wf'' ok by blast
qed

text \<open>A machine with 16 MB of memory, a pool of 32 kernel pages and an empty page directory in the first of them.\<close>

definition demo_vm :: vm where
  "demo_vm = \<lparr>words = (\<lambda>_. 0), cr3 = 0x100000, init_page_dir = 0xc000f000, init_ram_pages = 0x1000,
     kernel_pool = \<lparr>used_map = \<lparr>bit_cnt = 32, bits = [1]\<rparr>, base = 0xc0100000\<rparr>,
     user_pool = \<lparr>used_map = \<lparr>bit_cnt = 0, bits = []\<rparr>, base = 0xc0200000\<rparr>,
     frame_pool = \<lparr>used_map = \<lparr>bit_cnt = 0, bits = []\<rparr>, base = 0xc0200000\<rparr>,
     frame_list = [], cur_pagedir = 0xc0100000, cur_tid = 3\<rparr>"

lemma demo_vm_wf: "pd_wf 0xc0100000 demo_vm"
proof -
  have "owned demo_vm 0xc0100000"
    unfolding owned_def by (intro exI[of _ 0]) (simp add: demo_vm_def bm_get_def PGSIZE32_def)
  moreover have "pool_wf (kernel_pool demo_vm)"
    by (simp add: pool_wf_def demo_vm_def bm_wf_def pg_ofs_def PGMASK_def is_kernel_vaddr_def PHYS_BASE_def)
  ultimately show ?thesis by (simp add: pd_wf_def pde_at_def pde_ok_def) (simp add: demo_vm_def)
qed

theorem pagedir_set_get_clear_witness:
  "\<exists>s' s''. pagedir_set_page 0xc0100000 0x8048000 0xc0300000 True demo_vm = Some (True, s') \<and>
     pagedir_get_page 0xc0100000 0x8048123 s' = Some 0xc0300123 \<and>
     pagedir_clear_page 0xc0100000 0x8048000 s' = Some s'' \<and> pagedir_get_page 0xc0100000 0x8048123 s'' = Some 0"
proof -
  have h: "pg_ofs 0x8048000 = 0" "is_user_vaddr 0x8048000" "pg_ofs 0xc0300000 = 0" "is_kernel_vaddr 0xc0300000"
      "drop_bit 12 (0xc0300000 - PHYS_BASE) < init_ram_pages demo_vm" "0xc0100000 \<noteq> init_page_dir demo_vm" "cr3 demo_vm < PHYS_BASE"
      "pte_of 0xc0100000 0x8048000 demo_vm AND PTE_P = 0" "is_user_vaddr 0x8048123" "pg_no 0x8048123 = pg_no 0x8048000"
      "0xc0300000 + pg_ofs 0x8048123 = 0xc0300123"
    by (simp_all add: pg_ofs_def PGMASK_def is_user_vaddr_def is_kernel_vaddr_def PHYS_BASE_def demo_vm_def pte_of_def pde_at_def
        pg_no_def drop_bit_eq_div)
  have f: "free_kpage demo_vm" unfolding free_kpage_def by (intro exI[of _ 1]) (simp add: demo_vm_def bm_get_def)
  obtain s' s'' where s: "pagedir_set_page 0xc0100000 0x8048000 0xc0300000 True demo_vm = Some (True, s')"
      "\<forall>va. is_user_vaddr va \<longrightarrow> pagedir_get_page 0xc0100000 va s' = (if pg_no va = pg_no 0x8048000
         then Some (0xc0300000 + pg_ofs va) else pagedir_get_page 0xc0100000 va demo_vm)"
      "pagedir_clear_page 0xc0100000 0x8048000 s' = Some s''"
      "\<forall>va. is_user_vaddr va \<longrightarrow> pagedir_get_page 0xc0100000 va s'' = pagedir_get_page 0xc0100000 va demo_vm"
    using pagedir_set_get_clear[OF demo_vm_wf h(1-8), of True] f by auto
  have "pte_of 0xc0100000 0x8048123 demo_vm = 0" by (simp add: demo_vm_def pte_of_def pde_at_def)
  then have "pagedir_get_page 0xc0100000 0x8048123 demo_vm = Some 0" using get_page_eq[OF demo_vm_wf h(9)] by simp
  then show ?thesis using s(1,3) s(2)[rule_format, OF h(9)] s(4)[rule_format, OF h(9)] h(10,11) by auto
qed

text \<open>C21: freeing a user page brings the kernel down unless the page is the first of its page table:
  \<open>palloc_free_umultiple\<close> passes the address of the page table entry instead of the frame, which fails the
  assertion that a page address has offset 0.\<close>

theorem free_upage_panics:
  assumes "pd_wf (cur_pagedir s) s" "is_user_vaddr upage" "has_table (cur_pagedir s) upage s" "pt_no upage \<noteq> 0"
  shows "palloc_free_upage upage s = None"
proof -
  have t: "pde_at (cur_pagedir s) (pd_no upage) s \<noteq> 0" using assms(3) by (simp add: has_table_def)
  note e = pd_wfD(5)[OF assms(1) user_pd_no[OF assms(2)] t]
  have "unat (pte_addr (cur_pagedir s) upage s) = unat (entry_page (pde_at (cur_pagedir s) (pd_no upage) s)) + 4 * unat (pt_no upage)"
    unfolding pte_addr_def using e pt_no_lt by (intro unat_page_word) simp_all
  moreover have "4096 dvd unat (entry_page (pde_at (cur_pagedir s) (pd_no upage) s))" using e by (simp add: pg_ofs_0_iff)
  moreover have "0 < unat (pt_no upage)" using assms(4) by (simp add: unat_gt_0)
  ultimately have "unat (pg_ofs (pte_addr (cur_pagedir s) upage s)) \<noteq> 0"
    using pt_no_lt[of upage] by (auto simp: unat_pg_ofs elim!: dvdE)
  then have "pg_ofs (pte_addr (cur_pagedir s) upage s) \<noteq> 0" by auto
  then show ?thesis
    using lookup_no_create[OF assms(1,2)] t
    by (simp add: palloc_free_upage_def palloc_free_umultiple_def palloc_free_page_def old_palloc_free_multiple_def ASSERT_def)
qed

text \<open>The same machine with a page table for the address \<open>0x8048000\<close>.\<close>

definition demo_vm_table :: vm where
  "demo_vm_table = demo_vm\<lparr>kernel_pool := \<lparr>used_map = \<lparr>bit_cnt = 32, bits = [3]\<rparr>, base = 0xc0100000\<rparr>,
     words := (\<lambda>_. 0)(0xc0100080 := 0x101007)\<rparr>"

lemma demo_table_owned: "owned demo_vm_table 0xc0100000" "owned demo_vm_table 0xc0101000"
proof -
  show "owned demo_vm_table 0xc0100000"
    unfolding owned_def by (intro exI[of _ 0]) (simp add: demo_vm_table_def bm_get_def PGSIZE32_def)
  have "bit (3 :: u32) (Suc 0)" by (simp add: bit_numeral_rec)
  then show "owned demo_vm_table 0xc0101000"
    unfolding owned_def by (intro exI[of _ 1]) (simp add: demo_vm_table_def bm_get_def PGSIZE32_def)
qed

lemma demo_table_pde:
  assumes "unat i < 768"
  shows "pde_at 0xc0100000 i demo_vm_table = (if i = 32 then 0x101007 else 0)"
proof (cases "i = 32")
  case True
  then show ?thesis by (simp add: pde_at_def demo_vm_table_def)
next
  case False
  have a: "pg_ofs 0xc0100000 = 0" by (simp add: pg_ofs_def PGMASK_def)
  have "0xc0100000 + 4 * i \<noteq> 0xc0100000 + 4 * 32"
    using page_word_eq[OF a a, of i 32] assms False by auto
  then have "0xc0100000 + 4 * i \<noteq> 0xc0100080" by simp
  moreover have w: "words demo_vm_table = (\<lambda>_. 0)(0xc0100080 := 0x101007)" by (simp add: demo_vm_table_def)
  ultimately show ?thesis using False unfolding pde_at_def w by (simp only: fun_upd_apply if_False)
qed

lemma demo_table_wf: "pd_wf 0xc0100000 demo_vm_table"
  unfolding pd_wf_def
proof (intro conjI allI impI)
  show "pool_wf (kernel_pool demo_vm_table)"
    by (simp add: pool_wf_def demo_vm_table_def bm_wf_def pg_ofs_def PGMASK_def is_kernel_vaddr_def PHYS_BASE_def)
  have ep: "entry_page 0x101007 = 0xc0101000" by (simp add: entry_page_def PTE_ADDR_def PHYS_BASE_def)
  have ok: "pde_ok 0xc0100000 demo_vm_table 0x101007"
    using demo_table_owned(2) by (simp add: pde_ok_def ep) (simp add: PTE_P_def PTE_ADDR_def PHYS_BASE_def)
  show "pde_ok 0xc0100000 demo_vm_table (pde_at 0xc0100000 i demo_vm_table)" if "unat i < 768" for i
    using ok demo_table_pde[OF that] by (cases "i = 32") (simp_all add: pde_ok_def)
  show "i = j" if "unat i < 768" "unat j < 768" "pde_at 0xc0100000 i demo_vm_table \<noteq> 0" "pde_at 0xc0100000 j demo_vm_table \<noteq> 0" for i j
    using that(3,4) demo_table_pde[OF that(1)] demo_table_pde[OF that(2)] by (cases "i = 32"; cases "j = 32") simp_all
qed (rule demo_table_owned(1))

theorem free_upage_panics_witness:
  "palloc_free_upage 0x8049000 demo_vm_table = None"
proof (rule free_upage_panics)
  have pd: "cur_pagedir demo_vm_table = 0xc0100000" by (simp add: demo_vm_table_def demo_vm_def)
  show "pd_wf (cur_pagedir demo_vm_table) demo_vm_table" unfolding pd by (rule demo_table_wf)
  have d: "pd_no 0x8049000 = 32" by (simp add: pd_no_def drop_bit_eq_div)
  show "has_table (cur_pagedir demo_vm_table) 0x8049000 demo_vm_table"
    using demo_table_pde[of 32] unfolding has_table_def pd d by simp
qed (simp_all add: is_user_vaddr_def PHYS_BASE_def pt_no_def PTMASK_def drop_bit_eq_div)

end
