(* ===== verification/Khash.thy ===== *)
theory Khash
  imports Klist_Sort Kstring
begin

text \<open>
  The hash table of \<open>lib/kernel/hash.c\<close>: an array of buckets, each a list of the component \<open>Klist\<close> on the same
  heap of links. The hash and comparison functions of the caller, with their auxiliary data, are members of the
  table; the block that \<open>malloc\<close> returns (null when there is none) is an argument of the operations that allocate.
  The locale \<open>hash_functions\<close> states what a caller's functions must satisfy; under it a table implements a set of
  elements with at most one element of each key.
\<close>

section \<open>State\<close>

text \<open>\<open>struct hash\<close>. A \<open>struct hash_elem\<close> is a \<open>struct list_elem\<close> at offset 0, so both have the same address.\<close>

record hash_table =
  elem_cnt :: u32
  bucket_cnt :: u32
  buckets :: ptr
  hash_fn :: "ptr \<Rightarrow> u32"
  less_fn :: "ptr \<Rightarrow> ptr \<Rightarrow> bool"

record hash_iterator =
  it_hash :: hash_table
  bucket :: ptr
  elem :: ptr

text \<open>The address of element \<open>i\<close> of an array of \<open>struct list\<close>, which is 16 bytes long.\<close>

definition list_at :: "ptr \<Rightarrow> u32 \<Rightarrow> ptr" where
  "list_at a i = a + 16 * unat i"

section \<open>Buckets\<close>

definition find_bucket :: "hash_table \<Rightarrow> ptr \<Rightarrow> ptr" where
  "find_bucket hs e = list_at (buckets hs) (and (hash_fn hs e) (bucket_cnt hs - 1))"

partial_function (option) find_elem_loop :: "lheap \<Rightarrow> hash_table \<Rightarrow> ptr \<Rightarrow> ptr \<Rightarrow> ptr \<Rightarrow> ptr option" where
  "find_elem_loop h hs bkt e i = do {
     t \<leftarrow> list_end bkt;
     if i \<noteq> t then
       if \<not> less_fn hs i e \<and> \<not> less_fn hs e i then Some i
       else do {
         i \<leftarrow> list_next h i;
         find_elem_loop h hs bkt e i
       }
     else Some NULL
   }"

definition find_elem :: "lheap \<Rightarrow> hash_table \<Rightarrow> ptr \<Rightarrow> ptr \<Rightarrow> ptr option" where
  "find_elem h hs bkt e = do {
     i \<leftarrow> list_begin h bkt;
     find_elem_loop h hs bkt e i
   }"

definition insert_elem :: "lheap \<Rightarrow> hash_table \<Rightarrow> ptr \<Rightarrow> ptr \<Rightarrow> (hash_table \<times> lheap) option" where
  "insert_elem h hs bkt e = do {
     h \<leftarrow> list_push_front h bkt e;
     Some (hs\<lparr>elem_cnt := elem_cnt hs + 1\<rparr>, h)
   }"

definition remove_elem :: "lheap \<Rightarrow> hash_table \<Rightarrow> ptr \<Rightarrow> (hash_table \<times> lheap) option" where
  "remove_elem h hs e = do {
     (_, h) \<leftarrow> list_remove h e;
     Some (hs\<lparr>elem_cnt := elem_cnt hs - 1\<rparr>, h)
   }"

section \<open>The number of buckets\<close>

definition turn_off_least_1bit :: "u32 \<Rightarrow> u32" where
  "turn_off_least_1bit x = and x (x - 1)"

definition is_power_of_2 :: "u32 \<Rightarrow> bool" where
  "is_power_of_2 x \<longleftrightarrow> x \<noteq> 0 \<and> turn_off_least_1bit x = 0"

definition BEST_ELEMS_PER_BUCKET :: u32 where
  "BEST_ELEMS_PER_BUCKET = 2"

partial_function (option) bucket_cnt_loop :: "u32 \<Rightarrow> u32 option" where
  "bucket_cnt_loop n =
     (if \<not> is_power_of_2 n then bucket_cnt_loop (turn_off_least_1bit n) else Some n)"

definition new_bucket_cnt :: "u32 \<Rightarrow> u32 option" where
  "new_bucket_cnt cnt =
     (let n = cnt div BEST_ELEMS_PER_BUCKET in bucket_cnt_loop (if n < 4 then 4 else n))"

text \<open>The loop that initialises an array of buckets as empty.\<close>

partial_function (option) init_buckets :: "lheap \<Rightarrow> ptr \<Rightarrow> u32 \<Rightarrow> u32 \<Rightarrow> lheap option" where
  "init_buckets h a n i =
     (if i < n then do {
        h \<leftarrow> list_init h (list_at a i);
        init_buckets h a n (i + 1)
      } else Some h)"

text \<open>Moving the elements of one old bucket, and of all of them, into the new buckets.\<close>

partial_function (option) rehash_elems :: "lheap \<Rightarrow> hash_table \<Rightarrow> ptr \<Rightarrow> ptr \<Rightarrow> lheap option" where
  "rehash_elems h hs old_bucket e = do {
     t \<leftarrow> list_end old_bucket;
     if e \<noteq> t then do {
       let new_bucket = find_bucket hs e;
       nxt \<leftarrow> list_next h e;
       (_, h) \<leftarrow> list_remove h e;
       h \<leftarrow> list_push_front h new_bucket e;
       rehash_elems h hs old_bucket nxt
     } else Some h
   }"

partial_function (option) rehash_buckets :: "lheap \<Rightarrow> hash_table \<Rightarrow> ptr \<Rightarrow> u32 \<Rightarrow> u32 \<Rightarrow> lheap option" where
  "rehash_buckets h hs old_buckets old_bucket_cnt i =
     (if i < old_bucket_cnt then do {
        let old_bucket = list_at old_buckets i;
        e \<leftarrow> list_begin h old_bucket;
        h \<leftarrow> rehash_elems h hs old_bucket e;
        rehash_buckets h hs old_buckets old_bucket_cnt (i + 1)
      } else Some h)"

definition rehash :: "ptr \<Rightarrow> lheap \<Rightarrow> hash_table \<Rightarrow> (hash_table \<times> lheap) option" where
  "rehash new_buckets h hs = do {
     n \<leftarrow> new_bucket_cnt (elem_cnt hs);
     if n = bucket_cnt hs then Some (hs, h)
     else if new_buckets = NULL then Some (hs, h)
     else do {
       h \<leftarrow> init_buckets h new_buckets n 0;
       let hs' = hs\<lparr>buckets := new_buckets, bucket_cnt := n\<rparr>;
       h \<leftarrow> rehash_buckets h hs' (buckets hs) (bucket_cnt hs) 0;
       Some (hs', h)
     }
   }"

section \<open>Operations\<close>

text \<open>\<open>hash_clear\<close> and \<open>hash_apply\<close> call a function of the caller for every element; the data that function works
  on is the argument \<open>st\<close>.\<close>

partial_function (option) clear_bucket ::
  "(ptr \<Rightarrow> 'a \<Rightarrow> 'a) \<Rightarrow> ptr \<Rightarrow> lheap \<Rightarrow> 'a \<Rightarrow> (lheap \<times> 'a) option" where
  "clear_bucket destructor bkt h st = do {
     empty \<leftarrow> list_empty h bkt;
     if \<not> empty then do {
       (e, h) \<leftarrow> list_pop_front h bkt;
       clear_bucket destructor bkt h (destructor e st)
     } else Some (h, st)
   }"

partial_function (option) hash_clear_loop ::
  "(ptr \<Rightarrow> 'a \<Rightarrow> 'a) option \<Rightarrow> ptr \<Rightarrow> u32 \<Rightarrow> u32 \<Rightarrow> lheap \<Rightarrow> 'a \<Rightarrow> (lheap \<times> 'a) option" where
  "hash_clear_loop destructor a n i h st =
     (if i < n then do {
        let bkt = list_at a i;
        (h, st) \<leftarrow> (case destructor of None \<Rightarrow> Some (h, st) | Some f \<Rightarrow> clear_bucket f bkt h st);
        h \<leftarrow> list_init h bkt;
        hash_clear_loop destructor a n (i + 1) h st
      } else Some (h, st))"

definition hash_clear ::
  "(ptr \<Rightarrow> 'a \<Rightarrow> 'a) option \<Rightarrow> lheap \<Rightarrow> hash_table \<Rightarrow> 'a \<Rightarrow> (hash_table \<times> lheap \<times> 'a) option" where
  "hash_clear destructor h hs st = do {
     (h, st) \<leftarrow> hash_clear_loop destructor (buckets hs) (bucket_cnt hs) 0 h st;
     Some (hs\<lparr>elem_cnt := 0\<rparr>, h, st)
   }"

definition hash_init ::
  "ptr \<Rightarrow> (ptr \<Rightarrow> u32) \<Rightarrow> (ptr \<Rightarrow> ptr \<Rightarrow> bool) \<Rightarrow> lheap \<Rightarrow> (bool \<times> hash_table \<times> lheap) option" where
  "hash_init block hash lt h =
     (let hs = \<lparr>elem_cnt = 0, bucket_cnt = 4, buckets = block, hash_fn = hash, less_fn = lt\<rparr>
      in if buckets hs \<noteq> NULL then do {
           (hs, h, _) \<leftarrow> hash_clear None h hs ();
           Some (True, hs, h)
         } else Some (False, hs, h))"

definition hash_destroy ::
  "(ptr \<Rightarrow> 'a \<Rightarrow> 'a) option \<Rightarrow> lheap \<Rightarrow> hash_table \<Rightarrow> 'a \<Rightarrow> (hash_table \<times> lheap \<times> 'a) option" where
  "hash_destroy destructor h hs st =
     (case destructor of None \<Rightarrow> Some (hs, h, st) | Some _ \<Rightarrow> hash_clear destructor h hs st)"

definition hash_insert :: "ptr \<Rightarrow> lheap \<Rightarrow> hash_table \<Rightarrow> ptr \<Rightarrow> (ptr \<times> hash_table \<times> lheap) option" where
  "hash_insert block h hs new = do {
     let bkt = find_bucket hs new;
     old \<leftarrow> find_elem h hs bkt new;
     (hs, h) \<leftarrow> (if old = NULL then insert_elem h hs bkt new else Some (hs, h));
     (hs, h) \<leftarrow> rehash block h hs;
     Some (old, hs, h)
   }"

definition hash_replace :: "ptr \<Rightarrow> lheap \<Rightarrow> hash_table \<Rightarrow> ptr \<Rightarrow> (ptr \<times> hash_table \<times> lheap) option" where
  "hash_replace block h hs new = do {
     let bkt = find_bucket hs new;
     old \<leftarrow> find_elem h hs bkt new;
     (hs, h) \<leftarrow> (if old \<noteq> NULL then remove_elem h hs old else Some (hs, h));
     (hs, h) \<leftarrow> insert_elem h hs bkt new;
     (hs, h) \<leftarrow> rehash block h hs;
     Some (old, hs, h)
   }"

definition hash_find :: "lheap \<Rightarrow> hash_table \<Rightarrow> ptr \<Rightarrow> ptr option" where
  "hash_find h hs e = find_elem h hs (find_bucket hs e) e"

definition hash_delete :: "ptr \<Rightarrow> lheap \<Rightarrow> hash_table \<Rightarrow> ptr \<Rightarrow> (ptr \<times> hash_table \<times> lheap) option" where
  "hash_delete block h hs e = do {
     found \<leftarrow> find_elem h hs (find_bucket hs e) e;
     if found \<noteq> NULL then do {
       (hs, h) \<leftarrow> remove_elem h hs found;
       (hs, h) \<leftarrow> rehash block h hs;
       Some (found, hs, h)
     } else Some (found, hs, h)
   }"

partial_function (option) apply_bucket ::
  "(ptr \<Rightarrow> 'a \<Rightarrow> 'a) \<Rightarrow> lheap \<Rightarrow> ptr \<Rightarrow> ptr \<Rightarrow> 'a \<Rightarrow> 'a option" where
  "apply_bucket action h bkt e st = do {
     t \<leftarrow> list_end bkt;
     if e \<noteq> t then do {
       nxt \<leftarrow> list_next h e;
       apply_bucket action h bkt nxt (action e st)
     } else Some st
   }"

partial_function (option) hash_apply_loop ::
  "(ptr \<Rightarrow> 'a \<Rightarrow> 'a) \<Rightarrow> lheap \<Rightarrow> hash_table \<Rightarrow> u32 \<Rightarrow> 'a \<Rightarrow> 'a option" where
  "hash_apply_loop action h hs i st =
     (if i < bucket_cnt hs then do {
        let bkt = list_at (buckets hs) i;
        e \<leftarrow> list_begin h bkt;
        st \<leftarrow> apply_bucket action h bkt e st;
        hash_apply_loop action h hs (i + 1) st
      } else Some st)"

definition hash_apply :: "(ptr \<Rightarrow> 'a \<Rightarrow> 'a) option \<Rightarrow> lheap \<Rightarrow> hash_table \<Rightarrow> 'a \<Rightarrow> 'a option" where
  "hash_apply action h hs st = do {
     f \<leftarrow> action;
     hash_apply_loop f h hs 0 st
   }"

definition hash_first :: "hash_table \<Rightarrow> hash_iterator option" where
  "hash_first hs = do {
     e \<leftarrow> list_head (buckets hs);
     Some \<lparr>it_hash = hs, bucket = buckets hs, elem = e\<rparr>
   }"

partial_function (option) hash_next_loop :: "lheap \<Rightarrow> hash_iterator \<Rightarrow> hash_iterator option" where
  "hash_next_loop h i = do {
     t \<leftarrow> list_end (bucket i);
     if elem i = t then
       let i = i\<lparr>bucket := bucket i + 16\<rparr>
       in if bucket i \<ge> list_at (buckets (it_hash i)) (bucket_cnt (it_hash i))
          then Some (i\<lparr>elem := NULL\<rparr>)
          else do {
            e \<leftarrow> list_begin h (bucket i);
            hash_next_loop h (i\<lparr>elem := e\<rparr>)
          }
     else Some i
   }"

definition hash_next :: "lheap \<Rightarrow> hash_iterator \<Rightarrow> (ptr \<times> hash_iterator) option" where
  "hash_next h i = do {
     e \<leftarrow> list_next h (elem i);
     i \<leftarrow> hash_next_loop h (i\<lparr>elem := e\<rparr>);
     Some (elem i, i)
   }"

definition hash_cur :: "hash_iterator \<Rightarrow> ptr" where
  "hash_cur i = elem i"

definition hash_size :: "hash_table \<Rightarrow> u32" where
  "hash_size hs = elem_cnt hs"

definition hash_empty :: "hash_table \<Rightarrow> bool" where
  "hash_empty hs \<longleftrightarrow> elem_cnt hs = 0"

section \<open>Sample hash functions\<close>

definition FNV_32_PRIME :: u32 where
  "FNV_32_PRIME = 16777619"

definition FNV_32_BASIS :: u32 where
  "FNV_32_BASIS = 2166136261"

fun hash_bytes_loop :: "mem \<Rightarrow> ptr \<Rightarrow> nat \<Rightarrow> u32 \<Rightarrow> u32" where
  "hash_bytes_loop m buf 0 hash = hash"
| "hash_bytes_loop m buf (Suc sz) hash =
     hash_bytes_loop m (buf + 1) sz (xor (hash * FNV_32_PRIME) (ucast (m buf)))"

definition hash_bytes :: "mem \<Rightarrow> ptr \<Rightarrow> nat \<Rightarrow> u32 option" where
  "hash_bytes m buf sz = do {
     ASSERT (buf \<noteq> NULL);
     Some (hash_bytes_loop m buf sz FNV_32_BASIS)
   }"

partial_function (option) hash_string_loop :: "mem \<Rightarrow> ptr \<Rightarrow> u32 \<Rightarrow> u32 option" where
  "hash_string_loop m s hash =
     (if m s \<noteq> 0 then hash_string_loop m (s + 1) (xor (hash * FNV_32_PRIME) (ucast (m s))) else Some hash)"

definition hash_string :: "mem \<Rightarrow> ptr \<Rightarrow> u32 option" where
  "hash_string m s = do {
     ASSERT (s \<noteq> NULL);
     hash_string_loop m s FNV_32_BASIS
   }"

text \<open>The argument of \<open>hash_int\<close> lies on the stack, at some address other than null; its bytes are stored with
  the lowest first.\<close>

definition hash_int :: "u32 \<Rightarrow> u32 option" where
  "hash_int i = hash_bytes (\<lambda>p. ucast (drop_bit (8 * (p - 4)) i)) 4 4"

declare find_elem_loop.simps [code]
  bucket_cnt_loop.simps [code]
  init_buckets.simps [code]
  rehash_elems.simps [code]
  rehash_buckets.simps [code]
  clear_bucket.simps [code]
  hash_clear_loop.simps [code]
  apply_bucket.simps [code]
  hash_apply_loop.simps [code]
  hash_next_loop.simps [code]
  hash_string_loop.simps [code]

section \<open>Families of disjoint lists\<close>

definition cells :: "ptr set \<Rightarrow> (ptr \<Rightarrow> ptr list) \<Rightarrow> ptr set" where
  "cells A F = (\<Union>l\<in>A. set (nodes l (F l)))"

text \<open>At every address of \<open>A\<close> there is a list with the elements \<open>F\<close> assigns to it, and no two lists share a cell.\<close>

definition dlists :: "lheap \<Rightarrow> ptr set \<Rightarrow> (ptr \<Rightarrow> ptr list) \<Rightarrow> bool" where
  "dlists h A F \<longleftrightarrow> (\<forall>l\<in>A. dlist h l (F l)) \<and>
     (\<forall>l\<in>A. \<forall>m\<in>A. l \<noteq> m \<longrightarrow> set (nodes l (F l)) \<inter> set (nodes m (F m)) = {})"

lemma dlists_dlist: "dlists h A F \<Longrightarrow> l \<in> A \<Longrightarrow> dlist h l (F l)"
  by (simp add: dlists_def)

lemma dlists_subset: "dlists h A F \<Longrightarrow> B \<subseteq> A \<Longrightarrow> dlists h B F"
  by (simp add: dlists_def subset_iff)

lemma dlists_cong: "dlists h A F \<Longrightarrow> (\<And>l. l \<in> A \<Longrightarrow> F l = G l) \<Longrightarrow> dlists h A G"
  by (simp add: dlists_def)

lemma dlists_step:
  assumes A: "dlists h A F" and l: "dlist h' l ys" and u: "unchanged_outside S h h'"
    and S: "\<And>m. m \<in> A \<Longrightarrow> m \<noteq> l \<Longrightarrow> set (nodes m (F m)) \<inter> (S \<union> set (nodes l ys)) = {}"
  shows "dlists h' (insert l A) (F(l := ys))"
proof -
  have d: "dlist h' m (F m)" if "m \<in> A" "m \<noteq> l" for m
    using dlist_unchanged [OF dlists_dlist [OF A that(1)] u] S [OF that] by blast
  have n: "set (nodes m (F m)) \<inter> set (nodes l ys) = {}" if "m \<in> A" "m \<noteq> l" for m
    using S [OF that] by blast
  have a: "set (nodes m (F m)) \<inter> set (nodes k (F k)) = {}" if "m \<in> A" "k \<in> A" "m \<noteq> k" for m k
    using A that by (simp add: dlists_def)
  have "dlist h' m ((F(l := ys)) m)" if "m \<in> insert l A" for m
    using d l that by auto
  moreover have "set (nodes m ((F(l := ys)) m)) \<inter> set (nodes k ((F(l := ys)) k)) = {}"
    if "m \<in> insert l A" "k \<in> insert l A" "m \<noteq> k" for m k
    using that n [of m] n [of k] a [of m k] by (cases "m = l"; cases "k = l") (simp_all add: Int_commute)
  ultimately show ?thesis by (simp add: dlists_def)
qed

lemma dlists_init:
  assumes "dlists h A F" and "l \<noteq> NULL" and "{head_of l, tail_of l} \<inter> cells (A - {l}) F = {}"
  shows "\<exists>h'. list_init h l = Some h' \<and> dlists h' (insert l A) (F(l := []))"
proof -
  obtain h' where h': "list_init h l = Some h'" "dlist h' l []"
    "unchanged_outside {head_of l, tail_of l} h h'"
    using dlist_list_init [OF assms(2)] by blast
  have "dlists h' (insert l A) (F(l := []))"
    by (rule dlists_step [OF assms(1) h'(2,3)]) (use assms(3) in \<open>auto simp: cells_def set_nodes\<close>)
  with h' show ?thesis by blast
qed

lemma dlists_push_front:
  assumes A: "dlists h A F" and l: "l \<in> A" and e: "e \<notin> cells A F" "e \<noteq> NULL"
  shows "\<exists>h'. list_push_front h l e = Some h' \<and> dlists h' A (F(l := e # F l))"
proof -
  have "e \<notin> set (nodes l (F l))" using e l by (auto simp: cells_def)
  from dlist_push_front [OF dlists_dlist [OF A l] this e(2)]
  obtain h' where h': "list_push_front h l e = Some h'" "dlist h' l (e # F l)"
    "unchanged_outside (insert e (set (nodes l (F l)))) h h'" by blast
  have "set (nodes m (F m)) \<inter> (insert e (set (nodes l (F l))) \<union> set (nodes l (e # F l))) = {}"
    if m: "m \<in> A" "m \<noteq> l" for m
  proof -
    have "set (nodes l (e # F l)) = insert e (set (nodes l (F l)))" by (auto simp: set_nodes)
    moreover have "set (nodes m (F m)) \<inter> set (nodes l (F l)) = {}" using A l m by (simp add: dlists_def)
    moreover have "e \<notin> set (nodes m (F m))" using e m by (auto simp: cells_def)
    ultimately show ?thesis by auto
  qed
  from dlists_step [OF A h'(2,3) this] show ?thesis using h'(1) l by (simp add: insert_absorb)
qed

lemma dlists_remove:
  assumes A: "dlists h A F" and l: "l \<in> A" and F: "F l = xs @ e # ys"
  shows "\<exists>h'. list_remove h e = Some (hd (ys @ [tail_of l]), h') \<and> dlists h' A (F(l := xs @ ys))"
proof -
  have "dlist h l (xs @ e # ys)" using dlists_dlist [OF A l] F by simp
  from dlist_list_remove [OF this]
  obtain h' where h': "list_remove h e = Some (hd (ys @ [tail_of l]), h')" "dlist h' l (xs @ ys)"
    "unchanged_outside (set (nodes l (xs @ ys))) h h'" by blast
  have "set (nodes m (F m)) \<inter> (set (nodes l (xs @ ys)) \<union> set (nodes l (xs @ ys))) = {}"
    if m: "m \<in> A" "m \<noteq> l" for m
  proof -
    have "set (nodes l (xs @ ys)) \<subseteq> set (nodes l (F l))" using F by (auto simp: set_nodes)
    moreover have "set (nodes m (F m)) \<inter> set (nodes l (F l)) = {}" using A l m by (simp add: dlists_def)
    ultimately show ?thesis by blast
  qed
  from dlists_step [OF A h'(2,3) this] show ?thesis using h'(1) l by (simp add: insert_absorb)
qed

lemma cells_upd: "l \<in> A \<Longrightarrow> cells A (F(l := xs)) = set (nodes l xs) \<union> cells (A - {l}) F"
  by (auto simp: cells_def split: if_splits)

lemma cells_insert: "l \<in> A \<Longrightarrow> cells A (F(l := e # F l)) = insert e (cells A F)"
  by (auto simp: cells_def set_nodes split: if_splits)

lemma cells_remove:
  assumes A: "dlists h A F" and l: "l \<in> A" and F: "F l = xs @ e # ys"
  shows "cells A (F(l := xs @ ys)) = cells A F - {e}"
proof -
  have 1: "e \<notin> set (nodes l (xs @ ys))" "set (nodes l (F l)) = insert e (set (nodes l (xs @ ys)))"
    using dlists_dlist [OF A l] F by (auto simp: dlist_def nodes_def)
  have "e \<notin> set (nodes m (F m))" if "m \<in> A" "m \<noteq> l" for m
  proof -
    have "set (nodes m (F m)) \<inter> set (nodes l (F l)) = {}" using A l that by (simp add: dlists_def)
    then show ?thesis using 1(2) by blast
  qed
  then have 2: "e \<notin> cells (A - {l}) F" by (auto simp: cells_def)
  show ?thesis
    using 1 2 cells_upd [OF l, of F "F l"] cells_upd [OF l, of F "xs @ ys"] by auto
qed

section \<open>Rehashing\<close>

text \<open>The addresses of the first \<open>n\<close> buckets of an array.\<close>

definition bucket_array :: "ptr \<Rightarrow> u32 \<Rightarrow> ptr set" where
  "bucket_array a n = list_at a ` {i. i < n}"

abbreviation headers :: "ptr set \<Rightarrow> ptr set" where
  "headers A \<equiv> cells A (\<lambda>_. [])"

lemma list_at_eq [simp]: "list_at a i = list_at a j \<longleftrightarrow> i = j"
  by (auto simp: list_at_def word_unat_eq_iff)

lemma nodes_list_at:
  "i \<noteq> j \<Longrightarrow> {head_of (list_at a i), tail_of (list_at a i)} \<inter> set (nodes (list_at a j) []) = {}"
proof -
  assume "i \<noteq> j"
  then have "unat i \<noteq> unat j" by (simp add: word_unat_eq_iff)
  then show ?thesis by (simp add: list_at_def nodes_def head_of_def tail_of_def)
qed

lemma list_at_neq_NULL [simp]: "a \<noteq> NULL \<Longrightarrow> list_at a i \<noteq> NULL"
  by (simp add: list_at_def NULL_def)

lemma bucket_array_Suc: "i < n \<Longrightarrow> bucket_array a (i + 1) = insert (list_at a i) (bucket_array a i)"
proof -
  assume "i < n"
  then have "(j < i + 1) = (j < i \<or> j = i)" for j
    using unat_Suc_less [of i n] by (auto simp: word_less_nat_alt word_unat_eq_iff)
  then show ?thesis by (auto simp: bucket_array_def)
qed

lemma find_bucket_in: "bucket_cnt hs \<noteq> 0 \<Longrightarrow> find_bucket hs e \<in> bucket_array (buckets hs) (bucket_cnt hs)"
proof -
  assume c: "bucket_cnt hs \<noteq> 0"
  have "0 < unat (bucket_cnt hs)" using c by (simp add: unat_gt_0)
  then have "bucket_cnt hs - 1 < bucket_cnt hs"
    unfolding word_less_nat_alt unat_minus_one [OF c] by simp
  moreover have "and (hash_fn hs e) (bucket_cnt hs - 1) \<le> bucket_cnt hs - 1"
    by (rule word_and_le1)
  ultimately have "and (hash_fn hs e) (bucket_cnt hs - 1) < bucket_cnt hs" by (rule le_less_trans [rotated])
  then show ?thesis
    unfolding find_bucket_def bucket_array_def by (intro imageI CollectI)
qed

lemma init_buckets_ok:
  assumes "dlists h (A \<union> bucket_array a i) F" and F: "\<forall>l\<in>bucket_array a n. F l = []" and a: "a \<noteq> NULL"
    and d: "headers (bucket_array a n) \<inter> cells A F = {}" and "i \<le> n"
  shows "\<exists>h'. init_buckets h a n i = Some h' \<and> dlists h' (A \<union> bucket_array a n) F"
  using assms(1,5)
proof (induction "unat (n - i)" arbitrary: i h rule: less_induct)
  case less
  show ?case
  proof (cases "i < n")
    case True
    let ?l = "list_at a i"
    have l: "?l \<in> bucket_array a n" using True by (simp add: bucket_array_def)
    then have "{head_of ?l, tail_of ?l} \<subseteq> headers (bucket_array a n)" by (auto simp: cells_def set_nodes)
    then have "{head_of ?l, tail_of ?l} \<inter> cells A F = {}" using d by blast
    moreover have "{head_of ?l, tail_of ?l} \<inter> cells (bucket_array a i) F = {}"
    proof -
      have "{head_of ?l, tail_of ?l} \<inter> set (nodes (list_at a j) (F (list_at a j))) = {}" if "j < i" for j
        using nodes_list_at [of i j a] F that True by (force simp: bucket_array_def)
      then show ?thesis by (auto simp: cells_def bucket_array_def)
    qed
    ultimately have "{head_of ?l, tail_of ?l} \<inter> cells (A \<union> bucket_array a i - {?l}) F = {}"
      by (auto simp: cells_def)
    from dlists_init [OF less.prems(1) list_at_neq_NULL [OF a] this]
    obtain h' where h': "list_init h ?l = Some h'" "dlists h' (A \<union> bucket_array a (i + 1)) F"
      using bucket_array_Suc [OF True, of a] F l by (auto simp: fun_upd_idem)
    have "i + 1 \<le> n" using True unat_Suc_less [OF True] by (simp add: word_less_nat_alt word_le_nat_alt)
    from less.hyps [OF loop_measure [OF True] h'(2) this] show ?thesis
      using h'(1) True by (subst init_buckets.simps) simp
  next
    case False
    then have "i = n" using less.prems(2) by simp
    then show ?thesis using less.prems(1) by (subst init_buckets.simps) simp
  qed
qed

lemma rehash_elems_ok:
  assumes "dlists h A F" and o: "ob \<in> A" and f: "\<And>x. find_bucket hs x \<in> A - {ob}"
  shows "\<exists>h' G. rehash_elems h hs ob (hd (F ob @ [tail_of ob])) = Some h' \<and> dlists h' A G \<and>
    (\<forall>l\<in>A - {ob}. set (G l) = set (F l) \<union> {x \<in> set (F ob). find_bucket hs x = l})"
  using assms(1)
proof (induction "F ob" arbitrary: F h)
  case Nil
  have "rehash_elems h hs ob (hd (F ob @ [tail_of ob])) = Some h"
    using Nil.hyps dlist_end [OF dlists_dlist [OF Nil.prems o]] by (subst rehash_elems.simps) simp
  then show ?case using Nil by (intro exI [of _ h] exI [of _ F]) auto
next
  case (Cons y ys)
  let ?F = "F(ob := ys)" and ?n = "find_bucket hs y"
  let ?G = "?F(?n := y # ?F ?n)"
  have D: "dlist h ob (y # ys)" using dlists_dlist [OF Cons.prems o] Cons.hyps(2) by simp
  have y: "y \<noteq> tail_of ob" "y \<noteq> NULL" using D by (auto simp: dlist_def nodes_def)
  have nx: "list_next h y = Some (hd (ys @ [tail_of ob]))" using dlist_next [of h ob "[]" y ys] D by simp
  have Fo: "F ob = [] @ y # ys" using Cons.hyps(2) by simp
  obtain h1 where h1: "list_remove h y = Some (hd (ys @ [tail_of ob]), h1)" "dlists h1 A ?F"
    using dlists_remove [OF Cons.prems o Fo] by auto
  have "y \<notin> cells A ?F" using cells_remove [OF Cons.prems o Fo] by simp
  from dlists_push_front [OF h1(2) DiffD1 [OF f [of y]] this y(2)]
  obtain h2 where h2: "list_push_front h1 ?n y = Some h2" "dlists h2 A ?G" by (elim exE conjE)
  have Go: "ys = ?G ob" using f [of y] by simp
  from Cons.hyps(1) [OF Go h2(2), folded Go] obtain h' G where G:
    "rehash_elems h2 hs ob (hd (ys @ [tail_of ob])) = Some h'" "dlists h' A G"
    "\<forall>l\<in>A - {ob}. set (G l) = set (?G l) \<union> {x \<in> set ys. find_bucket hs x = l}"
    by blast
  have "rehash_elems h hs ob (hd (F ob @ [tail_of ob])) = Some h'"
    using Fo y nx h1(1) h2(1) G(1) dlist_end [OF D] by (subst rehash_elems.simps) simp
  moreover have "set (G l) = set (F l) \<union> {x \<in> set (F ob). find_bucket hs x = l}" if l: "l \<in> A - {ob}" for l
  proof -
    have "set (?G l) = set (F l) \<union> (if ?n = l then {y} else {})" using l f [of y] by simp
    moreover have "{x \<in> set (F ob). find_bucket hs x = l} =
        (if ?n = l then {y} else {}) \<union> {x \<in> set ys. find_bucket hs x = l}"
      unfolding Fo by auto
    ultimately show ?thesis unfolding bspec [OF G(3) l] by (simp only: Un_assoc)
  qed
  ultimately show ?case using G(2) by (intro exI [of _ h'] exI [of _ G]) simp
qed

lemma word_le_Suc: "i < n \<Longrightarrow> (i \<le> j) = (j = i \<or> i + 1 \<le> j)" for i j n :: u32
  using unat_Suc_less [of i n] by (auto simp: word_le_nat_alt word_less_nat_alt word_unat_eq_iff)

lemma rehash_buckets_ok:
  fixes hs ob n
  defines "N \<equiv> bucket_array (buckets hs) (bucket_cnt hs)" and "A \<equiv> bucket_array ob n \<union> bucket_array (buckets hs) (bucket_cnt hs)"
  assumes "dlists h A F" and d: "bucket_array ob n \<inter> N = {}" and c: "bucket_cnt hs \<noteq> 0" and "i \<le> n"
  shows "\<exists>h' G. rehash_buckets h hs ob n i = Some h' \<and> dlists h' A G \<and>
    (\<forall>l\<in>N. set (G l) = set (F l) \<union>
       {x. (\<exists>j. i \<le> j \<and> j < n \<and> x \<in> set (F (list_at ob j))) \<and> find_bucket hs x = l})"
  using assms(3,6)
proof (induction "unat (n - i)" arbitrary: i h F rule: less_induct)
  case less
  have fN: "find_bucket hs x \<in> N" for x using find_bucket_in [OF c] by (simp add: N_def)
  show ?case
  proof (cases "i < n")
    case True
    let ?l = "list_at ob i"
    have lO: "list_at ob j \<in> bucket_array ob n" if "j < n" for j using that by (simp add: bucket_array_def)
    have l: "?l \<in> A" "?l \<notin> N" using lO [OF True] d by (auto simp: A_def)
    have fA: "find_bucket hs x \<in> A - {?l}" for x
      using fN [of x] l by (auto simp: A_def N_def)
    from rehash_elems_ok [OF less.prems(1) l(1) fA] obtain h1 G1 where G1:
      "rehash_elems h hs ?l (hd (F ?l @ [tail_of ?l])) = Some h1" "dlists h1 A G1"
      "\<forall>l\<in>A - {?l}. set (G1 l) = set (F l) \<union> {x \<in> set (F ?l). find_bucket hs x = l}" by blast
    have i1: "i + 1 \<le> n" using True unat_Suc_less [OF True] by (simp add: word_less_nat_alt word_le_nat_alt)
    from less.hyps [OF loop_measure [OF True] G1(2) i1] obtain h' G where G:
      "rehash_buckets h1 hs ob n (i + 1) = Some h'" "dlists h' A G"
      "\<forall>l\<in>N. set (G l) = set (G1 l) \<union>
         {x. (\<exists>j. i + 1 \<le> j \<and> j < n \<and> x \<in> set (G1 (list_at ob j))) \<and> find_bucket hs x = l}" by blast
    have old: "set (G1 (list_at ob j)) = set (F (list_at ob j))" if j: "i + 1 \<le> j" "j < n" for j
    proof -
      have "j \<noteq> i" using j True unat_Suc_less [OF True] by (auto simp: word_le_nat_alt)
      then have "list_at ob j \<in> A - {?l}" using lO [OF j(2)] by (simp add: A_def)
      moreover have "find_bucket hs x \<noteq> list_at ob j" for x using fN [of x] lO [OF j(2)] d by auto
      ultimately show ?thesis using G1(3) by simp
    qed
    have "set (G l) = set (F l) \<union> {x. (\<exists>j. i \<le> j \<and> j < n \<and> x \<in> set (F (list_at ob j))) \<and> find_bucket hs x = l}"
      if "l \<in> N" for l
    proof -
      have m: "l \<in> A - {?l}" using that l by (auto simp: A_def N_def)
      have J: "(\<exists>j. i + 1 \<le> j \<and> j < n \<and> x \<in> set (G1 (list_at ob j))) \<longleftrightarrow>
          (\<exists>j. i + 1 \<le> j \<and> j < n \<and> x \<in> set (F (list_at ob j)))" for x
        using old by auto
      have K: "(\<exists>j. i \<le> j \<and> j < n \<and> x \<in> set (F (list_at ob j))) \<longleftrightarrow>
          x \<in> set (F ?l) \<or> (\<exists>j. i + 1 \<le> j \<and> j < n \<and> x \<in> set (F (list_at ob j)))" for x
        using True by (auto simp: word_le_Suc [OF True])
      show ?thesis unfolding bspec [OF G(3) that] bspec [OF G1(3) m] J K by auto
    qed
    moreover have "rehash_buckets h hs ob n i = Some h'"
      using True G1(1) G(1) dlist_begin [OF dlists_dlist [OF less.prems(1) l(1)]]
      by (subst rehash_buckets.simps) simp
    ultimately show ?thesis using G(2) by (intro exI [of _ h'] exI [of _ G]) simp
  next
    case False
    then have "i = n" using less.prems(2) by simp
    then show ?thesis using less.prems(1)
      by (intro exI [of _ h] exI [of _ F]) (subst rehash_buckets.simps, auto)
  qed
qed

lemma bucket_cnt_loop_ok:
  "n \<noteq> 0 \<Longrightarrow> \<exists>m. bucket_cnt_loop n = Some m \<and> is_power_of_2 m \<and> m \<le> n"
proof (induction "unat n" arbitrary: n rule: less_induct)
  case less
  show ?case
  proof (cases "is_power_of_2 n")
    case True
    then show ?thesis by (subst bucket_cnt_loop.simps) simp
  next
    case False
    let ?m = "turn_off_least_1bit n"
    have m0: "?m \<noteq> 0" using False less.prems by (simp add: is_power_of_2_def)
    have "?m \<le> n - 1" unfolding turn_off_least_1bit_def by (rule word_and_le1)
    moreover have "unat (n - 1) < unat n" unfolding unat_minus_one [OF less.prems]
      using less.prems by (simp add: unat_gt_0)
    ultimately have m: "unat ?m < unat n" by (simp add: word_le_nat_alt)
    from less.hyps [OF m m0] obtain k where "bucket_cnt_loop ?m = Some k" "is_power_of_2 k" "k \<le> ?m" by blast
    then show ?thesis using False m by (subst bucket_cnt_loop.simps) (simp add: word_le_nat_alt)
  qed
qed

lemma new_bucket_cnt_ok: "\<exists>m. new_bucket_cnt c = Some m \<and> is_power_of_2 m"
proof -
  let ?n = "if c div BEST_ELEMS_PER_BUCKET < 4 then 4 else c div BEST_ELEMS_PER_BUCKET"
  have "?n \<noteq> 0" by (cases "c div BEST_ELEMS_PER_BUCKET = 0") auto
  from bucket_cnt_loop_ok [OF this] show ?thesis unfolding new_bucket_cnt_def Let_def by blast
qed

section \<open>The set a table represents\<close>

abbreviation bucket_set :: "hash_table \<Rightarrow> ptr set" where
  "bucket_set hs \<equiv> bucket_array (buckets hs) (bucket_cnt hs)"

definition hash_rep :: "hash_table \<Rightarrow> lheap \<Rightarrow> ptr set \<Rightarrow> bool" where
  "hash_rep hs h E \<longleftrightarrow>
     is_power_of_2 (bucket_cnt hs) \<and> elem_cnt hs = of_nat (card E) \<and>
     (\<forall>x\<in>E. \<forall>y\<in>E. same_key (less_fn hs) x y \<longrightarrow> x = y) \<and>
     (\<exists>F. dlists h (bucket_set hs) F \<and> (\<forall>l\<in>bucket_set hs. \<forall>x\<in>set (F l). find_bucket hs x = l) \<and>
        E = (\<Union>l\<in>bucket_set hs. set (F l)))"

text \<open>The block that \<open>malloc\<close> returns for the buckets of a table with the elements \<open>E\<close> lies apart from
  the elements and from the buckets in use.\<close>

definition free_block :: "ptr \<Rightarrow> hash_table \<Rightarrow> ptr set \<Rightarrow> bool" where
  "free_block block hs E \<longleftrightarrow> (\<forall>n. new_bucket_cnt (of_nat (card E)) = Some n \<longrightarrow> block \<noteq> NULL \<longrightarrow>
     headers (bucket_array block n) \<inter> (E \<union> headers (bucket_set hs)) = {})"

text \<open>The result of a search: the element with the key of \<open>e\<close>, or null when there is none.\<close>

definition search_result :: "(ptr \<Rightarrow> ptr \<Rightarrow> bool) \<Rightarrow> ptr set \<Rightarrow> ptr \<Rightarrow> ptr \<Rightarrow> bool" where
  "search_result lt E e old \<longleftrightarrow>
     (if old = NULL then \<forall>x\<in>E. \<not> same_key lt x e else old \<in> E \<and> same_key lt old e)"

text \<open>An operation turns the table \<open>hs\<close> into a table with the same functions and the elements \<open>E\<close>.\<close>

definition table_holds :: "hash_table \<Rightarrow> hash_table \<Rightarrow> lheap \<Rightarrow> ptr set \<Rightarrow> bool" where
  "table_holds hs hs' h' E \<longleftrightarrow>
     hash_rep hs' h' E \<and> hash_fn hs' = hash_fn hs \<and> less_fn hs' = less_fn hs"

lemma hash_repE:
  assumes "hash_rep hs h E"
  obtains F where "dlists h (bucket_set hs) F" "\<And>l x. l \<in> bucket_set hs \<Longrightarrow> x \<in> set (F l) \<Longrightarrow> find_bucket hs x = l"
    "E = (\<Union>l\<in>bucket_set hs. set (F l))" "bucket_cnt hs \<noteq> 0" "cells (bucket_set hs) F = E \<union> headers (bucket_set hs)"
proof -
  obtain F where F: "dlists h (bucket_set hs) F" "\<forall>l\<in>bucket_set hs. \<forall>x\<in>set (F l). find_bucket hs x = l"
    "E = (\<Union>l\<in>bucket_set hs. set (F l))"
    using assms by (auto simp: hash_rep_def)
  have "cells (bucket_set hs) F = E \<union> headers (bucket_set hs)" by (auto simp: F(3) cells_def set_nodes)
  moreover have "bucket_cnt hs \<noteq> 0" using assms by (simp add: hash_rep_def is_power_of_2_def)
  ultimately show thesis using that [OF F(1) _ F(3)] F(2) by blast
qed

lemma hash_repI:
  assumes "is_power_of_2 (bucket_cnt hs)" "elem_cnt hs = of_nat (card E)"
    and "\<And>x y. \<lbrakk>x \<in> E; y \<in> E; same_key (less_fn hs) x y\<rbrakk> \<Longrightarrow> x = y"
    and "dlists h (bucket_set hs) F" "\<And>l x. \<lbrakk>l \<in> bucket_set hs; x \<in> set (F l)\<rbrakk> \<Longrightarrow> find_bucket hs x = l"
    and "E = (\<Union>l\<in>bucket_set hs. set (F l))"
  shows "hash_rep hs h E"
  unfolding hash_rep_def using assms by (intro conjI exI [of _ F] ballI impI)

lemma UN_upd: "l \<in> A \<Longrightarrow> (\<Union>m\<in>A. set ((F(l := ys)) m)) = set ys \<union> (\<Union>m\<in>A - {l}. set (F m))"
  by (auto split: if_splits)

lemma hash_rep_finite: "hash_rep hs h E \<Longrightarrow> finite E"
  by (auto simp: hash_rep_def bucket_array_def)

lemma hash_rep_NULL: "hash_rep hs h E \<Longrightarrow> NULL \<notin> E"
proof (elim hash_repE)
  fix F
  assume F: "dlists h (bucket_set hs) F" "E = (\<Union>l\<in>bucket_set hs. set (F l))"
  have "NULL \<notin> set (F l)" if "l \<in> bucket_set hs" for l
    using dlists_dlist [OF F(1) that] by (simp add: dlist_def)
  then show ?thesis using F(2) by blast
qed

lemma rehash_ok:
  assumes rep: "hash_rep hs h E" and free: "free_block block hs E"
  shows "\<exists>hs' h'. rehash block h hs = Some (hs', h') \<and> hash_rep hs' h' E \<and>
    hash_fn hs' = hash_fn hs \<and> less_fn hs' = less_fn hs"
proof -
  obtain n where n: "new_bucket_cnt (elem_cnt hs) = Some n" "is_power_of_2 n" using new_bucket_cnt_ok by blast
  show ?thesis
  proof (cases "n = bucket_cnt hs \<or> block = NULL")
    case True
    then show ?thesis using n rep by (auto simp: rehash_def)
  next
    case False
    obtain F where F: "dlists h (bucket_set hs) F" "E = (\<Union>l\<in>bucket_set hs. set (F l))"
      "cells (bucket_set hs) F = E \<union> headers (bucket_set hs)" using rep by (rule hash_repE)
    let ?N = "bucket_array block n" and ?hs = "hs\<lparr>buckets := block, bucket_cnt := n\<rparr>"
    define F' where "F' = (\<lambda>l. if l \<in> ?N then [] else F l)"
    have sep: "headers ?N \<inter> (E \<union> headers (bucket_set hs)) = {}"
      using free n False rep by (auto simp: free_block_def hash_rep_def)
    have in_headers: "B \<subseteq> headers B" for B by (auto simp: cells_def nodes_def head_of_def)
    have dj: "bucket_set hs \<inter> ?N = {}" using sep in_headers [of ?N] in_headers [of "bucket_set hs"] by blast
    have eq: "F' l = F l" if "l \<in> bucket_set hs" for l using that dj by (auto simp: F'_def)
    have "bucket_array block 0 = {}" by (simp add: bucket_array_def)
    then have D: "dlists h (bucket_set hs \<union> bucket_array block 0) F'"
      using dlists_cong [OF F(1)] eq by simp
    have "cells (bucket_set hs) F' = cells (bucket_set hs) F" using eq by (auto simp: cells_def)
    then have "headers ?N \<inter> cells (bucket_set hs) F' = {}" using sep F(3) by simp
    from init_buckets_ok [OF D _ _ this] obtain h1 where h1:
      "init_buckets h block n 0 = Some h1" "dlists h1 (bucket_set hs \<union> ?N) F'"
      using False by (auto simp: F'_def)
    have n0: "n \<noteq> 0" using n(2) by (simp add: is_power_of_2_def)
    obtain h2 G where G: "rehash_buckets h1 ?hs (buckets hs) (bucket_cnt hs) 0 = Some h2"
      "dlists h2 (bucket_set hs \<union> ?N) G"
      "\<forall>l\<in>?N. set (G l) = set (F' l) \<union>
         {x. (\<exists>j. 0 \<le> j \<and> j < bucket_cnt hs \<and> x \<in> set (F' (list_at (buckets hs) j))) \<and> find_bucket ?hs x = l}"
      using rehash_buckets_ok [of h1 "buckets hs" "bucket_cnt hs" ?hs F' 0] h1(2) dj n0 by auto
    have E: "(\<exists>j. 0 \<le> j \<and> j < bucket_cnt hs \<and> x \<in> set (F' (list_at (buckets hs) j))) \<longleftrightarrow> x \<in> E" for x
      using eq by (auto simp: F(2) bucket_array_def)
    have Gl: "set (G l) = {x \<in> E. find_bucket ?hs x = l}" if "l \<in> ?N" for l
      using bspec [OF G(3) that] that unfolding E by (simp add: F'_def)
    have "find_bucket ?hs x \<in> ?N" for x using find_bucket_in [of ?hs x] n0 by simp
    then have "E = (\<Union>l\<in>?N. set (G l))" using Gl by auto
    moreover have "dlists h2 ?N G" using dlists_subset [OF G(2)] by simp
    ultimately have "hash_rep ?hs h2 E"
      using rep n(2) Gl unfolding hash_rep_def by (intro conjI exI [of _ G]) auto
    then show ?thesis using False n(1) h1(1) G(1) by (simp add: rehash_def)
  qed
qed

section \<open>Searching, inserting and removing\<close>

lemma find_elem_loop_ok:
  assumes "dlist h l (xs @ ys)"
  shows "find_elem_loop h hs l e (hd (ys @ [tail_of l])) =
    Some (case find (\<lambda>x. same_key (less_fn hs) x e) ys of None \<Rightarrow> NULL | Some x \<Rightarrow> x)"
  using assms
proof (induction ys arbitrary: xs)
  case Nil
  then show ?case by (subst find_elem_loop.simps) (simp add: dlist_end)
next
  case (Cons y ys)
  have "y \<noteq> tail_of l" using Cons.prems by (auto simp: dlist_def nodes_def)
  then show ?case
    using Cons.IH [of "xs @ [y]"] Cons.prems dlist_next [OF Cons.prems] dlist_end [OF Cons.prems]
    by (subst find_elem_loop.simps) (auto simp: same_key_def)
qed

lemma find_elem_ok:
  "dlist h l ys \<Longrightarrow> find_elem h hs l e =
     Some (case find (\<lambda>x. same_key (less_fn hs) x e) ys of None \<Rightarrow> NULL | Some x \<Rightarrow> x)"
  using find_elem_loop_ok [of h l "[]" ys hs e] by (simp add: find_elem_def dlist_begin)

lemma insert_elem_ok:
  assumes rep: "hash_rep hs h E" and e: "e \<noteq> NULL" "e \<notin> E \<union> headers (bucket_set hs)"
    and new: "\<forall>x\<in>E. \<not> same_key (less_fn hs) x e"
  shows "\<exists>h'. insert_elem h hs (find_bucket hs e) e = Some (hs\<lparr>elem_cnt := elem_cnt hs + 1\<rparr>, h') \<and>
    hash_rep (hs\<lparr>elem_cnt := elem_cnt hs + 1\<rparr>) h' (insert e E)"
proof -
  obtain F where F: "dlists h (bucket_set hs) F" "\<And>l x. l \<in> bucket_set hs \<Longrightarrow> x \<in> set (F l) \<Longrightarrow> find_bucket hs x = l"
    "E = (\<Union>l\<in>bucket_set hs. set (F l))" "bucket_cnt hs \<noteq> 0"
    "cells (bucket_set hs) F = E \<union> headers (bucket_set hs)" using rep by (rule hash_repE) blast
  let ?l = "find_bucket hs e" and ?hs = "hs\<lparr>elem_cnt := elem_cnt hs + 1\<rparr>"
  note l = find_bucket_in [OF F(4), of e]
  obtain h' where h': "list_push_front h ?l e = Some h'" "dlists h' (bucket_set hs) (F(?l := e # F ?l))"
    using dlists_push_front [OF F(1) l] e F(5) by auto
  have fb: "find_bucket ?hs x = find_bucket hs x" for x by (simp add: find_bucket_def)
  have "hash_rep ?hs h' (insert e E)"
  proof (rule hash_repI [where F = "F(?l := e # F ?l)"])
    show "elem_cnt ?hs = of_nat (card (insert e E))"
      using rep e hash_rep_finite [OF rep] by (simp add: hash_rep_def)
    show "x = y" if "x \<in> insert e E" "y \<in> insert e E" "same_key (less_fn ?hs) x y" for x y
      using rep new that by (auto simp: hash_rep_def same_key_def)
    show "find_bucket ?hs x = m" if "m \<in> bucket_set ?hs" "x \<in> set ((F(?l := e # F ?l)) m)" for m x
      using that F(2) [of m x] by (auto simp: fb split: if_splits)
    show "insert e E = (\<Union>m\<in>bucket_set ?hs. set ((F(?l := e # F ?l)) m))"
      using UN_upd [OF l, of F "e # F ?l"] UN_upd [OF l, of F "F ?l", unfolded fun_upd_triv]
      by (simp add: F(3) del: fun_upd_apply)
  qed (use rep h'(2) in \<open>simp_all add: hash_rep_def\<close>)
  then show ?thesis using h'(1) by (simp add: insert_elem_def)
qed

lemma remove_elem_ok:
  assumes rep: "hash_rep hs h E" and e: "e \<in> E"
  shows "\<exists>h'. remove_elem h hs e = Some (hs\<lparr>elem_cnt := elem_cnt hs - 1\<rparr>, h') \<and>
    hash_rep (hs\<lparr>elem_cnt := elem_cnt hs - 1\<rparr>) h' (E - {e})"
proof -
  obtain F where F: "dlists h (bucket_set hs) F" "\<And>l x. l \<in> bucket_set hs \<Longrightarrow> x \<in> set (F l) \<Longrightarrow> find_bucket hs x = l"
    "E = (\<Union>l\<in>bucket_set hs. set (F l))" using rep by (rule hash_repE) blast
  obtain l xs ys where l: "l \<in> bucket_set hs" "F l = xs @ e # ys"
    using e unfolding F(3) by (meson UN_E split_list)
  let ?hs = "hs\<lparr>elem_cnt := elem_cnt hs - 1\<rparr>" and ?F = "F(l := xs @ ys)"
  obtain h' where h': "list_remove h e = Some (hd (ys @ [tail_of l]), h')" "dlists h' (bucket_set hs) ?F"
    using dlists_remove [OF F(1) l] by blast
  have 1: "e \<notin> set (xs @ ys)" using dlists_dlist [OF F(1) l(1)] l(2) by (auto simp: dlist_def nodes_def)
  have "e \<notin> set (F m)" if "m \<in> bucket_set hs - {l}" for m
    using F(2) [of m e] F(2) [OF l(1), of e] l(2) that by auto
  then have 2: "e \<notin> (\<Union>m\<in>bucket_set hs - {l}. set (F m))" by blast
  have fb: "find_bucket ?hs x = find_bucket hs x" for x by (simp add: find_bucket_def)
  have "hash_rep ?hs h' (E - {e})"
  proof (rule hash_repI [where F = ?F])
    have "0 < card E" using e hash_rep_finite [OF rep] by (auto simp: card_gt_0_iff)
    then show "elem_cnt ?hs = of_nat (card (E - {e}))"
      using rep e by (simp add: hash_rep_def of_nat_diff)
    show "x = y" if "x \<in> E - {e}" "y \<in> E - {e}" "same_key (less_fn ?hs) x y" for x y
      using rep that by (auto simp: hash_rep_def)
    show "find_bucket ?hs x = m" if "m \<in> bucket_set ?hs" "x \<in> set (?F m)" for m x
      using that F(2) [of m x] l by (auto simp: fb split: if_splits)
    show "E - {e} = (\<Union>m\<in>bucket_set ?hs. set (?F m))"
      using UN_upd [OF l(1), of F "xs @ ys"] UN_upd [OF l(1), of F "F l", unfolded fun_upd_triv] 1 2
      by (simp add: F(3) l(2) del: fun_upd_apply UN_iff)
  qed (use rep h'(2) in \<open>simp_all add: hash_rep_def\<close>)
  then show ?thesis using h'(1) by (simp add: remove_elem_def)
qed

lemma rehash_set:
  assumes "hash_rep (hs\<lparr>elem_cnt := c\<rparr>) h E" and "free_block block hs E"
  shows "\<exists>hs' h'. rehash block h (hs\<lparr>elem_cnt := c\<rparr>) = Some (hs', h') \<and> table_holds hs hs' h' E"
  using rehash_ok [OF assms(1), of block] assms(2) by (auto simp: free_block_def table_holds_def)

text \<open>What the functions of the caller must satisfy: a strict weak order, and equal elements have the same hash.\<close>

locale hash_functions = list_less lt for lt :: "ptr \<Rightarrow> ptr \<Rightarrow> bool" +
  fixes hf :: "ptr \<Rightarrow> u32"
  assumes same_hash: "same_key lt x y \<Longrightarrow> hf x = hf y"
begin

lemma hash_find_set:
  assumes rep: "hash_rep hs h E" and fns: "less_fn hs = lt" "hash_fn hs = hf"
  shows "\<exists>old. find_elem h hs (find_bucket hs e) e = Some old \<and> search_result lt E e old"
proof -
  obtain F where F: "dlists h (bucket_set hs) F" "\<And>l x. l \<in> bucket_set hs \<Longrightarrow> x \<in> set (F l) \<Longrightarrow> find_bucket hs x = l"
    "E = (\<Union>l\<in>bucket_set hs. set (F l))" "bucket_cnt hs \<noteq> 0" using rep by (rule hash_repE) blast
  let ?l = "find_bucket hs e" and ?P = "\<lambda>x. same_key lt x e"
  note l = find_bucket_in [OF F(4), of e]
  have inl: "x \<in> set (F ?l)" if "x \<in> E" "?P x" for x
  proof -
    have "find_bucket hs x = ?l" using same_hash [OF that(2)] fns by (simp add: find_bucket_def)
    then show ?thesis using that(1) F(2) unfolding F(3) by auto
  qed
  note fe = find_elem_ok [OF dlists_dlist [OF F(1) l], of hs e, unfolded fns(1)]
  show ?thesis
  proof (cases "find ?P (F ?l)")
    case None
    then have "\<not> ?P x" if "x \<in> set (F ?l)" for x using that by (simp add: find_None_iff)
    then have "search_result lt E e NULL" using inl by (auto simp: search_result_def)
    then show ?thesis using None fe by simp
  next
    case (Some x)
    then have x: "x \<in> set (F ?l)" "?P x" by (auto simp: find_Some_iff)
    then have "x \<in> E" using F(3) l by blast
    then have "search_result lt E e x" using x hash_rep_NULL [OF rep] by (auto simp: search_result_def)
    then show ?thesis using Some fe by simp
  qed
qed

lemma hash_delete_set:
  assumes rep: "hash_rep hs h E" and old: "search_result lt E e old"
    and fe: "find_elem h hs (find_bucket hs e) e = Some old" and b: "free_block block hs (E - {old})"
  shows "\<exists>hs' h'. hash_delete block h hs e = Some (old, hs', h') \<and> table_holds hs hs' h' (E - {old})"
proof (cases "old = NULL")
  case True
  then show ?thesis using fe rep hash_rep_NULL [OF rep] by (simp add: hash_delete_def table_holds_def)
next
  case False
  then have "old \<in> E" using old by (simp add: search_result_def)
  from remove_elem_ok [OF rep this] rehash_set [OF _ b] False fe show ?thesis
    unfolding hash_delete_def by fastforce
qed

lemma hash_insert_set:
  assumes rep: "hash_rep hs h E" and fns: "less_fn hs = lt" and old: "search_result lt E e old"
    and fe: "find_elem h hs (find_bucket hs e) e = Some old" and e: "e \<noteq> NULL" "e \<notin> E \<union> headers (bucket_set hs)"
    and b: "free_block block hs (if old = NULL then insert e E else E)"
  shows "\<exists>hs' h'. hash_insert block h hs e = Some (old, hs', h') \<and>
    table_holds hs hs' h' (if old = NULL then insert e E else E)"
proof (cases "old = NULL")
  case True
  then have "\<forall>x\<in>E. \<not> same_key (less_fn hs) x e" using old fns by (simp add: search_result_def)
  from insert_elem_ok [OF rep e this] rehash_set [where hs = hs and E = "insert e E" and block = block] b True fe show ?thesis
    unfolding hash_insert_def by fastforce
next
  case False
  then show ?thesis
    using rehash_set [where hs = hs and c = "elem_cnt hs" and h = h and E = E and block = block] rep b fe by (auto simp: hash_insert_def)
qed

lemma hash_replace_set:
  assumes rep: "hash_rep hs h E" and fns: "less_fn hs = lt" and old: "search_result lt E e old"
    and fe: "find_elem h hs (find_bucket hs e) e = Some old" and e: "e \<noteq> NULL" "e \<notin> E \<union> headers (bucket_set hs)"
    and b: "free_block block hs (insert e (E - {old}))"
  shows "\<exists>hs' h'. hash_replace block h hs e = Some (old, hs', h') \<and>
    table_holds hs hs' h' (insert e (E - {old}))"
proof -
  have new: "\<forall>x\<in>E - {old}. \<not> same_key lt x e"
  proof (cases "old = NULL")
    case False
    then have o: "old \<in> E" "same_key lt old e" using old by (simp_all add: search_result_def)
    have "x = old" if "x \<in> E" "same_key lt x e" for x
    proof -
      have "same_key lt x old" using that(2) o(2) not_lt_trans unfolding same_key_def by blast
      then show ?thesis using rep that(1) o(1) fns by (simp add: hash_rep_def)
    qed
    then show ?thesis by blast
  qed (use old in \<open>auto simp: search_result_def\<close>)
  obtain c h1 where 1: "(if old \<noteq> NULL then remove_elem h hs old else Some (hs, h)) = Some (hs\<lparr>elem_cnt := c\<rparr>, h1)"
    "hash_rep (hs\<lparr>elem_cnt := c\<rparr>) h1 (E - {old})"
  proof (cases "old = NULL")
    case True
    then show ?thesis using that [of "elem_cnt hs" h] rep hash_rep_NULL [OF rep] by simp
  next
    case False
    then have "old \<in> E" using old by (simp add: search_result_def)
    from remove_elem_ok [OF rep this] show ?thesis using that [of "elem_cnt hs - 1"] False by auto
  qed
  have fb: "find_bucket (hs\<lparr>elem_cnt := c\<rparr>) e = find_bucket hs e" by (simp add: find_bucket_def)
  from insert_elem_ok [OF 1(2) e(1)] e(2) new fns obtain h2 where 2:
    "insert_elem h1 (hs\<lparr>elem_cnt := c\<rparr>) (find_bucket hs e) e = Some (hs\<lparr>elem_cnt := c + 1\<rparr>, h2)"
    "hash_rep (hs\<lparr>elem_cnt := c + 1\<rparr>) h2 (insert e (E - {old}))" by (auto simp: fb)
  from rehash_set [OF 2(2) b] show ?thesis using fe 1(1) 2(1) by (auto simp: hash_replace_def)
qed

end

section \<open>A new table, and visiting all elements\<close>

lemma hash_clear_loop_None:
  "hash_clear_loop None a n i h st = map_option (\<lambda>h'. (h', st)) (init_buckets h a n i)"
proof (induction "unat (n - i)" arbitrary: i h rule: less_induct)
  case less
  show ?case
    using less.hyps [OF loop_measure]
    by (subst hash_clear_loop.simps, subst init_buckets.simps) (auto simp: map_option_bind o_def)
qed

lemma hash_init_empty:
  assumes "block \<noteq> NULL"
  shows "\<exists>hs h'. hash_init block hf lt h = Some (True, hs, h') \<and> hash_rep hs h' {} \<and>
    hs = \<lparr>elem_cnt = 0, bucket_cnt = 4, buckets = block, hash_fn = hf, less_fn = lt\<rparr>"
proof -
  let ?hs = "\<lparr>elem_cnt = 0, bucket_cnt = 4, buckets = block, hash_fn = hf, less_fn = lt\<rparr>"
  have "dlists h ({} \<union> bucket_array block 0) (\<lambda>_. [])" by (simp add: bucket_array_def dlists_def)
  from init_buckets_ok [OF this, of 4] assms obtain h' where h':
    "init_buckets h block 4 0 = Some h'" "dlists h' (bucket_array block 4) (\<lambda>_. [])"
    by (auto simp: cells_def)
  have "is_power_of_2 4" by (simp add: is_power_of_2_def turn_off_least_1bit_def)
  then have "hash_rep ?hs h' {}" using h'(2) by (intro hash_repI [where F = "\<lambda>_. []"]) simp_all
  then show ?thesis using h'(1) assms by (simp add: hash_init_def hash_clear_def hash_clear_loop_None)
qed

lemma apply_bucket_ok:
  assumes "dlist h l (xs @ ys)"
  shows "apply_bucket f h l (hd (ys @ [tail_of l])) st = Some (fold f ys st)"
  using assms
proof (induction ys arbitrary: xs st)
  case Nil
  then show ?case by (subst apply_bucket.simps) (simp add: dlist_end)
next
  case (Cons y ys)
  have "y \<noteq> tail_of l" using Cons.prems by (auto simp: dlist_def nodes_def)
  then show ?case
    using Cons.IH [of "xs @ [y]"] Cons.prems dlist_next [OF Cons.prems] dlist_end [OF Cons.prems]
    by (subst apply_bucket.simps) simp
qed

lemma hash_apply_loop_ok:
  assumes D: "dlists h (bucket_set hs) F" and i: "i \<le> bucket_cnt hs"
  shows "\<exists>xs. hash_apply_loop f h hs i st = Some (fold f xs st) \<and>
    set xs = (\<Union>j\<in>{j. i \<le> j \<and> j < bucket_cnt hs}. set (F (list_at (buckets hs) j))) \<and> distinct xs"
  using i
proof (induction "unat (bucket_cnt hs - i)" arbitrary: i st rule: less_induct)
  case less
  show ?case
  proof (cases "i < bucket_cnt hs")
    case True
    let ?l = "\<lambda>j. list_at (buckets hs) j"
    have l: "?l j \<in> bucket_set hs" if "j < bucket_cnt hs" for j using that by (simp add: bucket_array_def)
    note Di = dlists_dlist [OF D l [OF True]]
    have i1: "i + 1 \<le> bucket_cnt hs"
      using True unat_Suc_less [OF True] by (simp add: word_less_nat_alt word_le_nat_alt)
    from less.hyps [OF loop_measure [OF True] i1, of "fold f (F (?l i)) st"] obtain xs where xs:
      "hash_apply_loop f h hs (i + 1) (fold f (F (?l i)) st) = Some (fold f xs (fold f (F (?l i)) st))"
      "set xs = (\<Union>j\<in>{j. i + 1 \<le> j \<and> j < bucket_cnt hs}. set (F (?l j)))" "distinct xs" by blast
    have "hash_apply_loop f h hs i st = Some (fold f (F (?l i) @ xs) st)"
      using True xs(1) dlist_begin [OF Di] apply_bucket_ok [of h "?l i" "[]" "F (?l i)" f st] Di
      by (subst hash_apply_loop.simps) simp
    moreover have "set (F (?l i) @ xs) = (\<Union>j\<in>{j. i \<le> j \<and> j < bucket_cnt hs}. set (F (?l j)))"
      using True xs(2) by (auto simp: word_le_Suc [OF True])
    moreover have "set (F (?l i)) \<inter> set xs = {}"
    proof -
      have "set (F (?l i)) \<inter> set (F (?l j)) = {}" if j: "i + 1 \<le> j" "j < bucket_cnt hs" for j
      proof -
        have "?l i \<noteq> ?l j" using j True unat_Suc_less [OF True] by (auto simp: word_le_nat_alt)
        then have "set (nodes (?l i) (F (?l i))) \<inter> set (nodes (?l j) (F (?l j))) = {}"
          using D l [OF True] l [OF j(2)] by (simp add: dlists_def)
        then show ?thesis by (auto simp: set_nodes)
      qed
      then show ?thesis unfolding xs(2) by blast
    qed
    moreover have "distinct (F (?l i))" using Di by (simp add: dlist_def nodes_def)
    ultimately show ?thesis using xs(3) by (intro exI [of _ "F (?l i) @ xs"]) simp
  next
    case False
    then have "i = bucket_cnt hs" using less.prems by simp
    then show ?thesis by (intro exI [of _ "[]"]) (subst hash_apply_loop.simps, auto)
  qed
qed

lemma hash_apply_ok:
  assumes "hash_rep hs h E"
  shows "\<exists>xs. hash_apply (Some f) h hs st = Some (fold f xs st) \<and> set xs = E \<and> distinct xs"
proof -
  obtain F where F: "dlists h (bucket_set hs) F" "E = (\<Union>l\<in>bucket_set hs. set (F l))"
    using assms by (rule hash_repE)
  have "(\<Union>j\<in>{j. 0 \<le> j \<and> j < bucket_cnt hs}. set (F (list_at (buckets hs) j))) = E"
    by (simp add: F(2) bucket_array_def)
  with hash_apply_loop_ok [OF F(1), of 0 f st] show ?thesis by (simp add: hash_apply_def)
qed

section \<open>Keys of integers\<close>

text \<open>The functions for elements with an integer key: the comparison of the list test and the hash function for
  integers.\<close>

interpretation int_keys: hash_functions "value_less val" "\<lambda>p. the (hash_int (val p))" for val
proof unfold_locales
  fix x y
  assume "same_key (value_less val) x y"
  then have "sint (val x) = sint (val y)" by (simp add: value_less_def same_key_def)
  then have "val x = val y" by (rule signed_word_eqI)
  then show "the (hash_int (val x)) = the (hash_int (val y))" by simp
qed

section \<open>Properties\<close>

text \<open>C6: a hash table is a set of elements with at most one element of each key, for every hash and comparison
  function under which equal elements have equal hashes. A search returns the element with the key, or null;
  \<open>hash_insert\<close> adds the element exactly when the key is new; \<open>hash_replace\<close> puts it in the place of the old
  one; \<open>hash_delete\<close> removes what it returns; and \<open>hash_apply\<close> visits every element once. This holds whether or not
  the table is rehashed into more or fewer buckets, and when there is no memory for that.\<close>

theorem hash_table_set:
  assumes "hash_functions (less_fn hs) (hash_fn hs)" and "hash_rep hs h E"
  shows "\<exists>old. search_result (less_fn hs) E e old \<and> hash_find h hs e = Some old \<and>
    (free_block block hs (E - {old}) \<longrightarrow>
       (\<exists>hs' h'. hash_delete block h hs e = Some (old, hs', h') \<and> table_holds hs hs' h' (E - {old}))) \<and>
    (e \<noteq> NULL \<and> e \<notin> E \<union> headers (bucket_set hs) \<longrightarrow>
       (free_block block hs (if old = NULL then insert e E else E) \<longrightarrow>
          (\<exists>hs' h'. hash_insert block h hs e = Some (old, hs', h') \<and>
             table_holds hs hs' h' (if old = NULL then insert e E else E))) \<and>
       (free_block block hs (insert e (E - {old})) \<longrightarrow>
          (\<exists>hs' h'. hash_replace block h hs e = Some (old, hs', h') \<and>
             table_holds hs hs' h' (insert e (E - {old}))))) \<and>
    (\<forall>f st. \<exists>xs. hash_apply (Some f) h hs st = Some (fold f xs st) \<and> set xs = E \<and> distinct xs)"
proof -
  obtain old where old: "find_elem h hs (find_bucket hs e) e = Some old" "search_result (less_fn hs) E e old"
    using hash_functions.hash_find_set [OF assms refl refl] by blast
  note ops = hash_functions.hash_delete_set [OF assms old(2,1)]
    hash_functions.hash_insert_set [OF assms refl old(2,1)] hash_functions.hash_replace_set [OF assms refl old(2,1)]
  show ?thesis
    using old ops hash_apply_ok [OF assms(2)]
    by (intro exI [of _ old] conjI impI allI) (simp_all add: hash_find_def)
qed

theorem hash_table_set_witness:
  "\<exists>hs h hs' h'. hash_init 1000 (\<lambda>p. the (hash_int (of_nat p))) (value_less of_nat) sample_heap = Some (True, hs, h) \<and>
     hash_insert NULL h hs 5000 = Some (NULL, hs', h') \<and> hash_rep hs' h' {5000}"
proof -
  let ?hs = "\<lparr>elem_cnt = 0, bucket_cnt = 4, buckets = 1000, hash_fn = \<lambda>p. the (hash_int (of_nat p)),
    less_fn = value_less of_nat\<rparr>"
  obtain h where h: "hash_init 1000 (\<lambda>p. the (hash_int (of_nat p))) (value_less of_nat) sample_heap = Some (True, ?hs, h)"
    "hash_rep ?hs h {}"
    using hash_init_empty [of 1000 "\<lambda>p. the (hash_int (of_nat p))" "value_less of_nat" sample_heap]
    by (auto simp: NULL_def)
  have "5000 \<noteq> 1000 + 16 * unat i" "5000 \<noteq> 1000 + 16 * unat i + 8" if "i < 4" for i :: u32
    using that by (simp_all add: word_less_nat_alt)
  then have free: "5000 \<notin> headers (bucket_array 1000 4)"
    by (auto simp: cells_def bucket_array_def list_at_def nodes_def head_of_def tail_of_def)
  have fns: "hash_functions (less_fn ?hs) (hash_fn ?hs)"
    using int_keys.hash_functions_axioms [of of_nat] by simp
  obtain old where "search_result (less_fn ?hs) {} 5000 old" and ins:
    "free_block NULL ?hs (if old = NULL then insert 5000 {} else {}) \<longrightarrow>
       (\<exists>hs' h'. hash_insert NULL h ?hs 5000 = Some (old, hs', h') \<and>
          table_holds ?hs hs' h' (if old = NULL then insert 5000 {} else {}))"
    using hash_table_set [OF fns h(2), of 5000 NULL] free by (auto simp: NULL_def)
  then have "old = NULL" by (simp add: search_result_def split: if_splits)
  then show ?thesis using ins h(1) by (auto simp: free_block_def table_holds_def)
qed

end
