(* ===== verification/Kfile.thy ===== *)
theory Kfile
  imports Bitmap "HOL-Library.Signed_Division"
begin

text \<open>
  Block devices (\<open>devices/block.c\<close>), inodes (\<open>filesys/inode.c\<close>), open files (\<open>filesys/file.c\<close>) and the map of free
  sectors (\<open>filesys/free-map.c\<close>) with its transfer to a file (\<open>lib/kernel/bitmap.c\<close>). The device is an array of
  sectors of 512 bytes; the drivers behind it are not modelled. Structures that the code allocates live in maps
  indexed by their address; a structure that was freed is absent, and using it has the outcome \<^const>\<open>None\<close>. The
  caller's buffer of a read is represented by the bytes stored at its start, whose number is the result of the
  read; the buffer of a write is the list of its bytes.
\<close>

unbundle bit_operations_syntax

section \<open>State\<close>

definition BLOCK_SECTOR_SIZE :: nat where
  "BLOCK_SECTOR_SIZE = 512"

datatype block_type = BLOCK_KERNEL | BLOCK_FILESYS | BLOCK_SCRATCH | BLOCK_SWAP | BLOCK_RAW | BLOCK_FOREIGN

record block =
  type_of :: block_type
  dev_size :: u32
  sectors :: "u32 \<Rightarrow> u8 list"
  read_cnt :: u64
  write_cnt :: u64

record inode_disk =
  start :: u32
  ilength :: int
  magic :: u32

record inode =
  sector :: u32
  open_cnt :: int
  removed :: bool
  deny_write_cnt :: int
  data :: inode_disk

record fs_file =
  file_inode :: ptr
  pos :: int
  deny_write :: bool

record dir =
  dir_inode :: ptr
  dir_pos :: int

text \<open>The variables of the file system. \<open>oom\<close> tells which of the allocations to come fail, and \<open>brk\<close> is an
  address that was never used, which the next successful allocation returns.\<close>

record fs =
  fs_device :: block
  inodes :: "ptr \<Rightarrow> inode option"
  open_inodes :: "ptr list"
  files :: "ptr \<Rightarrow> fs_file option"
  dirs :: "ptr \<Rightarrow> dir option"
  free_map :: bitmap
  free_map_file :: ptr
  oom :: "bool list"
  brk :: ptr

definition fs_malloc :: "fs \<Rightarrow> ptr \<times> fs" where
  "fs_malloc s = (case oom s of
     [] \<Rightarrow> (brk s, s\<lparr>brk := brk s + 1\<rparr>)
   | True # fs \<Rightarrow> (NULL, s\<lparr>oom := fs\<rparr>)
   | False # fs \<Rightarrow> (brk s, s\<lparr>brk := brk s + 1, oom := fs\<rparr>))"

text \<open>The value of an expression of type \<open>off_t\<close>, a signed 32-bit integer.\<close>

definition off_t :: "int \<Rightarrow> int" where
  "off_t i = sint (word_of_int i :: u32)"

text \<open>The bytes of a 32-bit integer in memory, lowest first.\<close>

definition le32 :: "u32 \<Rightarrow> u8 list" where
  "le32 w = [ucast w, ucast (drop_bit 8 w), ucast (drop_bit 16 w), ucast (drop_bit 24 w)]"

definition of_le32 :: "u8 list \<Rightarrow> u32" where
  "of_le32 bs = ucast (bs ! 0) OR push_bit 8 (ucast (bs ! 1)) OR push_bit 16 (ucast (bs ! 2)) OR
     push_bit 24 (ucast (bs ! 3))"

section \<open>Block devices\<close>

definition check_sector :: "u32 \<Rightarrow> block \<Rightarrow> unit option" where
  "check_sector k d = ASSERT (k < dev_size d)"

definition block_read :: "u32 \<Rightarrow> block \<Rightarrow> (u8 list \<times> block) option" where
  "block_read k d = do {
     check_sector k d;
     Some (sectors d k, d\<lparr>read_cnt := read_cnt d + 1\<rparr>)
   }"

definition block_write :: "u32 \<Rightarrow> u8 list \<Rightarrow> block \<Rightarrow> block option" where
  "block_write k bs d = do {
     check_sector k d;
     ASSERT (type_of d \<noteq> BLOCK_FOREIGN);
     Some (d\<lparr>sectors := (sectors d)(k := bs), write_cnt := write_cnt d + 1\<rparr>)
   }"

definition block_size :: "block \<Rightarrow> u32" where
  "block_size d = dev_size d"

text \<open>Reading and writing a sector of \<open>fs_device\<close>.\<close>

definition fs_read :: "u32 \<Rightarrow> fs \<Rightarrow> (u8 list \<times> fs) option" where
  "fs_read k s = do {
     (bs, d) \<leftarrow> block_read k (fs_device s);
     Some (bs, s\<lparr>fs_device := d\<rparr>)
   }"

definition fs_write :: "u32 \<Rightarrow> u8 list \<Rightarrow> fs \<Rightarrow> fs option" where
  "fs_write k bs s = do {
     d \<leftarrow> block_write k bs (fs_device s);
     Some (s\<lparr>fs_device := d\<rparr>)
   }"

section \<open>Reading and writing inodes\<close>

definition INODE_MAGIC :: u32 where
  "INODE_MAGIC = 0x494e4f44"

definition bytes_to_sectors :: "int \<Rightarrow> u32" where
  "bytes_to_sectors sz = word_of_int (off_t (sz + 512 - 1) sdiv 512)"

definition byte_to_sector :: "inode \<Rightarrow> int \<Rightarrow> u32" where
  "byte_to_sector i p =
     (if p < ilength (data i) then start (data i) + word_of_int (p sdiv 512) else - 1)"

definition inode_length :: "ptr \<Rightarrow> fs \<Rightarrow> int option" where
  "inode_length ip s = map_option (\<lambda>i. ilength (data i)) (inodes s ip)"

text \<open>The chunk of one round of the loops of \<open>inode_read_at\<close> and \<open>inode_write_at\<close>: the offset in the sector, the
  bytes left in the sector and the size of the chunk.\<close>

definition chunk :: "inode \<Rightarrow> int \<Rightarrow> int \<Rightarrow> int \<times> int \<times> int" where
  "chunk i sz offset =
     (let sector_ofs = offset smod 512;
          inode_left = off_t (ilength (data i) - offset);
          sector_left = 512 - sector_ofs;
          min_left = (if inode_left < sector_left then inode_left else sector_left)
      in (sector_ofs, sector_left, if sz < min_left then sz else min_left))"

text \<open>The buffer for partial sectors is allocated once; \<open>bounce\<close> tells whether it was. Copying from in front of
  the buffer, for a negative offset, has the outcome \<^const>\<open>None\<close>.\<close>

definition get_bounce :: "bool \<Rightarrow> fs \<Rightarrow> bool \<times> fs" where
  "get_bounce bounce s =
     (if bounce then (True, s) else let (p, s) = fs_malloc s in (p \<noteq> NULL, s))"

partial_function (option) inode_read_loop ::
  "ptr \<Rightarrow> int \<Rightarrow> int \<Rightarrow> u8 list \<Rightarrow> bool \<Rightarrow> fs \<Rightarrow> (u8 list \<times> fs) option" where
  "inode_read_loop ip sz offset buf bounce s =
     (if sz > 0 then do {
        i \<leftarrow> inodes s ip;
        let sector_idx = byte_to_sector i offset;
        let (sector_ofs, sector_left, chunk_size) = chunk i sz offset;
        if chunk_size \<le> 0 then Some (buf, s)
        else if sector_ofs = 0 \<and> chunk_size = 512 then do {
          (bs, s) \<leftarrow> fs_read sector_idx s;
          inode_read_loop ip (sz - chunk_size) (offset + chunk_size) (buf @ bs) bounce s
        } else do {
          let (bounce, s) = get_bounce bounce s;
          if \<not> bounce then Some (buf, s)
          else do {
            (bs, s) \<leftarrow> fs_read sector_idx s;
            ASSERT (sector_ofs \<ge> 0);
            inode_read_loop ip (sz - chunk_size) (offset + chunk_size)
              (buf @ take (nat chunk_size) (drop (nat sector_ofs) bs)) bounce s
          }
        }
      } else Some (buf, s))"

definition inode_read_at :: "ptr \<Rightarrow> int \<Rightarrow> int \<Rightarrow> fs \<Rightarrow> (u8 list \<times> fs) option" where
  "inode_read_at ip sz offset s = inode_read_loop ip sz offset [] False s"

partial_function (option) inode_write_loop ::
  "ptr \<Rightarrow> u8 list \<Rightarrow> int \<Rightarrow> int \<Rightarrow> int \<Rightarrow> bool \<Rightarrow> fs \<Rightarrow> (int \<times> fs) option" where
  "inode_write_loop ip buf sz offset bytes_written bounce s =
     (if sz > 0 then do {
        i \<leftarrow> inodes s ip;
        let sector_idx = byte_to_sector i offset;
        let (sector_ofs, sector_left, chunk_size) = chunk i sz offset;
        if chunk_size \<le> 0 then Some (bytes_written, s)
        else do {
          let bs = take (nat chunk_size) (drop (nat bytes_written) buf);
          if sector_ofs = 0 \<and> chunk_size = 512 then do {
            s \<leftarrow> fs_write sector_idx bs s;
            inode_write_loop ip buf (sz - chunk_size) (offset + chunk_size) (bytes_written + chunk_size) bounce s
          } else do {
            let (bounce, s) = get_bounce bounce s;
            if \<not> bounce then Some (bytes_written, s)
            else do {
              (old, s) \<leftarrow> (if sector_ofs > 0 \<or> chunk_size < sector_left then fs_read sector_idx s
                         else Some (replicate 512 0, s));
              ASSERT (sector_ofs \<ge> 0);
              s \<leftarrow> fs_write sector_idx
                    (take (nat sector_ofs) old @ bs @ drop (nat sector_ofs + nat chunk_size) old) s;
              inode_write_loop ip buf (sz - chunk_size) (offset + chunk_size) (bytes_written + chunk_size) bounce s
            }
          }
        }
      } else Some (bytes_written, s))"

definition inode_write_at :: "ptr \<Rightarrow> u8 list \<Rightarrow> int \<Rightarrow> int \<Rightarrow> fs \<Rightarrow> (int \<times> fs) option" where
  "inode_write_at ip buf sz offset s = do {
     i \<leftarrow> inodes s ip;
     if deny_write_cnt i \<noteq> 0 then Some (0, s)
     else inode_write_loop ip buf sz offset 0 False s
   }"

definition inode_deny_write :: "ptr \<Rightarrow> fs \<Rightarrow> fs option" where
  "inode_deny_write ip s = do {
     i \<leftarrow> inodes s ip;
     let i = i\<lparr>deny_write_cnt := deny_write_cnt i + 1\<rparr>;
     ASSERT (deny_write_cnt i \<le> open_cnt i);
     Some (s\<lparr>inodes := (inodes s)(ip \<mapsto> i)\<rparr>)
   }"

definition inode_allow_write :: "ptr \<Rightarrow> fs \<Rightarrow> fs option" where
  "inode_allow_write ip s = do {
     i \<leftarrow> inodes s ip;
     ASSERT (deny_write_cnt i > 0);
     ASSERT (deny_write_cnt i \<le> open_cnt i);
     Some (s\<lparr>inodes := (inodes s)(ip \<mapsto> i\<lparr>deny_write_cnt := deny_write_cnt i - 1\<rparr>)\<rparr>)
   }"

section \<open>Reading and writing files\<close>

definition file_read :: "ptr \<Rightarrow> int \<Rightarrow> fs \<Rightarrow> (u8 list \<times> fs) option" where
  "file_read fp sz s = do {
     f \<leftarrow> files s fp;
     (bs, s) \<leftarrow> inode_read_at (file_inode f) sz (pos f) s;
     Some (bs, s\<lparr>files := (files s)(fp \<mapsto> f\<lparr>pos := off_t (pos f + int (length bs))\<rparr>)\<rparr>)
   }"

definition file_read_at :: "ptr \<Rightarrow> int \<Rightarrow> int \<Rightarrow> fs \<Rightarrow> (u8 list \<times> fs) option" where
  "file_read_at fp sz file_ofs s = do {
     f \<leftarrow> files s fp;
     inode_read_at (file_inode f) sz file_ofs s
   }"

definition file_write :: "ptr \<Rightarrow> u8 list \<Rightarrow> int \<Rightarrow> fs \<Rightarrow> (int \<times> fs) option" where
  "file_write fp buf sz s = do {
     f \<leftarrow> files s fp;
     (n, s) \<leftarrow> inode_write_at (file_inode f) buf sz (pos f) s;
     Some (n, s\<lparr>files := (files s)(fp \<mapsto> f\<lparr>pos := off_t (pos f + n)\<rparr>)\<rparr>)
   }"

definition file_write_at :: "ptr \<Rightarrow> u8 list \<Rightarrow> int \<Rightarrow> int \<Rightarrow> fs \<Rightarrow> (int \<times> fs) option" where
  "file_write_at fp buf sz file_ofs s = do {
     f \<leftarrow> files s fp;
     inode_write_at (file_inode f) buf sz file_ofs s
   }"

definition file_deny_write :: "ptr \<Rightarrow> fs \<Rightarrow> fs option" where
  "file_deny_write fp s = do {
     ASSERT (fp \<noteq> NULL);
     f \<leftarrow> files s fp;
     if \<not> deny_write f
     then inode_deny_write (file_inode f) (s\<lparr>files := (files s)(fp \<mapsto> f\<lparr>deny_write := True\<rparr>)\<rparr>)
     else Some s
   }"

definition file_allow_write :: "ptr \<Rightarrow> fs \<Rightarrow> fs option" where
  "file_allow_write fp s = do {
     ASSERT (fp \<noteq> NULL);
     f \<leftarrow> files s fp;
     if deny_write f
     then inode_allow_write (file_inode f) (s\<lparr>files := (files s)(fp \<mapsto> f\<lparr>deny_write := False\<rparr>)\<rparr>)
     else Some s
   }"

definition file_length :: "ptr \<Rightarrow> fs \<Rightarrow> int option" where
  "file_length fp s = do {
     ASSERT (fp \<noteq> NULL);
     f \<leftarrow> files s fp;
     inode_length (file_inode f) s
   }"

definition file_seek :: "ptr \<Rightarrow> int \<Rightarrow> fs \<Rightarrow> fs option" where
  "file_seek fp new_pos s = do {
     ASSERT (fp \<noteq> NULL);
     ASSERT (new_pos \<ge> 0);
     f \<leftarrow> files s fp;
     Some (s\<lparr>files := (files s)(fp \<mapsto> f\<lparr>pos := new_pos\<rparr>)\<rparr>)
   }"

definition file_tell :: "ptr \<Rightarrow> fs \<Rightarrow> int option" where
  "file_tell fp s = do {
     ASSERT (fp \<noteq> NULL);
     f \<leftarrow> files s fp;
     Some (pos f)
   }"

definition file_get_inode :: "ptr \<Rightarrow> fs \<Rightarrow> ptr option" where
  "file_get_inode fp s = map_option file_inode (files s fp)"

section \<open>The free map\<close>

definition bitmap_file_size :: "bitmap \<Rightarrow> u32" where
  "bitmap_file_size b = byte_cnt (bit_cnt b)"

definition bitmap_write :: "bitmap \<Rightarrow> ptr \<Rightarrow> fs \<Rightarrow> (bool \<times> fs) option" where
  "bitmap_write b fp s = do {
     let sz = sint (byte_cnt (bit_cnt b));
     (n, s) \<leftarrow> file_write_at fp (concat (map le32 (bits b))) sz 0 s;
     Some (n = sz, s)
   }"

text \<open>The elements of an array whose first bytes are overwritten.\<close>

fun elems_of :: "u8 list \<Rightarrow> u32 list" where
  "elems_of (a # b # c # d # bs) = of_le32 [a, b, c, d] # elems_of bs"
| "elems_of _ = []"

definition bitmap_read :: "bitmap \<Rightarrow> ptr \<Rightarrow> fs \<Rightarrow> (bool \<times> bitmap \<times> fs) option" where
  "bitmap_read b fp s =
     (if bit_cnt b > 0 then do {
        let sz = sint (byte_cnt (bit_cnt b));
        (bs, s) \<leftarrow> file_read_at fp sz 0 s;
        let b = b\<lparr>bits := elems_of (bs @ drop (length bs) (concat (map le32 (bits b))))\<rparr>;
        b \<leftarrow> update_elem b (elem_cnt (bit_cnt b) - 1) (\<lambda>e. e AND last_mask b);
        Some (int (length bs) = sz, b, s)
      } else Some (True, b, s))"

definition FREE_MAP_SECTOR :: u32 where
  "FREE_MAP_SECTOR = 0"

definition ROOT_DIR_SECTOR :: u32 where
  "ROOT_DIR_SECTOR = 1"

definition free_map_init :: "elem_type list \<Rightarrow> fs \<Rightarrow> fs option" where
  "free_map_init block s = do {
     let (p, s) = fs_malloc s;
     let (q, s) = fs_malloc s;
     r \<leftarrow> bitmap_create (p \<noteq> NULL) (if q = NULL then None else Some block) (block_size (fs_device s));
     b \<leftarrow> r;
     b \<leftarrow> bitmap_mark b FREE_MAP_SECTOR;
     b \<leftarrow> bitmap_mark b ROOT_DIR_SECTOR;
     Some (s\<lparr>free_map := b\<rparr>)
   }"

definition free_map_allocate :: "u32 \<Rightarrow> fs \<Rightarrow> (u32 option \<times> fs) option" where
  "free_map_allocate cnt s = do {
     (sec, b) \<leftarrow> bitmap_scan_and_flip (free_map s) 0 cnt False;
     let s = s\<lparr>free_map := b\<rparr>;
     if sec \<noteq> BITMAP_ERROR \<and> free_map_file s \<noteq> NULL then do {
       (ok, s) \<leftarrow> bitmap_write (free_map s) (free_map_file s) s;
       if \<not> ok then do {
         b \<leftarrow> bitmap_set_multiple (free_map s) sec cnt False;
         Some (None, s\<lparr>free_map := b\<rparr>)
       } else Some (Some sec, s)
     } else Some (if sec \<noteq> BITMAP_ERROR then Some sec else None, s)
   }"

definition free_map_release :: "u32 \<Rightarrow> u32 \<Rightarrow> fs \<Rightarrow> fs option" where
  "free_map_release sec cnt s = do {
     a \<leftarrow> bitmap_all (free_map s) sec cnt;
     ASSERT a;
     b \<leftarrow> bitmap_set_multiple (free_map s) sec cnt False;
     (_, s) \<leftarrow> bitmap_write b (free_map_file s) (s\<lparr>free_map := b\<rparr>);
     Some s
   }"

section \<open>Creating, opening and closing inodes\<close>

definition inode_init :: "fs \<Rightarrow> fs" where
  "inode_init s = s\<lparr>open_inodes := []\<rparr>"

text \<open>The sector of a \<open>struct inode_disk\<close>, and the structure in a sector.\<close>

definition inode_disk_bytes :: "inode_disk \<Rightarrow> u8 list" where
  "inode_disk_bytes i = le32 (start i) @ le32 (word_of_int (ilength i)) @ le32 (magic i) @ replicate 500 0"

definition inode_disk_of :: "u8 list \<Rightarrow> inode_disk" where
  "inode_disk_of bs = \<lparr>start = of_le32 bs, ilength = sint (of_le32 (drop 4 bs)), magic = of_le32 (drop 8 bs)\<rparr>"

partial_function (option) write_zeros :: "u32 \<Rightarrow> u32 \<Rightarrow> u32 \<Rightarrow> fs \<Rightarrow> fs option" where
  "write_zeros st n i s =
     (if i < n then do {
        s \<leftarrow> fs_write (st + i) (replicate 512 0) s;
        write_zeros st n (i + 1) s
      } else Some s)"

definition inode_create :: "u32 \<Rightarrow> int \<Rightarrow> fs \<Rightarrow> (bool \<times> fs) option" where
  "inode_create sec len s = do {
     ASSERT (len \<ge> 0);
     let (p, s) = fs_malloc s;
     if p \<noteq> NULL then do {
       let n = bytes_to_sectors len;
       (r, s) \<leftarrow> free_map_allocate n s;
       case r of
         Some st \<Rightarrow> do {
           s \<leftarrow> fs_write sec (inode_disk_bytes \<lparr>start = st, ilength = len, magic = INODE_MAGIC\<rparr>) s;
           s \<leftarrow> (if n > 0 then write_zeros st n 0 s else Some s);
           Some (True, s)
         }
       | None \<Rightarrow> Some (False, s)
     } else Some (False, s)
   }"

definition inode_reopen :: "ptr \<Rightarrow> fs \<Rightarrow> (ptr \<times> fs) option" where
  "inode_reopen ip s =
     (if ip \<noteq> NULL then do {
        i \<leftarrow> inodes s ip;
        Some (ip, s\<lparr>inodes := (inodes s)(ip \<mapsto> i\<lparr>open_cnt := open_cnt i + 1\<rparr>)\<rparr>)
      } else Some (ip, s))"

text \<open>The search for an inode that is already open.\<close>

fun find_open :: "u32 \<Rightarrow> ptr list \<Rightarrow> fs \<Rightarrow> ptr option option" where
  "find_open sec [] s = Some None"
| "find_open sec (ip # ips) s = do {
     i \<leftarrow> inodes s ip;
     if sector i = sec then Some (Some ip) else find_open sec ips s
   }"

definition inode_open :: "u32 \<Rightarrow> fs \<Rightarrow> (ptr \<times> fs) option" where
  "inode_open sec s = do {
     r \<leftarrow> find_open sec (open_inodes s) s;
     case r of
       Some ip \<Rightarrow> inode_reopen ip s
     | None \<Rightarrow> do {
         let (ip, s) = fs_malloc s;
         if ip = NULL then Some (NULL, s)
         else do {
           let s = s\<lparr>open_inodes := ip # open_inodes s\<rparr>;
           (bs, s) \<leftarrow> fs_read sec s;
           Some (ip, s\<lparr>inodes := (inodes s)(ip \<mapsto> \<lparr>sector = sec, open_cnt = 1, removed = False,
             deny_write_cnt = 0, data = inode_disk_of bs\<rparr>)\<rparr>)
         }
       }
   }"

definition inode_get_inumber :: "ptr \<Rightarrow> fs \<Rightarrow> u32 option" where
  "inode_get_inumber ip s = map_option sector (inodes s ip)"

definition inode_close :: "ptr \<Rightarrow> fs \<Rightarrow> fs option" where
  "inode_close ip s =
     (if ip = NULL then Some s
      else do {
        i \<leftarrow> inodes s ip;
        let i = i\<lparr>open_cnt := open_cnt i - 1\<rparr>;
        let s = s\<lparr>inodes := (inodes s)(ip \<mapsto> i)\<rparr>;
        if open_cnt i = 0 then do {
          ASSERT (ip \<in> set (open_inodes s));
          let s = s\<lparr>open_inodes := remove1 ip (open_inodes s)\<rparr>;
          s \<leftarrow> (if removed i then do {
                  s \<leftarrow> free_map_release (sector i) 1 s;
                  free_map_release (start (data i)) (bytes_to_sectors (ilength (data i))) s
                } else Some s);
          Some (s\<lparr>inodes := (inodes s)(ip := None)\<rparr>)
        } else Some s
      })"

definition inode_remove :: "ptr \<Rightarrow> fs \<Rightarrow> fs option" where
  "inode_remove ip s = do {
     ASSERT (ip \<noteq> NULL);
     i \<leftarrow> inodes s ip;
     Some (s\<lparr>inodes := (inodes s)(ip \<mapsto> i\<lparr>removed := True\<rparr>)\<rparr>)
   }"

section \<open>Opening and closing files\<close>

definition file_open :: "ptr \<Rightarrow> fs \<Rightarrow> (ptr \<times> fs) option" where
  "file_open ip s = do {
     let (fp, s) = fs_malloc s;
     if ip \<noteq> NULL \<and> fp \<noteq> NULL
     then Some (fp, s\<lparr>files := (files s)(fp \<mapsto> \<lparr>file_inode = ip, pos = 0, deny_write = False\<rparr>)\<rparr>)
     else do {
       s \<leftarrow> inode_close ip s;
       Some (NULL, s)
     }
   }"

definition file_reopen :: "ptr \<Rightarrow> fs \<Rightarrow> (ptr \<times> fs) option" where
  "file_reopen fp s = do {
     f \<leftarrow> files s fp;
     (ip, s) \<leftarrow> inode_reopen (file_inode f) s;
     file_open ip s
   }"

definition file_close :: "ptr \<Rightarrow> fs \<Rightarrow> fs option" where
  "file_close fp s =
     (if fp \<noteq> NULL then do {
        s \<leftarrow> file_allow_write fp s;
        f \<leftarrow> files s fp;
        s \<leftarrow> inode_close (file_inode f) s;
        Some (s\<lparr>files := (files s)(fp := None)\<rparr>)
      } else Some s)"

section \<open>Opening and closing the free map\<close>

definition free_map_open :: "fs \<Rightarrow> fs option" where
  "free_map_open s = do {
     (ip, s) \<leftarrow> inode_open FREE_MAP_SECTOR s;
     (fp, s) \<leftarrow> file_open ip s;
     let s = s\<lparr>free_map_file := fp\<rparr>;
     ASSERT (fp \<noteq> NULL);
     (ok, b, s) \<leftarrow> bitmap_read (free_map s) fp s;
     ASSERT ok;
     Some (s\<lparr>free_map := b\<rparr>)
   }"

definition free_map_close :: "fs \<Rightarrow> fs option" where
  "free_map_close s = file_close (free_map_file s) s"

definition free_map_create :: "fs \<Rightarrow> fs option" where
  "free_map_create s = do {
     (ok, s) \<leftarrow> inode_create FREE_MAP_SECTOR (sint (bitmap_file_size (free_map s))) s;
     ASSERT ok;
     (ip, s) \<leftarrow> inode_open FREE_MAP_SECTOR s;
     (fp, s) \<leftarrow> file_open ip s;
     let s = s\<lparr>free_map_file := fp\<rparr>;
     ASSERT (fp \<noteq> NULL);
     (ok, s) \<leftarrow> bitmap_write (free_map s) fp s;
     ASSERT ok;
     Some s
   }"

declare inode_read_loop.simps [code]
  inode_write_loop.simps [code]
  write_zeros.simps [code]

end
