(* ===== verification/Kdir.thy ===== *)
theory Kdir
  imports Kfile
begin

text \<open>
  Directories (\<open>filesys/directory.c\<close>) and the operations on file names (\<open>filesys/filesys.c\<close>). A directory is a
  file of entries of 20 bytes: the sector of the inode, the name in 15 bytes, and whether the entry is in use. A
  name is the list of its characters in front of the terminating null character.
\<close>

section \<open>Entries\<close>

definition NAME_MAX :: nat where
  "NAME_MAX = 14"

record dir_entry =
  inode_sector :: u32
  entry_name :: "u8 list"
  in_use :: bool

text \<open>The structure in the 20 bytes of an entry, and its bytes.\<close>

definition entry_of :: "u8 list \<Rightarrow> dir_entry" where
  "entry_of bs = \<lparr>inode_sector = of_le32 bs, entry_name = take 15 (drop 4 bs), in_use = (bs ! 19 \<noteq> 0)\<rparr>"

definition entry_bytes :: "dir_entry \<Rightarrow> u8 list" where
  "entry_bytes e = le32 (inode_sector e) @ entry_name e @ [if in_use e then 1 else 0]"

text \<open>The characters of a string in front of its terminating null character.\<close>

definition cstr :: "u8 list \<Rightarrow> u8 list" where
  "cstr bs = takeWhile (\<lambda>b. b \<noteq> 0) bs"

section \<open>Opening and closing directories\<close>

definition dir_create :: "u32 \<Rightarrow> u32 \<Rightarrow> fs \<Rightarrow> (bool \<times> fs) option" where
  "dir_create sec entry_cnt s = inode_create sec (sint (entry_cnt * 20)) s"

definition dir_open :: "ptr \<Rightarrow> fs \<Rightarrow> (ptr \<times> fs) option" where
  "dir_open ip s = do {
     let (dp, s) = fs_malloc s;
     if ip \<noteq> NULL \<and> dp \<noteq> NULL
     then Some (dp, s\<lparr>dirs := (dirs s)(dp \<mapsto> \<lparr>dir_inode = ip, dir_pos = 0\<rparr>)\<rparr>)
     else do {
       s \<leftarrow> inode_close ip s;
       Some (NULL, s)
     }
   }"

definition dir_open_root :: "fs \<Rightarrow> (ptr \<times> fs) option" where
  "dir_open_root s = do {
     (ip, s) \<leftarrow> inode_open ROOT_DIR_SECTOR s;
     dir_open ip s
   }"

definition dir_reopen :: "ptr \<Rightarrow> fs \<Rightarrow> (ptr \<times> fs) option" where
  "dir_reopen dp s = do {
     d \<leftarrow> dirs s dp;
     (ip, s) \<leftarrow> inode_reopen (dir_inode d) s;
     dir_open ip s
   }"

definition dir_close :: "ptr \<Rightarrow> fs \<Rightarrow> fs option" where
  "dir_close dp s =
     (if dp \<noteq> NULL then do {
        d \<leftarrow> dirs s dp;
        s \<leftarrow> inode_close (dir_inode d) s;
        Some (s\<lparr>dirs := (dirs s)(dp := None)\<rparr>)
      } else Some s)"

definition dir_get_inode :: "ptr \<Rightarrow> fs \<Rightarrow> ptr option" where
  "dir_get_inode dp s = map_option dir_inode (dirs s dp)"

section \<open>Looking up, adding and removing names\<close>

partial_function (option) lookup_loop ::
  "ptr \<Rightarrow> u8 list \<Rightarrow> u32 \<Rightarrow> fs \<Rightarrow> ((dir_entry \<times> u32) option \<times> fs) option" where
  "lookup_loop ip nm ofs s = do {
     (bs, s) \<leftarrow> inode_read_at ip 20 (sint ofs) s;
     if length bs = 20 then
       let e = entry_of bs
       in if in_use e \<and> nm = cstr (entry_name e) then Some (Some (e, ofs), s)
          else lookup_loop ip nm (ofs + 20) s
     else Some (None, s)
   }"

definition lookup :: "ptr \<Rightarrow> u8 list \<Rightarrow> fs \<Rightarrow> ((dir_entry \<times> u32) option \<times> fs) option" where
  "lookup dp nm s = do {
     ASSERT (dp \<noteq> NULL);
     d \<leftarrow> dirs s dp;
     lookup_loop (dir_inode d) nm 0 s
   }"

definition dir_lookup :: "ptr \<Rightarrow> u8 list \<Rightarrow> fs \<Rightarrow> (ptr \<times> fs) option" where
  "dir_lookup dp nm s = do {
     ASSERT (dp \<noteq> NULL);
     (r, s) \<leftarrow> lookup dp nm s;
     case r of
       Some (e, _) \<Rightarrow> inode_open (inode_sector e) s
     | None \<Rightarrow> Some (NULL, s)
   }"

text \<open>The search of \<open>dir_add\<close> for a free slot. The local variable \<open>e\<close> holds the bytes read last; a short read
  leaves the others alone.\<close>

partial_function (option) free_slot_loop ::
  "ptr \<Rightarrow> u8 list \<Rightarrow> int \<Rightarrow> fs \<Rightarrow> (int \<times> u8 list \<times> fs) option" where
  "free_slot_loop ip e ofs s = do {
     (bs, s) \<leftarrow> inode_read_at ip 20 ofs s;
     let e = bs @ drop (length bs) e;
     if length bs = 20 \<and> in_use (entry_of e) then free_slot_loop ip e (off_t (ofs + 20)) s
     else Some (ofs, e, s)
   }"

text \<open>\<open>strlcpy\<close> into the name of an entry: the characters of the name and a null character, in front of what was
  there.\<close>

definition set_name :: "u8 list \<Rightarrow> u8 list \<Rightarrow> u8 list" where
  "set_name nm old = take 14 nm @ [0] @ drop (length (take 14 nm) + 1) old"

definition dir_add :: "u8 list \<Rightarrow> ptr \<Rightarrow> u8 list \<Rightarrow> u32 \<Rightarrow> fs \<Rightarrow> (bool \<times> fs) option" where
  "dir_add e dp nm sec s = do {
     ASSERT (dp \<noteq> NULL);
     if nm = [] \<or> length nm > NAME_MAX then Some (False, s)
     else do {
       (r, s) \<leftarrow> lookup dp nm s;
       if r \<noteq> None then Some (False, s)
       else do {
         d \<leftarrow> dirs s dp;
         (ofs, e, s) \<leftarrow> free_slot_loop (dir_inode d) e 0 s;
         let e = entry_bytes \<lparr>inode_sector = sec, entry_name = set_name nm (entry_name (entry_of e)), in_use = True\<rparr>;
         (n, s) \<leftarrow> inode_write_at (dir_inode d) e 20 ofs s;
         Some (n = 20, s)
       }
     }
   }"

definition dir_remove :: "ptr \<Rightarrow> u8 list \<Rightarrow> fs \<Rightarrow> (bool \<times> fs) option" where
  "dir_remove dp nm s = do {
     ASSERT (dp \<noteq> NULL);
     (r, s) \<leftarrow> lookup dp nm s;
     case r of
       None \<Rightarrow> Some (False, s)
     | Some (e, ofs) \<Rightarrow> do {
         (ip, s) \<leftarrow> inode_open (inode_sector e) s;
         if ip = NULL then Some (False, s)
         else do {
           d \<leftarrow> dirs s dp;
           (n, s) \<leftarrow> inode_write_at (dir_inode d) (entry_bytes (e\<lparr>in_use := False\<rparr>)) 20 (sint ofs) s;
           if n \<noteq> 20 then do {
             s \<leftarrow> inode_close ip s;
             Some (False, s)
           } else do {
             s \<leftarrow> inode_remove ip s;
             s \<leftarrow> inode_close ip s;
             Some (True, s)
           }
         }
       }
   }"

partial_function (option) dir_readdir :: "ptr \<Rightarrow> fs \<Rightarrow> (u8 list option \<times> fs) option" where
  "dir_readdir dp s = do {
     d \<leftarrow> dirs s dp;
     (bs, s) \<leftarrow> inode_read_at (dir_inode d) 20 (dir_pos d) s;
     if length bs = 20 then do {
       let s = s\<lparr>dirs := (dirs s)(dp \<mapsto> d\<lparr>dir_pos := off_t (dir_pos d + 20)\<rparr>)\<rparr>;
       let e = entry_of bs;
       if in_use e then Some (Some (take NAME_MAX (cstr (entry_name e))), s) else dir_readdir dp s
     } else Some (None, s)
   }"

section \<open>The file system\<close>

definition do_format :: "fs \<Rightarrow> fs option" where
  "do_format s = do {
     s \<leftarrow> free_map_create s;
     (ok, s) \<leftarrow> dir_create ROOT_DIR_SECTOR 16 s;
     ASSERT ok;
     free_map_close s
   }"

text \<open>The device with the role of the file system is an argument, \<^const>\<open>None\<close> when there is none.\<close>

definition filesys_init :: "block option \<Rightarrow> elem_type list \<Rightarrow> bool \<Rightarrow> fs \<Rightarrow> fs option" where
  "filesys_init device map_block format s = do {
     d \<leftarrow> device;
     let s = s\<lparr>fs_device := d\<rparr>;
     let s = inode_init s;
     s \<leftarrow> free_map_init map_block s;
     s \<leftarrow> (if format then do_format s else Some s);
     free_map_open s
   }"

definition filesys_done :: "fs \<Rightarrow> fs option" where
  "filesys_done s = free_map_close s"

definition filesys_create :: "u8 list \<Rightarrow> u8 list \<Rightarrow> int \<Rightarrow> fs \<Rightarrow> (bool \<times> fs) option" where
  "filesys_create e nm initial_size s = do {
     (dp, s) \<leftarrow> dir_open_root s;
     (success, isec, s) \<leftarrow>
       (if dp \<noteq> NULL then do {
          (r, s) \<leftarrow> free_map_allocate 1 s;
          case r of
            None \<Rightarrow> Some (False, 0, s)
          | Some isec \<Rightarrow> do {
              (ok, s) \<leftarrow> inode_create isec initial_size s;
              (ok, s) \<leftarrow> (if ok then dir_add e dp nm isec s else Some (False, s));
              Some (ok, isec, s)
            }
        } else Some (False, 0, s));
     s \<leftarrow> (if \<not> success \<and> isec \<noteq> 0 then free_map_release isec 1 s else Some s);
     s \<leftarrow> dir_close dp s;
     Some (success, s)
   }"

definition filesys_open :: "u8 list \<Rightarrow> fs \<Rightarrow> (ptr \<times> fs) option" where
  "filesys_open nm s = do {
     (dp, s) \<leftarrow> dir_open_root s;
     (ip, s) \<leftarrow> (if dp \<noteq> NULL then dir_lookup dp nm s else Some (NULL, s));
     s \<leftarrow> dir_close dp s;
     file_open ip s
   }"

definition filesys_remove :: "u8 list \<Rightarrow> fs \<Rightarrow> (bool \<times> fs) option" where
  "filesys_remove nm s = do {
     (dp, s) \<leftarrow> dir_open_root s;
     (success, s) \<leftarrow> (if dp \<noteq> NULL then dir_remove dp nm s else Some (False, s));
     s \<leftarrow> dir_close dp s;
     Some (success, s)
   }"

declare lookup_loop.simps [code]
  free_slot_loop.simps [code]
  dir_readdir.simps [code]

end
