(* ===== verification/Kstdio.thy ===== *)
theory Kstdio
  imports Kstdlib
begin

text \<open>
  Formatted output (\<open>lib/stdio.c\<close>). The format and the strings are read from the byte memory of the string
  functions; the arguments of a variadic call are the 32-bit words on the stack behind the format, from which an
  \<open>int\<close> or a pointer takes one and a 64-bit integer takes two. The characters passed to the function \<open>output\<close> are the
  result of a conversion, in their order; \<open>vsnprintf\<close> then stores them. Taking an argument that is not there has the
  outcome \<^const>\<open>None\<close>. The buffer of \<open>vsnprintf\<close> does not overlap the format or the arguments.
\<close>

unbundle bit_operations_syntax

section \<open>Conversions\<close>

definition MINUS :: u32 where
  "MINUS = push_bit 0 1"

definition PLUS :: u32 where
  "PLUS = push_bit 1 1"

definition SPACE :: u32 where
  "SPACE = push_bit 2 1"

definition POUND :: u32 where
  "POUND = push_bit 3 1"

definition ZERO :: u32 where
  "ZERO = push_bit 4 1"

definition GROUP :: u32 where
  "GROUP = push_bit 5 1"

datatype conv_type = CHAR_T | SHORT_T | INT_T | INTMAX_T | LONG_T | LONGLONG_T | PTRDIFFT_T | SIZET_T

record printf_conversion =
  flags :: u32
  width :: int
  precision :: int
  conv :: conv_type

record integer_base =
  base :: u64
  digits :: "u8 list"
  x_char :: u8
  group :: nat

definition base_d :: integer_base where
  "base_d = \<lparr>base = 10, digits = [48, 49, 50, 51, 52, 53, 54, 55, 56, 57], x_char = 0, group = 3\<rparr>"

definition base_o :: integer_base where
  "base_o = \<lparr>base = 8, digits = [48, 49, 50, 51, 52, 53, 54, 55], x_char = 0, group = 3\<rparr>"

definition base_x :: integer_base where
  "base_x = \<lparr>base = 16, digits = [48, 49, 50, 51, 52, 53, 54, 55, 56, 57, 97, 98, 99, 100, 101, 102],
     x_char = 120, group = 4\<rparr>"

definition base_X :: integer_base where
  "base_X = \<lparr>base = 16, digits = [48, 49, 50, 51, 52, 53, 54, 55, 56, 57, 65, 66, 67, 68, 69, 70],
     x_char = 88, group = 4\<rparr>"

text \<open>The value of an expression of type \<open>int\<close>.\<close>

definition c_int :: "int \<Rightarrow> int" where
  "c_int i = sint (word_of_int i :: u32)"

text \<open>\<open>va_arg\<close> for a 32-bit and for a 64-bit type.\<close>

fun va_arg32 :: "u32 list \<Rightarrow> (u32 \<times> u32 list) option" where
  "va_arg32 (a # args) = Some (a, args)"
| "va_arg32 [] = None"

fun va_arg64 :: "u32 list \<Rightarrow> (u64 \<times> u32 list) option" where
  "va_arg64 (a # b # args) = Some (ucast a OR push_bit 32 (ucast b), args)"
| "va_arg64 _ = None"

section \<open>Parsing a conversion\<close>

text \<open>The flag characters.\<close>

partial_function (option) parse_flags :: "mem \<Rightarrow> ptr \<Rightarrow> u32 \<Rightarrow> (ptr \<times> u32) option" where
  "parse_flags m f fl =
     (if m f = 45 then parse_flags m (f + 1) (fl OR MINUS)
      else if m f = 43 then parse_flags m (f + 1) (fl OR PLUS)
      else if m f = 32 then parse_flags m (f + 1) (fl OR SPACE)
      else if m f = 35 then parse_flags m (f + 1) (fl OR POUND)
      else if m f = 48 then parse_flags m (f + 1) (fl OR ZERO)
      else if m f = 39 then parse_flags m (f + 1) (fl OR GROUP)
      else Some (f, fl))"

text \<open>The digits of a field width or a precision.\<close>

partial_function (option) parse_number :: "mem \<Rightarrow> ptr \<Rightarrow> int \<Rightarrow> (ptr \<times> int) option" where
  "parse_number m f n =
     (if isdigit (sint (m f)) then parse_number m (f + 1) (c_int (n * 10 + sint (m f) - 48)) else Some (f, n))"

definition parse_width :: "mem \<Rightarrow> ptr \<Rightarrow> u32 list \<Rightarrow> (ptr \<times> int \<times> u32 list) option" where
  "parse_width m f args =
     (if m f = 42 then do {
        (w, args) \<leftarrow> va_arg32 args;
        Some (f + 1, sint w, args)
      } else do {
        (f, w) \<leftarrow> parse_number m f 0;
        Some (f, w, args)
      })"

definition parse_precision :: "mem \<Rightarrow> ptr \<Rightarrow> u32 list \<Rightarrow> (ptr \<times> int \<times> u32 list) option" where
  "parse_precision m f args =
     (if m f = 46 then do {
        (f, p, args) \<leftarrow> (if m (f + 1) = 42 then do {
            (p, args) \<leftarrow> va_arg32 args;
            Some (f + 2, sint p, args)
          } else do {
            (f, p) \<leftarrow> parse_number m (f + 1) 0;
            Some (f, p, args)
          });
        Some (f, if p < 0 then - 1 else p, args)
      } else Some (f, - 1, args))"

definition parse_type :: "mem \<Rightarrow> ptr \<Rightarrow> ptr \<times> conv_type" where
  "parse_type m f =
     (if m f = 104 then (if m (f + 1) = 104 then (f + 2, CHAR_T) else (f + 1, SHORT_T))
      else if m f = 106 then (f + 1, INTMAX_T)
      else if m f = 108 then (if m (f + 1) = 108 then (f + 2, LONGLONG_T) else (f + 1, LONG_T))
      else if m f = 116 then (f + 1, PTRDIFFT_T)
      else if m f = 122 then (f + 1, SIZET_T)
      else (f, INT_T))"

definition parse_conversion :: "mem \<Rightarrow> ptr \<Rightarrow> u32 list \<Rightarrow> (ptr \<times> printf_conversion \<times> u32 list) option" where
  "parse_conversion m f args = do {
     (f, fl) \<leftarrow> parse_flags m f 0;
     let fl = (if fl AND MINUS \<noteq> 0 then fl AND NOT ZERO else fl);
     let fl = (if fl AND PLUS \<noteq> 0 then fl AND NOT SPACE else fl);
     (f, w, args) \<leftarrow> parse_width m f args;
     let (w, fl) = (if w < 0 then (c_int (- w), fl OR MINUS) else (w, fl));
     (f, p, args) \<leftarrow> parse_precision m f args;
     let fl = (if p \<ge> 0 then fl AND NOT ZERO else fl);
     let (f, t) = parse_type m f;
     Some (f, \<lparr>flags = fl, width = w, precision = p, conv = t\<rparr>, args)
   }"

section \<open>Formatting\<close>

definition output_dup :: "u8 \<Rightarrow> int \<Rightarrow> u8 list" where
  "output_dup ch cnt = replicate (nat cnt) ch"

text \<open>The loop that accumulates digits, lowest first, in the buffer of 64 characters; a longer result would
  overflow it.\<close>

partial_function (option) format_digits ::
  "integer_base \<Rightarrow> u32 \<Rightarrow> u64 \<Rightarrow> nat \<Rightarrow> u8 list \<Rightarrow> u8 list option" where
  "format_digits b fl val digit_cnt buf =
     (if val > 0 then do {
        let buf = (if fl AND GROUP \<noteq> 0 \<and> digit_cnt > 0 \<and> digit_cnt mod group b = 0 then buf @ [44] else buf);
        let buf = buf @ [digits b ! unat (val mod base b)];
        ASSERT (length buf \<le> 64);
        format_digits b fl (val div base b) (digit_cnt + 1) buf
      } else Some buf)"

text \<open>The zeros that fill up the precision.\<close>

function pad_zeros :: "int \<Rightarrow> u8 list \<Rightarrow> u8 list" where
  "pad_zeros prec buf = (if int (length buf) < prec \<and> length buf < 63 then pad_zeros prec (buf @ [48]) else buf)"
  by auto
termination by (relation "measure (\<lambda>(prec, buf). 63 - length buf)") auto

definition format_integer ::
  "u64 \<Rightarrow> bool \<Rightarrow> bool \<Rightarrow> integer_base \<Rightarrow> printf_conversion \<Rightarrow> u8 list option" where
  "format_integer val is_signed negative b c = do {
     let fl = flags c;
     let sign = (if is_signed then
         if fl AND PLUS \<noteq> 0 then (if negative then [45] else [43])
         else if fl AND SPACE \<noteq> 0 then (if negative then [45] else [32])
         else if negative then [45] else []
       else []);
     let x = (if fl AND POUND \<noteq> 0 \<and> val \<noteq> 0 then x_char b else 0);
     buf \<leftarrow> format_digits b fl val 0 [];
     let prec = (if precision c < 0 then 1 else precision c);
     let buf = pad_zeros prec buf;
     let buf = (if fl AND POUND \<noteq> 0 \<and> base b = 8 \<and> (buf = [] \<or> last buf \<noteq> 48) then buf @ [48] else buf);
     ASSERT (length buf \<le> 64);
     let pad_cnt = width c - int (length buf) - (if x \<noteq> 0 then 2 else 0) - int (length sign);
     let pad_cnt = (if pad_cnt < 0 then 0 else pad_cnt);
     Some ((if fl AND (MINUS OR ZERO) = 0 then output_dup 32 pad_cnt else []) @
       sign @
       (if x \<noteq> 0 then [48, x] else []) @
       (if fl AND ZERO \<noteq> 0 then output_dup 48 pad_cnt else []) @
       rev buf @
       (if fl AND MINUS \<noteq> 0 then output_dup 32 pad_cnt else []))
   }"

definition format_string :: "u8 list \<Rightarrow> printf_conversion \<Rightarrow> u8 list" where
  "format_string str c =
     (let n = int (length str)
      in (if width c > n \<and> flags c AND MINUS = 0 then output_dup 32 (width c - n) else []) @ str @
         (if width c > n \<and> flags c AND MINUS \<noteq> 0 then output_dup 32 (width c - n) else []))"

text \<open>The value of the argument of a signed and of an unsigned conversion, as a 64-bit integer.\<close>

definition signed_arg :: "conv_type \<Rightarrow> u32 list \<Rightarrow> (int \<times> u32 list) option" where
  "signed_arg t args = (case t of
     CHAR_T \<Rightarrow> do { (a, args) \<leftarrow> va_arg32 args; Some (sint (ucast a :: u8), args) }
   | SHORT_T \<Rightarrow> do { (a, args) \<leftarrow> va_arg32 args; Some (sint (ucast a :: 16 word), args) }
   | INTMAX_T \<Rightarrow> do { (a, args) \<leftarrow> va_arg64 args; Some (sint a, args) }
   | LONGLONG_T \<Rightarrow> do { (a, args) \<leftarrow> va_arg64 args; Some (sint a, args) }
   | SIZET_T \<Rightarrow> do { (a, args) \<leftarrow> va_arg32 args; Some (if uint a > 2147483647 then uint a - 4294967295 - 1 else uint a, args) }
   | _ \<Rightarrow> do { (a, args) \<leftarrow> va_arg32 args; Some (sint a, args) })"

definition unsigned_arg :: "conv_type \<Rightarrow> u32 list \<Rightarrow> (u64 \<times> u32 list) option" where
  "unsigned_arg t args = (case t of
     CHAR_T \<Rightarrow> do { (a, args) \<leftarrow> va_arg32 args; Some (ucast (ucast a :: u8), args) }
   | SHORT_T \<Rightarrow> do { (a, args) \<leftarrow> va_arg32 args; Some (ucast (ucast a :: 16 word), args) }
   | INTMAX_T \<Rightarrow> va_arg64 args
   | LONGLONG_T \<Rightarrow> va_arg64 args
   | PTRDIFFT_T \<Rightarrow> do { (a, args) \<leftarrow> va_arg32 args; Some (scast a AND (push_bit 1 0x7FFFFFFF OR 1), args) }
   | _ \<Rightarrow> do { (a, args) \<leftarrow> va_arg32 args; Some (ucast a, args) })"

text \<open>The string of a string conversion, limited by the precision: \<open>(null)\<close> for a null pointer.\<close>

definition string_arg :: "mem \<Rightarrow> ptr \<Rightarrow> int \<Rightarrow> u8 list option" where
  "string_arg m s prec =
     (let maxlen = unat (word_of_int prec :: u32)
      in if s = NULL then Some (take maxlen [40, 110, 117, 108, 108, 41])
         else do {
           n \<leftarrow> strnlen m s maxlen;
           Some (map m [s..<s + n])
         })"

text \<open>What is printed for a conversion that is not supported.\<close>

definition no_conversion :: "u8 \<Rightarrow> u8 list" where
  "no_conversion ch =
     (if ch \<in> {102, 101, 69, 103, 71, 110}
      then [60, 60, 110, 111, 32, 37] @ [ch] @ [32, 105, 110, 32, 107, 101, 114, 110, 101, 108, 62, 62]
      else [60, 60, 110, 111, 32, 37] @ [ch] @ [32, 99, 111, 110, 118, 101, 114, 115, 105, 111, 110, 62, 62])"

definition convert :: "mem \<Rightarrow> u8 \<Rightarrow> printf_conversion \<Rightarrow> u32 list \<Rightarrow> (u8 list \<times> u32 list) option" where
  "convert m ch c args =
     (if ch = 100 \<or> ch = 105 then do {
        (v, args) \<leftarrow> signed_arg (conv c) args;
        out \<leftarrow> format_integer (if v < 0 then word_of_int (- v) else word_of_int v) True (v < 0) base_d c;
        Some (out, args)
      } else if ch = 111 \<or> ch = 117 \<or> ch = 120 \<or> ch = 88 then do {
        (v, args) \<leftarrow> unsigned_arg (conv c) args;
        let b = (if ch = 111 then base_o else if ch = 117 then base_d else if ch = 120 then base_x else base_X);
        out \<leftarrow> format_integer v False False b c;
        Some (out, args)
      } else if ch = 99 then do {
        (a, args) \<leftarrow> va_arg32 args;
        Some (format_string [ucast a] c, args)
      } else if ch = 115 then do {
        (s, args) \<leftarrow> va_arg32 args;
        str \<leftarrow> string_arg m (unat s) (precision c);
        Some (format_string str c, args)
      } else if ch = 112 then do {
        (p, args) \<leftarrow> va_arg32 args;
        out \<leftarrow> format_integer (ucast p) False False base_x (c\<lparr>flags := POUND\<rparr>);
        Some (out, args)
      } else Some (no_conversion ch, args))"

text \<open>The loop of \<open>__vprintf\<close>, with the characters output so far.\<close>

partial_function (option) vprintf_loop :: "mem \<Rightarrow> ptr \<Rightarrow> u32 list \<Rightarrow> u8 list \<Rightarrow> u8 list option" where
  "vprintf_loop m f args out =
     (if m f \<noteq> 0 then
        if m f \<noteq> 37 then vprintf_loop m (f + 1) args (out @ [m f])
        else if m (f + 1) = 37 then vprintf_loop m (f + 2) args (out @ [37])
        else do {
          (f, c, args) \<leftarrow> parse_conversion m (f + 1) args;
          (s, args) \<leftarrow> convert m (m f) c args;
          vprintf_loop m (f + 1) args (out @ s)
        }
      else Some out)"

definition vprintf_format :: "mem \<Rightarrow> ptr \<Rightarrow> u32 list \<Rightarrow> u8 list option" where
  "vprintf_format m f args = vprintf_loop m f args []"

section \<open>Output to a buffer\<close>

record vsnprintf_aux =
  aux_p :: ptr
  aux_length :: int
  max_length :: int

definition vsnprintf_helper :: "u8 \<Rightarrow> vsnprintf_aux \<times> mem \<Rightarrow> vsnprintf_aux \<times> mem" where
  "vsnprintf_helper ch = (\<lambda>(aux, m).
     let len = aux_length aux; aux = aux\<lparr>aux_length := c_int (len + 1)\<rparr>
     in if len < max_length aux then (aux\<lparr>aux_p := aux_p aux + 1\<rparr>, m(aux_p aux := ch)) else (aux, m))"

definition vsnprintf :: "mem \<Rightarrow> ptr \<Rightarrow> nat \<Rightarrow> ptr \<Rightarrow> u32 list \<Rightarrow> (int \<times> mem) option" where
  "vsnprintf m buffer buf_size f args = do {
     let aux = \<lparr>aux_p = buffer, aux_length = 0, max_length = (if buf_size > 0 then c_int (int (buf_size - 1)) else 0)\<rparr>;
     out \<leftarrow> vprintf_format m f args;
     let (aux, m) = fold vsnprintf_helper out (aux, m);
     let m = (if buf_size > 0 then m(aux_p aux := 0) else m);
     Some (aux_length aux, m)
   }"

definition snprintf :: "mem \<Rightarrow> ptr \<Rightarrow> nat \<Rightarrow> ptr \<Rightarrow> u32 list \<Rightarrow> (int \<times> mem) option" where
  "snprintf m buffer buf_size f args = vsnprintf m buffer buf_size f args"

section \<open>Dumps and sizes\<close>

text \<open>\<open>printf\<close> with a literal format: the characters it prints.\<close>

definition literal :: "string \<Rightarrow> mem" where
  "literal str = (\<lambda>p. if 1 \<le> p \<and> p \<le> length str then of_nat (of_char (str ! (p - 1))) else 0)"

definition printf :: "string \<Rightarrow> u32 list \<Rightarrow> u8 list option" where
  "printf str args = vprintf_format (literal str) 1 args"

primrec print_all :: "u8 list option list \<Rightarrow> u8 list option" where
  "print_all [] = Some []"
| "print_all (x # xs) = do { a \<leftarrow> x; b \<leftarrow> print_all xs; Some (a @ b) }"

text \<open>One line of a dump: the bytes of the line, at positions \<open>start\<close> up to \<open>end\<close> of 16.\<close>

definition hex_line :: "u32 \<Rightarrow> u8 list \<Rightarrow> nat \<Rightarrow> nat \<Rightarrow> bool \<Rightarrow> u8 list option" where
  "hex_line ofs buf start lend ascii = print_all (
     [printf ''%08jx  '' [(ofs div 16) * 16, 0]] @
     map (\<lambda>i. printf ''   '' []) [0..<start] @
     map (\<lambda>i. printf ''%02hhx%c'' [ucast (buf ! (i - start)), if i = 16 div 2 - 1 then 45 else 32]) [start..<lend] @
     (if ascii then
        map (\<lambda>i. printf ''   '' []) [lend..<16] @
        [printf ''|'' []] @
        map (\<lambda>i. printf '' '' []) [0..<start] @
        map (\<lambda>i. printf ''%c'' [if isprint (uint (buf ! (i - start))) then ucast (buf ! (i - start)) else 46]) [start..<lend] @
        map (\<lambda>i. printf '' '' []) [lend..<16] @
        [printf ''|'' []]
      else []) @
     [printf [CHR 0x0A] []])"

text \<open>The bytes at \<open>buf\<close> are a list; its length is the size.\<close>

function hex_dump :: "u32 \<Rightarrow> u8 list \<Rightarrow> bool \<Rightarrow> u8 list option" where
  "hex_dump ofs buf ascii =
     (if length buf > 0 then
        let start = unat (ofs mod 16);
            lend = (if 16 - start > length buf then start + length buf else 16);
            n = lend - start
        in do {
          a \<leftarrow> hex_line ofs buf start lend ascii;
          b \<leftarrow> hex_dump (ofs + of_nat n) (drop n buf) ascii;
          Some (a @ b)
        }
      else Some [])"
  by auto
termination
proof (relation "measure (\<lambda>(ofs, buf, ascii). length buf)", goal_cases)
  case (2 ofs buf ascii start lend n)
  have "unat (ofs mod 16) < 16" by (simp add: unat_mod)
  then show ?case using 2 by auto
qed simp

definition size_factors :: "string list" where
  "size_factors = [''bytes'', ''kB'', ''MB'', ''GB'', ''TB'']"

fun human_loop :: "u64 \<Rightarrow> string list \<Rightarrow> u64 \<times> string" where
  "human_loop sz (a # b # fs) = (if sz \<ge> 1024 then human_loop (sz div 1024) (b # fs) else (sz, a))"
| "human_loop sz fs = (sz, hd fs)"

text \<open>The conversion \<open>%s\<close> of the unit prints its characters.\<close>

definition print_human_readable_size :: "u64 \<Rightarrow> u8 list option" where
  "print_human_readable_size sz =
     (if sz = 1 then printf ''1 byte'' []
      else let (sz, unit_name) = human_loop sz size_factors
           in print_all [printf ''%llu '' [ucast sz, ucast (drop_bit 32 sz)], printf unit_name []])"

declare parse_flags.simps [code]
  parse_number.simps [code]
  format_digits.simps [code]
  vprintf_loop.simps [code]

declare pad_zeros.simps [simp del] hex_dump.simps [simp del]

section \<open>Storing the output\<close>

lemma c_int_small: "- (2 ^ 31) \<le> i \<Longrightarrow> i < 2 ^ 31 \<Longrightarrow> c_int i = i"
  by (simp add: c_int_def sint_of_int_small)

text \<open>Memory with the bytes \<open>bs\<close> stored at \<open>b\<close>.\<close>

definition stored :: "mem \<Rightarrow> ptr \<Rightarrow> u8 list \<Rightarrow> mem" where
  "stored m b bs = (\<lambda>a. if b \<le> a \<and> a < b + length bs then bs ! (a - b) else m a)"

lemma stored_Nil [simp]: "stored m b [] = m"
  by (auto simp: stored_def fun_eq_iff)

lemma stored_Cons: "stored (m(b := c)) (b + 1) bs = stored m b (c # bs)"
proof
  fix a
  show "stored (m(b := c)) (b + 1) bs a = stored m b (c # bs) a"
    by (cases "a = b"; cases "b < a"; auto simp: stored_def nth_Cons')
qed

lemma vsnprintf_helper_fold:
  assumes "k + length out < 2 ^ 31"
  shows "fold vsnprintf_helper out (\<lparr>aux_p = b + min k M, aux_length = int k, max_length = int M\<rparr>, m) =
    (\<lparr>aux_p = b + min (k + length out) M, aux_length = int (k + length out), max_length = int M\<rparr>,
     stored m (b + min k M) (take (M - k) out))"
  using assms
proof (induction out arbitrary: k m)
  case (Cons c out)
  have "int (Suc k) < 2 ^ 31" using Cons.prems by (simp flip: of_nat_less_iff)
  then have len: "c_int (int k + 1) = int (Suc k)" by (subst c_int_small) simp_all
  show ?case
  proof (cases "k < M")
    case True
    then have "fold vsnprintf_helper (c # out) (\<lparr>aux_p = b + min k M, aux_length = int k, max_length = int M\<rparr>, m) =
      fold vsnprintf_helper out (\<lparr>aux_p = b + min (Suc k) M, aux_length = int (Suc k), max_length = int M\<rparr>, m(b + k := c))"
      by (simp add: vsnprintf_helper_def Let_def len)
    also have "\<dots> = (\<lparr>aux_p = b + min (Suc k + length out) M, aux_length = int (Suc k + length out), max_length = int M\<rparr>,
        stored (m(b + k := c)) (b + min (Suc k) M) (take (M - Suc k) out))"
      using Cons.prems by (intro Cons.IH) simp
    also have "stored (m(b + k := c)) (b + min (Suc k) M) (take (M - Suc k) out) = stored m (b + min k M) (take (M - k) (c # out))"
      using True stored_Cons [of m "b + k" c "take (M - Suc k) out"] by (simp add: min_def Suc_diff_Suc take_Cons')
    finally show ?thesis by simp
  next
    case False
    then have "fold vsnprintf_helper (c # out) (\<lparr>aux_p = b + min k M, aux_length = int k, max_length = int M\<rparr>, m) =
      fold vsnprintf_helper out (\<lparr>aux_p = b + min (Suc k) M, aux_length = int (Suc k), max_length = int M\<rparr>, m)"
      by (simp add: vsnprintf_helper_def Let_def len)
    also have "\<dots> = (\<lparr>aux_p = b + min (Suc k + length out) M, aux_length = int (Suc k + length out), max_length = int M\<rparr>,
        stored m (b + min (Suc k) M) (take (M - Suc k) out))"
      using Cons.prems by (intro Cons.IH) simp
    finally show ?thesis using False by simp
  qed
qed simp

text \<open>The buffer receives as much of the output as there is room for, and a null character.\<close>

lemma vsnprintf_ok:
  assumes out: "vprintf_format m f args = Some out" and "length out < 2 ^ 31" and n: "0 < n" "n \<le> 2 ^ 31"
  shows "vsnprintf m b n f args = Some (int (length out), stored m b (take (n - 1) out @ [0]))"
proof -
  have "int (n - 1) < 2 ^ 31" using n by (simp flip: of_nat_less_iff)
  then have M: "c_int (int (n - 1)) = int (n - 1)" by (subst c_int_small) simp_all
  have M': "c_int (int n - 1) = int n - 1" using M n by (simp add: of_nat_diff)
  have st: "(stored m b bs)(b + length bs := v) = stored m b (bs @ [v])" for bs v
    by (auto simp: stored_def fun_eq_iff nth_append)
  have "(stored m b (take (n - 1) out))(b + min (length out) (n - 1) := 0) = stored m b (take (n - 1) out @ [0])"
    using st [of "take (n - 1) out" 0] by simp
  then show ?thesis
    using vsnprintf_helper_fold [of 0 out b "n - 1" m] assms(2) n
    by (simp add: vsnprintf_def out M' Let_def of_nat_diff)
qed

lemma stored_cstring: "0 \<notin> set bs \<Longrightarrow> cstring (stored m b (bs @ [0])) b bs"
proof (induction bs arbitrary: b m)
  case (Cons c bs)
  have "stored m b ((c # bs) @ [0]) = stored (m(b := c)) (b + 1) (bs @ [0])" by (simp only: stored_Cons append_Cons)
  moreover have "stored m b ((c # bs) @ [0]) b = c" by (simp add: stored_def)
  ultimately show ?case using Cons.IH [of "m(b := c)" "b + 1"] Cons.prems by (simp del: append_Cons fun_upd_apply)
qed (simp add: stored_def)

section \<open>Decimal integers\<close>

text \<open>The digits of a number, lowest first.\<close>

fun dec_digits :: "nat \<Rightarrow> u8 list" where
  "dec_digits n = (if n = 0 then [] else (48 + of_nat (n mod 10)) # dec_digits (n div 10))"

declare dec_digits.simps [simp del]

lemma dec_digits_0 [simp]: "dec_digits 0 = []"
  by (simp add: dec_digits.simps)

lemma uint_digit: "uint (48 + of_nat (n mod 10) :: u8) = 48 + int (n mod 10)"
proof -
  have "n mod 10 < 10" by simp
  then have "uint (of_nat (n mod 10) :: u8) = int (n mod 10)" by (simp add: uint_nat unat_of_nat)
  then show ?thesis using \<open>n mod 10 < 10\<close> by (simp add: uint_word_ariths)
qed

lemma dec_digits_isdigit: "c \<in> set (dec_digits n) \<Longrightarrow> isdigit (uint c)"
proof (induction n rule: dec_digits.induct)
  case (1 n)
  then show ?case using uint_digit [of n] by (subst (asm) (2) dec_digits.simps) (auto simp: isdigit_def split: if_splits)
qed

lemma dec_digits_value: "decimal (rev (dec_digits n)) = int n"
proof (induction n rule: dec_digits.induct)
  case (1 n)
  show ?case
  proof (cases "n = 0")
    case False
    have "decimal (rev (dec_digits n)) = decimal (rev (dec_digits (n div 10))) * 10 + int (n mod 10)"
      using False uint_digit [of n] by (subst dec_digits.simps) (simp add: decimal_def)
    also have "\<dots> = int (n div 10) * 10 + int (n mod 10)" using 1 False by simp
    also have "\<dots> = int n" by presburger
    finally show ?thesis .
  qed (simp add: decimal_def)
qed

lemma dec_digits_length: "n < 10 ^ k \<Longrightarrow> length (dec_digits n) \<le> k"
proof (induction k arbitrary: n)
  case (Suc k)
  then have "n div 10 < 10 ^ k" by (simp add: less_mult_imp_div_less mult.commute)
  then show ?case using Suc.IH by (subst dec_digits.simps) simp
qed simp

lemma nth_digits_d: "d < 10 \<Longrightarrow> digits base_d ! d = 48 + of_nat d"
proof -
  assume "d < 10"
  moreover have "digits base_d = map (\<lambda>d. 48 + of_nat d) [0..<10]" by (simp add: base_d_def upt_rec)
  ultimately show ?thesis by simp
qed

lemma format_digits_dec:
  assumes "fl AND GROUP = 0" and "length buf + length (dec_digits (unat v)) \<le> 64"
  shows "format_digits base_d fl v k buf = Some (buf @ dec_digits (unat v))"
  using assms(2)
proof (induction "unat v" arbitrary: v k buf rule: less_induct)
  case less
  show ?case
  proof (cases "v = 0")
    case True
    then show ?thesis by (subst format_digits.simps) simp
  next
    case False
    have v: "unat (v div 10) = unat v div 10" "unat (v mod 10) = unat v mod 10" by (simp_all add: unat_div unat_mod)
    have pos: "unat v > 0" using False by (simp add: unat_gt_0)
    then have dd: "dec_digits (unat v) = (48 + of_nat (unat v mod 10)) # dec_digits (unat v div 10)"
      by (subst dec_digits.simps) simp
    have "digits base_d ! (unat v mod 10) = 48 + of_nat (unat v mod 10)" by (rule nth_digits_d) simp
    moreover have "base base_d = 10" by (simp add: base_d_def)
    ultimately have "format_digits base_d fl v k buf =
        format_digits base_d fl (v div 10) (k + 1) (buf @ [48 + of_nat (unat v mod 10)])"
      using False less.prems dd assms(1) v by (subst format_digits.simps) (simp add: word_gt_0 Let_def)
    also have "\<dots> = Some ((buf @ [48 + of_nat (unat v mod 10)]) @ dec_digits (unat (v div 10)))"
      using less.prems dd v pos by (intro less.hyps) simp_all
    finally show ?thesis using dd v by simp
  qed
qed

text \<open>The conversion \<open>%d\<close> of an integer.\<close>

definition dec_text :: "int \<Rightarrow> u8 list" where
  "dec_text i = (if i < 0 then [45] else []) @ rev (if i = 0 then [48] else dec_digits (nat \<bar>i\<bar>))"

lemma format_integer_dec:
  assumes "\<bar>i\<bar> < 10 ^ 10"
  shows "format_integer (if i < 0 then word_of_int (- i) else word_of_int i) True (i < 0) base_d
    \<lparr>flags = 0, width = 0, precision = - 1, conv = INT_T\<rparr> = Some (dec_text i)"
proof -
  let ?v = "if i < 0 then word_of_int (- i) else word_of_int i :: u64"
  have v: "unat ?v = nat \<bar>i\<bar>"
  proof -
    have "\<bar>i\<bar> < 2 ^ 64" using assms by simp
    then have "uint (word_of_int \<bar>i\<bar> :: u64) = \<bar>i\<bar>" by (simp add: uint_word_of_int)
    moreover have "?v = word_of_int \<bar>i\<bar>" by auto
    ultimately show ?thesis by (simp only: unat_eq_nat_uint)
  qed
  have "nat \<bar>i\<bar> < 10 ^ 10" using assms by (simp add: nat_less_iff)
  then have len: "length (dec_digits (nat \<bar>i\<bar>)) \<le> 10" by (rule dec_digits_length)
  then have buf: "format_digits base_d 0 ?v 0 [] = Some (dec_digits (nat \<bar>i\<bar>))"
    using format_digits_dec [of 0 "[]" ?v 0] v by simp
  have pad: "pad_zeros 1 (dec_digits (nat \<bar>i\<bar>)) = (if i = 0 then [48] else dec_digits (nat \<bar>i\<bar>))"
  proof (cases "i = 0")
    case True
    then show ?thesis by (simp add: pad_zeros.simps)
  next
    case False
    then have "length (dec_digits (nat \<bar>i\<bar>)) > 0" by (subst dec_digits.simps) simp
    then show ?thesis using False by (subst pad_zeros.simps) simp
  qed
  define ds where "ds = (if i = 0 then [48] else dec_digits (nat \<bar>i\<bar>))"
  define w where "w = ?v"
  have "length ds \<le> 64" using len by (simp add: ds_def)
  then show ?thesis
    unfolding w_def [symmetric] using buf [folded w_def] pad [folded ds_def]
    by (simp add: format_integer_def Let_def output_dup_def dec_text_def flip: ds_def)
qed

lemma vprintf_format_d:
  assumes "m f = 37" "m (f + 1) = 100" "m (f + 2) = 0"
  shows "vprintf_format m f (x # args) = Some (dec_text (sint x))"
proof -
  have b: "\<bar>sint x\<bar> < 10 ^ 10" using sint_ge [of x] sint_lt [of x] by auto
  have parse: "parse_conversion m (f + 1) (x # args) =
      Some (f + 1, \<lparr>flags = 0, width = 0, precision = - 1, conv = INT_T\<rparr>, x # args)"
    using assms by (simp add: parse_conversion_def parse_width_def parse_precision_def parse_type_def
        parse_flags.simps [of m "Suc f"] parse_number.simps [of m "Suc f"] isdigit_def Let_def)
  have conv: "convert m 100 \<lparr>flags = 0, width = 0, precision = - 1, conv = INT_T\<rparr> (x # args) = Some (dec_text (sint x), args)"
    using format_integer_dec [OF b] by (simp add: convert_def signed_arg_def)
  have "vprintf_loop m f (x # args) [] = vprintf_loop m (f + 2) args (dec_text (sint x))"
    using assms parse conv by (subst vprintf_loop.simps) simp
  also have "\<dots> = Some (dec_text (sint x))" using assms by (subst vprintf_loop.simps) simp
  finally show ?thesis by (simp add: vprintf_format_def)
qed

lemma dec_text_length: "length (dec_text (sint (x :: u32))) \<le> 11" "dec_text i \<noteq> []"
proof -
  have "\<bar>sint x\<bar> < 10 ^ 10" using sint_ge [of x] sint_lt [of x] by auto
  then have "nat \<bar>sint x\<bar> < 10 ^ 10" by (simp add: nat_less_iff)
  then have "length (dec_digits (nat \<bar>sint x\<bar>)) \<le> 10" by (rule dec_digits_length)
  then show "length (dec_text (sint x)) \<le> 11" by (auto simp: dec_text_def abs_if)
  show "dec_text i \<noteq> []" by (simp add: dec_text_def) (subst dec_digits.simps, simp)
qed

lemma dec_text_digits:
  obtains ds where "dec_text i = (if i < 0 then [45] else []) @ ds" "ds \<noteq> []" "\<forall>c\<in>set ds. isdigit (uint c)"
    "decimal ds = \<bar>i\<bar>"
proof
  let ?ds = "rev (if i = 0 then [48] else dec_digits (nat \<bar>i\<bar>))"
  show "dec_text i = (if i < 0 then [45] else []) @ ?ds" by (simp add: dec_text_def)
  show "?ds \<noteq> []" by simp (subst dec_digits.simps, simp)
  show "\<forall>c\<in>set ?ds. isdigit (uint c)" using dec_digits_isdigit by (auto simp: isdigit_def)
  show "decimal ?ds = \<bar>i\<bar>" using dec_digits_value [of "nat \<bar>i\<bar>"] by (simp add: decimal_def)
qed

section \<open>Properties\<close>

text \<open>C10: printing an integer and reading it back gives the integer: the characters that \<open>snprintf\<close> stores for the
  format \<open>%d\<close>, into a buffer of at least 12 bytes, are read by \<open>atoi\<close> as the integer, for all 32-bit integers including
  the smallest. The result of \<open>snprintf\<close> is the length of the text, and no byte outside the first 12 of the buffer is
  written.\<close>

theorem snprintf_atoi:
  fixes m :: mem and x :: u32
  assumes "m f = 37" "m (f + 1) = 100" "m (f + 2) = 0" and "b \<noteq> NULL" and "12 \<le> n" "n \<le> 2 ^ 31"
    and "f + 3 \<le> b \<or> b + n \<le> f"
  shows "\<exists>m' len. snprintf m b n f [x] = Some (int len, m') \<and> atoi m' b = Some x \<and> m' (b + len) = 0 \<and>
    0 < len \<and> len \<le> 11 \<and> (\<forall>a. a < b \<or> b + 12 \<le> a \<longrightarrow> m' a = m a)"
proof -
  let ?t = "dec_text (sint x)" and ?m = "stored m b (dec_text (sint x) @ [0])"
  have len: "length ?t \<le> 11" by (rule dec_text_length)
  then have out: "snprintf m b n f [x] = Some (int (length ?t), ?m)"
    using vsnprintf_ok [OF vprintf_format_d [OF assms(1-3), of x "[]"], of n b] assms(5,6)
    by (simp add: snprintf_def)
  obtain ds where ds: "?t = (if sint x < 0 then [45] else []) @ ds" "ds \<noteq> []" "\<forall>c\<in>set ds. isdigit (uint c)"
    "decimal ds = \<bar>sint x\<bar>" by (rule dec_text_digits)
  have "0 \<notin> set ds" using ds(3) by (auto simp: isdigit_def)
  then have "0 \<notin> set ?t" by (simp add: ds(1))
  then have cs: "cstring ?m b ?t" by (rule stored_cstring)
  have "atoi ?m b = Some (word_of_int (if (if sint x < 0 then [45] else []) = [45::u8] then - decimal ds else decimal ds))"
    using cs ds(2,3) assms(4)
    by (intro atoi_decimal [of b ?m "[]" "if sint x < 0 then [45] else []" ds "[]"]) (simp_all add: ds(1))
  also have "(if (if sint x < 0 then [45] else []) = [45::u8] then - decimal ds else decimal ds) = sint x"
    by (simp add: ds(4))
  finally have "atoi ?m b = Some x" by simp
  moreover have "?m (b + length ?t) = 0" by (simp add: stored_def)
  moreover have "\<forall>a. a < b \<or> b + 12 \<le> a \<longrightarrow> ?m a = m a" using len by (auto simp: stored_def)
  moreover have "0 < length ?t" using dec_text_length(2) by simp
  ultimately show ?thesis using out len by (intro exI [of _ ?m] exI [of _ "length ?t"]) simp
qed

theorem snprintf_atoi_witness:
  "\<exists>m' len. snprintf ((\<lambda>_. 0)(8 := 37, 9 := 100)) 100 12 8 [0x80000000] = Some (int len, m') \<and>
     atoi m' 100 = Some 0x80000000"
proof -
  let ?m = "(\<lambda>_. 0)(8 := 37, 9 := 100) :: mem"
  have "?m 8 = 37" "?m (8 + 1) = 100" "?m (8 + 2) = 0" "100 \<noteq> NULL" "12 \<le> (12::nat)" "(12::nat) \<le> 2 ^ 31"
    "8 + 3 \<le> (100::nat) \<or> 100 + 12 \<le> (8::nat)" by (simp_all add: NULL_def)
  from snprintf_atoi [OF this, where x = "0x80000000"] show ?thesis by (elim exE conjE) (intro exI conjI)
qed

end
