(* ===== verification/Kload.thy ===== *)
theory Kload
  imports Kpaging_Props Kdir Kstdio
begin

text \<open>
  The loader of \<open>userprog/process.c\<close>: executable and program headers, the check of a segment, the loading of
  segments into user pages, and the first stack of a process with its arguments. Three states are passed along: the
  bytes of memory (\<open>mem\<close>, as in the string functions), the page pools and page tables (\<open>vm\<close>) and the file system
  (\<open>fs\<close>). The bytes of a user page are kept at their user addresses: what the code stores through the kernel address
  of a frame is stored at the user address that the new mapping takes to it. A store to a user address that no page
  table maps is a page fault in the kernel, which panics.
\<close>

unbundle bit_operations_syntax

section \<open>Headers\<close>

type_synonym u16 = "16 word"

record Elf32_Ehdr =
  e_ident :: "u8 list"
  e_type :: u16
  e_machine :: u16
  e_version :: u32
  e_entry :: u32
  e_phoff :: u32
  e_shoff :: u32
  e_flags :: u32
  e_ehsize :: u16
  e_phentsize :: u16
  e_phnum :: u16
  e_shentsize :: u16
  e_shnum :: u16
  e_shstrndx :: u16

record Elf32_Phdr =
  p_type :: u32
  p_offset :: u32
  p_vaddr :: u32
  p_paddr :: u32
  p_filesz :: u32
  p_memsz :: u32
  p_flags :: u32
  p_align :: u32

text \<open>The structures in the bytes read from the file.\<close>

definition of_le16 :: "u8 list \<Rightarrow> u16" where
  "of_le16 bs = ucast (bs ! 0) OR push_bit 8 (ucast (bs ! 1))"

definition ehdr_of :: "u8 list \<Rightarrow> Elf32_Ehdr" where
  "ehdr_of bs = \<lparr>e_ident = take 16 bs, e_type = of_le16 (drop 16 bs), e_machine = of_le16 (drop 18 bs),
     e_version = of_le32 (drop 20 bs), e_entry = of_le32 (drop 24 bs), e_phoff = of_le32 (drop 28 bs),
     e_shoff = of_le32 (drop 32 bs), e_flags = of_le32 (drop 36 bs), e_ehsize = of_le16 (drop 40 bs),
     e_phentsize = of_le16 (drop 42 bs), e_phnum = of_le16 (drop 44 bs), e_shentsize = of_le16 (drop 46 bs),
     e_shnum = of_le16 (drop 48 bs), e_shstrndx = of_le16 (drop 50 bs)\<rparr>"

definition phdr_of :: "u8 list \<Rightarrow> Elf32_Phdr" where
  "phdr_of bs = \<lparr>p_type = of_le32 bs, p_offset = of_le32 (drop 4 bs), p_vaddr = of_le32 (drop 8 bs),
     p_paddr = of_le32 (drop 12 bs), p_filesz = of_le32 (drop 16 bs), p_memsz = of_le32 (drop 20 bs),
     p_flags = of_le32 (drop 24 bs), p_align = of_le32 (drop 28 bs)\<rparr>"

section \<open>Segments\<close>

definition validate_segment :: "Elf32_Phdr \<Rightarrow> ptr \<Rightarrow> fs \<Rightarrow> bool option" where
  "validate_segment p fp f =
     (if p_offset p AND PGMASK \<noteq> p_vaddr p AND PGMASK then Some False
      else do {
        len \<leftarrow> file_length fp f;
        if p_offset p > word_of_int len then Some False
        else if p_memsz p < p_filesz p then Some False
        else if p_memsz p = 0 then Some False
        else if \<not> is_user_vaddr (p_vaddr p) then Some False
        else if \<not> is_user_vaddr (p_vaddr p + p_memsz p) then Some False
        else if p_vaddr p + p_memsz p < p_vaddr p then Some False
        else if p_vaddr p < PGSIZE32 then Some False
        else Some True
      })"

partial_function (option) load_segment_loop ::
  "ptr \<Rightarrow> u32 \<Rightarrow> u32 \<Rightarrow> u32 \<Rightarrow> bool \<Rightarrow> mem \<Rightarrow> vm \<Rightarrow> fs \<Rightarrow> (bool \<times> mem \<times> vm \<times> fs) option" where
  "load_segment_loop fp upage read_bytes zero_bytes writable m s f =
     (if read_bytes > 0 \<or> zero_bytes > 0 then do {
        let page_read_bytes = (if read_bytes < PGSIZE32 then read_bytes else PGSIZE32);
        let page_zero_bytes = PGSIZE32 - page_read_bytes;
        (kp, s) \<leftarrow> palloc_page {PAL_USER} upage writable s;
        if kp = 0 then Some (False, m, s, f)
        else do {
          (bs, f) \<leftarrow> file_read fp (sint page_read_bytes) f;
          let m = stored m (unat upage) bs;
          if int (length bs) \<noteq> sint page_read_bytes then do {
            s \<leftarrow> palloc_free_upage upage s;
            Some (False, m, s, f)
          } else do {
            (_, m) \<leftarrow> memset m (unat upage + unat page_read_bytes) 0 (unat page_zero_bytes);
            load_segment_loop fp (upage + PGSIZE32) (read_bytes - page_read_bytes) (zero_bytes - page_zero_bytes)
              writable m s f
          }
        }
      } else Some (True, m, s, f))"

definition load_segment ::
  "ptr \<Rightarrow> int \<Rightarrow> u32 \<Rightarrow> u32 \<Rightarrow> u32 \<Rightarrow> bool \<Rightarrow> mem \<Rightarrow> vm \<Rightarrow> fs \<Rightarrow> (bool \<times> mem \<times> vm \<times> fs) option" where
  "load_segment fp ofs upage read_bytes zero_bytes writable m s f = do {
     ASSERT ((read_bytes + zero_bytes) mod PGSIZE32 = 0);
     ASSERT (pg_ofs upage = 0);
     ASSERT (ofs smod 4096 = 0);
     f \<leftarrow> file_seek fp ofs f;
     load_segment_loop fp upage read_bytes zero_bytes writable m s f
   }"

text \<open>The bytes to read and to clear for a segment.\<close>

definition segment_bytes :: "Elf32_Phdr \<Rightarrow> u32 \<times> u32" where
  "segment_bytes p = (
     let page_offset = p_vaddr p AND PGMASK;
         total = DIV_ROUND_UP (page_offset + p_memsz p) PGSIZE32 * PGSIZE32
     in if p_filesz p > 0 then let read_bytes = page_offset + p_filesz p in (read_bytes, total - read_bytes)
        else (0, total))"

text \<open>The program headers still to be read: of the types, 1 is \<open>PT_LOAD\<close>, and 2, 3 and 5 are \<open>PT_DYNAMIC\<close>,
  \<open>PT_INTERP\<close> and \<open>PT_SHLIB\<close>, which end the load; all others are ignored. The bit 2 of the flags is \<open>PF_W\<close>.\<close>

primrec load_headers ::
  "nat \<Rightarrow> ptr \<Rightarrow> int \<Rightarrow> mem \<Rightarrow> vm \<Rightarrow> fs \<Rightarrow> (bool \<times> mem \<times> vm \<times> fs) option" where
  "load_headers 0 fp file_ofs m s f = Some (True, m, s, f)"
| "load_headers (Suc n) fp file_ofs m s f = do {
     len \<leftarrow> file_length fp f;
     if file_ofs < 0 \<or> file_ofs > len then Some (False, m, s, f)
     else do {
       f \<leftarrow> file_seek fp file_ofs f;
       (bs, f) \<leftarrow> file_read fp 32 f;
       if length bs \<noteq> 32 then Some (False, m, s, f)
       else do {
         let phdr = phdr_of bs;
         let file_ofs = off_t (file_ofs + 32);
         if p_type phdr \<in> {2, 3, 5} then Some (False, m, s, f)
         else if p_type phdr = 1 then do {
           ok \<leftarrow> validate_segment phdr fp f;
           if ok then do {
             let writable = (p_flags phdr AND 2 \<noteq> 0);
             let file_page = p_offset phdr AND NOT PGMASK;
             let mem_page = p_vaddr phdr AND NOT PGMASK;
             let (read_bytes, zero_bytes) = segment_bytes phdr;
             (loaded, m, s, f) \<leftarrow> load_segment fp (sint file_page) mem_page read_bytes zero_bytes writable m s f;
             if loaded then load_headers n fp file_ofs m s f else Some (False, m, s, f)
           } else Some (False, m, s, f)
         } else load_headers n fp file_ofs m s f
       }
     }
   }"

section \<open>The stack of a new process\<close>

text \<open>Whether the processor finds a present and writable page for each of the \<open>n\<close> bytes at the user address \<open>a\<close>;
  the kernel runs with the write protection of pages switched on.\<close>

definition writable_page :: "vm \<Rightarrow> u32 \<Rightarrow> bool" where
  "writable_page s va = (case lookup_page (cur_pagedir s) va False s of
     None \<Rightarrow> False
   | Some (pte, _) \<Rightarrow> pte \<noteq> 0 \<and> words s pte AND PTE_P \<noteq> 0 \<and> words s pte AND PTE_W \<noteq> 0)"

definition user_ok :: "vm \<Rightarrow> ptr \<Rightarrow> nat \<Rightarrow> bool" where
  "user_ok s a n = list_all (\<lambda>b. writable_page s (pg_round_down (of_nat b))) [a..<a + n]"

text \<open>A word stored at a user address.\<close>

definition put_user :: "vm \<Rightarrow> ptr \<Rightarrow> u32 \<Rightarrow> mem \<Rightarrow> mem option" where
  "put_user s a w m = do { ASSERT (user_ok s a 4); Some (stored m a (le32 w)) }"

definition size_of_char_arg :: "mem \<Rightarrow> ptr \<Rightarrow> nat option" where
  "size_of_char_arg m arg = do { n \<leftarrow> strlen m arg; Some (n + 1) }"

definition word_align :: "ptr \<Rightarrow> nat \<Rightarrow> ptr" where
  "word_align a sz = a div sz * sz"

definition grow_stack :: "u32 \<Rightarrow> vm \<Rightarrow> (u32 \<times> vm) option" where
  "grow_stack prev s = do {
     let cur = prev - PGSIZE32;
     (kp, s) \<leftarrow> palloc_page {PAL_USER, PAL_ZERO} cur True s;
     Some (if kp \<noteq> 0 then cur else 0, s)
   }"

text \<open>The arguments from the last to the first; the result has their addresses on the stack in the same order.\<close>

primrec push_args :: "ptr list \<Rightarrow> ptr \<Rightarrow> vm \<Rightarrow> mem \<Rightarrow> (ptr list \<times> ptr \<times> mem) option" where
  "push_args [] esp s m = Some ([], esp, m)"
| "push_args (arg # args) esp s m = do {
     arg_size \<leftarrow> size_of_char_arg m arg;
     let esp = esp - arg_size;
     ASSERT (user_ok s esp arg_size);
     (_, m) \<leftarrow> strlcpy m esp arg arg_size;
     (arg_pointers, esp', m) \<leftarrow> push_args args esp s m;
     Some (esp # arg_pointers, esp', m)
   }"

primrec push_pointers :: "ptr list \<Rightarrow> ptr \<Rightarrow> vm \<Rightarrow> mem \<Rightarrow> (bool \<times> ptr \<times> mem) option" where
  "push_pointers [] esp s m = Some (True, esp, m)"
| "push_pointers (p # ps) esp s m =
     (if esp \<ge> unat (PHYS_BASE - PGSIZE32 + 12) then do {
        let esp = esp - 4;
        m \<leftarrow> put_user s esp (of_nat p) m;
        push_pointers ps esp s m
      } else Some (False, esp, m))"

text \<open>The array of the addresses has 50 elements; the stack pointer is left alone when there is no page.\<close>

definition setup_stack :: "ptr list \<Rightarrow> ptr \<Rightarrow> mem \<Rightarrow> vm \<Rightarrow> (bool \<times> ptr \<times> mem \<times> vm) option" where
  "setup_stack argv esp m s = do {
     let upage = PHYS_BASE - PGSIZE32;
     (kp, s) \<leftarrow> palloc_page {PAL_USER, PAL_ZERO} upage True s;
     if kp \<noteq> 0 then do {
       (_, m) \<leftarrow> memset m (unat upage) 0 4096;
       ASSERT (length argv \<le> 50);
       (arg_pointers, esp, m) \<leftarrow> push_args (rev argv) (unat PHYS_BASE) s m;
       let esp = word_align esp 4;
       let esp = esp - 4;
       m \<leftarrow> put_user s esp 0 m;
       (fits, esp, m) \<leftarrow> push_pointers arg_pointers esp s m;
       s \<leftarrow> (if \<not> fits then palloc_free_upage upage s else Some s);
       let esp_prev = esp;
       let esp = esp - 4;
       m \<leftarrow> put_user s esp (of_nat esp_prev) m;
       let esp = esp - 4;
       m \<leftarrow> put_user s esp (of_nat (length argv)) m;
       let esp = esp - 4;
       m \<leftarrow> put_user s esp 0 m;
       Some (fits, esp, m, s)
     } else do {
       s \<leftarrow> palloc_free_upage upage s;
       Some (False, esp, m, s)
     }
   }"

section \<open>Loading an executable\<close>

text \<open>The page directory of the running thread is part of \<open>vm\<close>. The results are whether the load succeeds, the
  executable of the thread, the entry point and the stack pointer; the last two keep their value on failure.\<close>

definition load :: "u8 list \<Rightarrow> ptr list \<Rightarrow> u32 \<Rightarrow> ptr \<Rightarrow> mem \<Rightarrow> vm \<Rightarrow> fs \<Rightarrow>
    ((bool \<times> ptr \<times> u32 \<times> ptr) \<times> mem \<times> vm \<times> fs) option" where
  "load file_name argv eip esp m s f = do {
     (pd, s) \<leftarrow> pagedir_create s;
     let s = s\<lparr>cur_pagedir := pd\<rparr>;
     if pd = 0 then Some ((False, NULL, eip, esp), m, s, f)
     else do {
       s \<leftarrow> pagedir_activate pd s;
       (fp, f) \<leftarrow> filesys_open file_name f;
       if fp = NULL then Some ((False, NULL, eip, esp), m, s, f)
       else do {
         f \<leftarrow> file_deny_write fp f;
         (bs, f) \<leftarrow> file_read fp 52 f;
         let ehdr = ehdr_of bs;
         if length bs \<noteq> 52 \<or> take 7 (e_ident ehdr) \<noteq> [127, 69, 76, 70, 1, 1, 1] \<or> e_type ehdr \<noteq> 2 \<or>
            e_machine ehdr \<noteq> 3 \<or> e_version ehdr \<noteq> 1 \<or> e_phentsize ehdr \<noteq> 32 \<or> e_phnum ehdr > 1024
         then Some ((False, fp, eip, esp), m, s, f)
         else do {
           (loaded, m, s, f) \<leftarrow> load_headers (unat (e_phnum ehdr)) fp (sint (e_phoff ehdr)) m s f;
           if \<not> loaded then Some ((False, fp, eip, esp), m, s, f)
           else do {
             (ok, esp, m, s) \<leftarrow> setup_stack argv esp m s;
             Some ((ok, fp, if ok then e_entry ehdr else eip, esp), m, s, f)
           }
         }
       }
     }
   }"

declare load_segment_loop.simps [code]

end
