(* ===== verification/Kfile_Props.thy ===== *)
theory Kfile_Props
  imports Kfile
begin

text \<open>
  An inode is an array of bytes of fixed length: what \<open>inode_read_at\<close> returns and what \<open>inode_write_at\<close> changes,
  on the bytes of the file and on the sectors of the device.
\<close>

section \<open>Arithmetic of offsets\<close>

lemma smod_512: "0 \<le> a \<Longrightarrow> a smod 512 = a mod 512" for a :: int
  by (simp add: smod_mod_positive)

lemma sdiv_512: "0 \<le> a \<Longrightarrow> a sdiv 512 = a div 512" for a :: int
  using smod_mult_sdiv_eq [of a 512] smod_512 [of a] mult_div_mod_eq [of 512 a] by simp

lemma off_t_small: "- (2 ^ 31) \<le> i \<Longrightarrow> i < 2 ^ 31 \<Longrightarrow> off_t i = i"
  by (simp add: off_t_def sint_of_int_small)

lemma upt_split: "i \<le> j \<Longrightarrow> j \<le> k \<Longrightarrow> [i..<k] = [i..<j] @ [j..<k]"
  using upt_add_eq_append [of i j "k - j"] by simp

section \<open>The bytes of an inode\<close>

definition dev_ok :: "block \<Rightarrow> bool" where
  "dev_ok d \<longleftrightarrow> type_of d \<noteq> BLOCK_FOREIGN \<and> (\<forall>k<dev_size d. length (sectors d k) = 512)"

definition sector_count :: "inode \<Rightarrow> nat" where
  "sector_count i = (nat (ilength (data i)) + 511) div 512"

text \<open>The length is a nonnegative number of type \<open>off_t\<close>, and the data sectors lie on the device.\<close>

definition inode_ok :: "block \<Rightarrow> inode \<Rightarrow> bool" where
  "inode_ok d i \<longleftrightarrow> 0 \<le> ilength (data i) \<and> ilength (data i) < 2 ^ 31 \<and>
     unat (start (data i)) + sector_count i \<le> unat (dev_size d)"

definition data_sector :: "inode \<Rightarrow> nat \<Rightarrow> u32" where
  "data_sector i k = start (data i) + of_nat k"

definition data_sectors :: "inode \<Rightarrow> u32 set" where
  "data_sectors i = data_sector i ` {..<sector_count i}"

definition byte_at :: "block \<Rightarrow> inode \<Rightarrow> nat \<Rightarrow> u8" where
  "byte_at d i k = sectors d (data_sector i (k div 512)) ! (k mod 512)"

definition contents :: "block \<Rightarrow> inode \<Rightarrow> u8 list" where
  "contents d i = map (byte_at d i) [0..<nat (ilength (data i))]"

text \<open>Memory is available for every allocation to come.\<close>

definition mem_ok :: "fs \<Rightarrow> bool" where
  "mem_ok s \<longleftrightarrow> oom s = [] \<and> brk s \<noteq> NULL"

lemma length_contents [simp]: "length (contents d i) = nat (ilength (data i))"
  by (simp add: contents_def)

lemma inode_ok_length: "inode_ok d i \<Longrightarrow> nat (ilength (data i)) < 2 ^ 31"
  by (simp add: inode_ok_def nat_less_iff)

lemma div_sector_count: "k < nat (ilength (data i)) \<Longrightarrow> k div 512 < sector_count i"
  by (simp add: sector_count_def)

lemma data_sector_unat:
  assumes "inode_ok d i" and "k < sector_count i"
  shows "unat (data_sector i k) = unat (start (data i)) + k" "data_sector i k < dev_size d"
proof -
  have b: "unat (start (data i)) + k < unat (dev_size d)" using assms by (simp add: inode_ok_def)
  moreover have "unat (dev_size d) < 2 ^ 32" using unsigned_less [of "dev_size d"] by simp
  ultimately show "unat (data_sector i k) = unat (start (data i)) + k"
    by (simp add: data_sector_def unat_word_ariths unat_of_nat)
  with b show "data_sector i k < dev_size d" by (simp add: word_less_nat_alt)
qed

lemma data_sector_inj:
  "inode_ok d i \<Longrightarrow> j < sector_count i \<Longrightarrow> k < sector_count i \<Longrightarrow> data_sector i j = data_sector i k \<longleftrightarrow> j = k"
  using data_sector_unat(1) [of d i] by (metis add_left_cancel)

text \<open>One round of the loops, at an offset inside the file and at or behind its end.\<close>

lemma chunk_ok:
  assumes "inode_ok d i" and "p < 2 ^ 31"
  shows "chunk i (int z) (int p) = (int (p mod 512), 512 - int (p mod 512),
    min (int z) (min (ilength (data i) - int p) (512 - int (p mod 512))))"
proof -
  have p: "int p < 2 ^ 31" using assms(2) by (simp flip: of_nat_less_iff)
  have "off_t (ilength (data i) - int p) = ilength (data i) - int p"
    using assms(1) p by (intro off_t_small) (simp_all add: inode_ok_def)
  then show ?thesis
    by (simp add: chunk_def Let_def smod_512 zmod_int min_def)
qed

lemma byte_to_sector_ok:
  assumes "inode_ok d i" and "p < nat (ilength (data i))"
  shows "byte_to_sector i (int p) = data_sector i (p div 512)" "data_sector i (p div 512) < dev_size d"
proof -
  have "int p < ilength (data i)" using assms(2) by simp
  moreover have "int p div 512 = int (p div 512)" by (simp add: zdiv_int)
  ultimately show "byte_to_sector i (int p) = data_sector i (p div 512)"
    by (simp add: byte_to_sector_def data_sector_def sdiv_512)
  show "data_sector i (p div 512) < dev_size d"
    using data_sector_unat(2) [OF assms(1)] div_sector_count [OF assms(2)] by blast
qed

lemma chunk_index:
  assumes "k < (512::nat) - p mod 512"
  shows "(p + k) div 512 = p div 512" "(p + k) mod 512 = p mod 512 + k"
proof -
  have e: "p + k = (p mod 512 + k) + (p div 512) * 512" by simp
  have l: "p mod 512 + k < 512" using assms by simp
  have "(p + k) div 512 = p div 512 + (p mod 512 + k) div 512"
    unfolding e by (rule div_mult_self1) simp
  also have "(p mod 512 + k) div 512 = 0" using l by (rule div_less)
  finally show "(p + k) div 512 = p div 512" by simp
  have "(p + k) mod 512 = (p mod 512 + k) mod 512"
    unfolding e by (rule mod_mult_self1)
  also have "\<dots> = p mod 512 + k" using l by (rule mod_less)
  finally show "(p + k) mod 512 = p mod 512 + k" .
qed

lemma chunk_bytes:
  assumes d: "dev_ok d" "inode_ok d i" and p: "p < nat (ilength (data i))" and c: "c \<le> 512 - p mod 512"
  shows "take c (drop (p mod 512) (sectors d (data_sector i (p div 512)))) = map (byte_at d i) [p..<p + c]"
proof (rule nth_equalityI)
  have "length (sectors d (data_sector i (p div 512))) = 512"
    using d byte_to_sector_ok(2) [OF d(2) p] by (simp add: dev_ok_def)
  moreover have "p mod 512 < 512" by simp
  ultimately show "length (take c (drop (p mod 512) (sectors d (data_sector i (p div 512))))) =
      length (map (byte_at d i) [p..<p + c])" using c by simp
  fix k
  assume "k < length (take c (drop (p mod 512) (sectors d (data_sector i (p div 512)))))"
  then have k: "k < c" "p mod 512 + k < length (sectors d (data_sector i (p div 512)))" by auto
  then show "take c (drop (p mod 512) (sectors d (data_sector i (p div 512)))) ! k = map (byte_at d i) [p..<p + c] ! k"
    using chunk_index [of k p] c by (simp add: byte_at_def)
qed

text \<open>The chunk inside the file as natural numbers.\<close>

lemma chunk_inside:
  fixes z :: nat
  assumes "inode_ok d i" and "p < nat (ilength (data i))"
  defines "c \<equiv> min z (min (nat (ilength (data i)) - p) (512 - p mod 512))"
  shows "chunk i (int z) (int p) = (int (p mod 512), int (512 - p mod 512), int c)"
    "c \<le> z" "p + c \<le> nat (ilength (data i))" "c \<le> 512 - p mod 512" "0 < z \<Longrightarrow> 0 < c"
proof -
  have "p < 2 ^ 31" using inode_ok_length [OF assms(1)] assms(2) by simp
  note ch = chunk_ok [OF assms(1) this, of z]
  have m: "p mod 512 < 512" by simp
  then have 1: "512 - int (p mod 512) = int (512 - p mod 512)" by linarith
  have 2: "ilength (data i) - int p = int (nat (ilength (data i)) - p)" using assms(2) by linarith
  show "chunk i (int z) (int p) = (int (p mod 512), int (512 - p mod 512), int c)"
    unfolding ch 1 2 c_def by (simp only: of_nat_min)
  show "c \<le> z" "p + c \<le> nat (ilength (data i))" "c \<le> 512 - p mod 512" "0 < z \<Longrightarrow> 0 < c"
    using assms(2) m by (auto simp: c_def)
qed

lemma chunk_outside:
  assumes "inode_ok d i" and "p < 2 ^ 31" and "nat (ilength (data i)) \<le> p"
  shows "snd (snd (chunk i (int z) (int p))) \<le> 0"
proof -
  have "ilength (data i) - int p \<le> 0" using assms(1,3) by (simp add: inode_ok_def)
  then show ?thesis unfolding chunk_ok [OF assms(1,2)] by simp
qed

section \<open>Reading\<close>

text \<open>A read changes the statistics of the device and takes a buffer, nothing else.\<close>

definition only_read :: "fs \<Rightarrow> fs \<Rightarrow> bool" where
  "only_read s s' \<longleftrightarrow>
     (\<exists>rc bk. s' = s\<lparr>fs_device := (fs_device s)\<lparr>read_cnt := rc\<rparr>, brk := bk\<rparr> \<and> brk s \<le> bk)"

lemma only_read_refl [simp]: "only_read s s"
proof -
  have "s = s\<lparr>fs_device := (fs_device s)\<lparr>read_cnt := read_cnt (fs_device s)\<rparr>, brk := brk s\<rparr>" by simp
  then show ?thesis unfolding only_read_def by blast
qed

lemma only_read_trans: "only_read s s' \<Longrightarrow> only_read s' s'' \<Longrightarrow> only_read s s''"
  unfolding only_read_def by (elim exE conjE) (auto intro!: exI)

lemma only_readD:
  assumes "only_read s s'"
  shows "inodes s' = inodes s" "files s' = files s" "dirs s' = dirs s" "open_inodes s' = open_inodes s"
    "sectors (fs_device s') = sectors (fs_device s)" "type_of (fs_device s') = type_of (fs_device s)"
    "dev_size (fs_device s') = dev_size (fs_device s)" "mem_ok s \<Longrightarrow> mem_ok s'"
    "dev_ok (fs_device s') = dev_ok (fs_device s)" "inode_ok (fs_device s') = inode_ok (fs_device s)"
    "byte_at (fs_device s') = byte_at (fs_device s)" "contents (fs_device s') = contents (fs_device s)"
  using assms
  by (auto simp: only_read_def mem_ok_def dev_ok_def inode_ok_def byte_at_def contents_def fun_eq_iff NULL_def)

lemma fs_read_ok:
  "k < dev_size (fs_device s) \<Longrightarrow> \<exists>s'. fs_read k s = Some (sectors (fs_device s) k, s') \<and> only_read s s'"
  unfolding only_read_def fs_read_def block_read_def check_sector_def
  by (intro exI [of _ "s\<lparr>fs_device := (fs_device s)\<lparr>read_cnt := read_cnt (fs_device s) + 1\<rparr>\<rparr>"] conjI
      exI [of _ "read_cnt (fs_device s) + 1"] exI [of _ "brk s"]) simp_all

lemma get_bounce_ok: "mem_ok s \<Longrightarrow> \<exists>s'. get_bounce b s = (True, s') \<and> only_read s s'"
proof (cases b)
  case False
  assume "mem_ok s"
  then have "get_bounce b s = (True, s\<lparr>brk := brk s + 1\<rparr>)"
    using False by (simp add: get_bounce_def fs_malloc_def mem_ok_def)
  moreover have "only_read s (s\<lparr>brk := brk s + 1\<rparr>)"
    unfolding only_read_def by (intro exI [of _ "read_cnt (fs_device s)"] exI [of _ "brk s + 1"]) simp
  ultimately show ?thesis by blast
qed (simp add: get_bounce_def)

lemma inode_read_loop_ok:
  assumes "dev_ok (fs_device s)" "inodes s ip = Some i" "inode_ok (fs_device s) i" "mem_ok s" "p < 2 ^ 31"
  shows "\<exists>s'. inode_read_loop ip (int z) (int p) buf b s =
      Some (buf @ map (byte_at (fs_device s) i) [p..<min (p + z) (nat (ilength (data i)))], s') \<and> only_read s s'"
  using assms
proof (induction z arbitrary: p buf b s rule: less_induct)
  case (less z)
  let ?L = "nat (ilength (data i))" and ?d = "fs_device s"
  note ok = less.prems
  show ?case
  proof (cases "0 < z \<and> p < ?L")
    case False
    then have e: "[p..<min (p + z) ?L] = []" by auto
    show ?thesis
    proof (cases "z = 0")
      case True
      then show ?thesis using e by (subst inode_read_loop.simps) simp
    next
      case z: False
      then have "snd (snd (chunk i (int z) (int p))) \<le> 0" using False chunk_outside [OF ok(3,5)] by auto
      then show ?thesis using z e ok(2)
        by (subst inode_read_loop.simps) (auto simp: Let_def split: prod.splits)
    qed
  next
    case True
    define c where "c = min z (min (?L - p) (512 - p mod 512))"
    note ch = chunk_inside [OF ok(3), of p z, folded c_def]
    have c: "chunk i (int z) (int p) = (int (p mod 512), int (512 - p mod 512), int c)" "c \<le> z" "p + c \<le> ?L"
      "c \<le> 512 - p mod 512" "0 < c" using ch True by auto
    let ?k = "data_sector i (p div 512)"
    have k: "byte_to_sector i (int p) = ?k" "?k < dev_size ?d"
      using byte_to_sector_ok [OF ok(3)] True by auto
    have bytes: "take c (drop (p mod 512) (sectors ?d ?k)) = map (byte_at ?d i) [p..<p + c]"
      using chunk_bytes [OF ok(1,3) _ c(4)] True by blast
    have full: "sectors ?d ?k = map (byte_at ?d i) [p..<p + c]" if "p mod 512 = 0" "c = 512"
      using bytes that ok(1) k(2) by (simp add: dev_ok_def)
    have z: "int z - int c = int (z - c)" "int p + int c = int (p + c)" "z - c < z" "p + c < 2 ^ 31"
      using c inode_ok_length [OF ok(3)] by auto
    have rest: "[p..<p + c] @ [p + c..<min (p + c + (z - c)) ?L] = [p..<min (p + z) ?L]"
      using c(2,3) by (subst upt_split [symmetric]) auto
    have step: "\<exists>s''. inode_read_loop ip (int z - int c) (int p + int c) (buf @ map (byte_at ?d i) [p..<p + c]) b' s' =
        Some (buf @ map (byte_at ?d i) [p..<min (p + z) ?L], s'') \<and> only_read s s''" if s': "only_read s s'" for s' b'
    proof -
      have "\<exists>s''. inode_read_loop ip (int (z - c)) (int (p + c)) (buf @ map (byte_at ?d i) [p..<p + c]) b' s' =
        Some ((buf @ map (byte_at ?d i) [p..<p + c]) @ map (byte_at (fs_device s') i) [p + c..<min (p + c + (z - c)) ?L], s'')
          \<and> only_read s' s''"
        using ok z by (intro less.IH) (simp_all add: only_readD [OF s'])
      then obtain s'' where s'': "inode_read_loop ip (int (z - c)) (int (p + c)) (buf @ map (byte_at ?d i) [p..<p + c]) b' s' =
        Some ((buf @ map (byte_at ?d i) [p..<p + c]) @ map (byte_at ?d i) [p + c..<min (p + c + (z - c)) ?L], s'')"
        "only_read s' s''" unfolding only_readD [OF s'] by blast
      have "(buf @ map (byte_at ?d i) [p..<p + c]) @ map (byte_at ?d i) [p + c..<min (p + c + (z - c)) ?L] =
          buf @ map (byte_at ?d i) [p..<min (p + z) ?L]"
        unfolding rest [symmetric] by simp
      then have "inode_read_loop ip (int z - int c) (int p + int c) (buf @ map (byte_at ?d i) [p..<p + c]) b' s' =
          Some (buf @ map (byte_at ?d i) [p..<min (p + z) ?L], s'')" using s''(1) unfolding z(1,2) by (simp only:)
      then show ?thesis using only_read_trans [OF s' s''(2)] by (intro exI conjI)
    qed
    show ?thesis
    proof (cases "p mod 512 = 0 \<and> c = 512")
      case True
      obtain s1 where s1: "fs_read ?k s = Some (sectors ?d ?k, s1)" "only_read s s1" using fs_read_ok [OF k(2)] by blast
      from step [OF s1(2), of b] obtain s2 where s2:
        "inode_read_loop ip (int z - int c) (int p + int c) (buf @ map (byte_at ?d i) [p..<p + c]) b s1 =
          Some (buf @ map (byte_at ?d i) [p..<min (p + z) ?L], s2)" "only_read s s2" by (elim exE conjE)
      have "inode_read_loop ip (int z) (int p) buf b s =
          inode_read_loop ip (int z - int c) (int p + int c) (buf @ map (byte_at ?d i) [p..<p + c]) b s1"
        using True c(1,2,5) k(1) ok(2) s1(1) full by (subst inode_read_loop.simps) simp
      then show ?thesis using s2 by simp
    next
      case False
      obtain s0 where s0: "get_bounce b s = (True, s0)" "only_read s s0" using get_bounce_ok [OF ok(4)] by blast
      obtain s1 where s1: "fs_read ?k s0 = Some (sectors ?d ?k, s1)" "only_read s0 s1"
        using fs_read_ok [of ?k s0] k(2) by (auto simp: only_readD [OF s0(2)])
      from step [OF only_read_trans [OF s0(2) s1(2)], of True] obtain s2 where s2:
        "inode_read_loop ip (int z - int c) (int p + int c) (buf @ map (byte_at ?d i) [p..<p + c]) True s1 =
          Some (buf @ map (byte_at ?d i) [p..<min (p + z) ?L], s2)" "only_read s s2" by (elim exE conjE)
      have "inode_read_loop ip (int z) (int p) buf b s =
          inode_read_loop ip (int z - int c) (int p + int c) (buf @ map (byte_at ?d i) [p..<p + c]) True s1"
        using c(1,2,5) k(1) ok(2) s0(1) s1(1) bytes by (subst inode_read_loop.simps) (simp add: False Let_def)
      then show ?thesis using s2 by simp
    qed
  qed
qed

lemma contents_part:
  "map (byte_at d i) [p..<min (p + z) (nat (ilength (data i)))] = take z (drop p (contents d i))"
  by (cases "p \<le> nat (ilength (data i))") (auto simp: contents_def drop_map take_map min_def)

lemma inode_read_at_ok:
  assumes "dev_ok (fs_device s)" "inodes s ip = Some i" "inode_ok (fs_device s) i" "mem_ok s" "p < 2 ^ 31"
  shows "\<exists>s'. inode_read_at ip (int z) (int p) s = Some (take z (drop p (contents (fs_device s) i)), s') \<and>
    only_read s s'"
  using inode_read_loop_ok [OF assms, of z "[]" False] by (simp add: inode_read_at_def contents_part)

section \<open>Writing\<close>

text \<open>The device with the bytes \<open>bs\<close> written at offset \<open>p\<close> of an inode: other bytes and other sectors are as
  before.\<close>

definition written :: "block \<Rightarrow> block \<Rightarrow> inode \<Rightarrow> nat \<Rightarrow> u8 list \<Rightarrow> bool" where
  "written d d' i p bs \<longleftrightarrow> type_of d' = type_of d \<and> dev_size d' = dev_size d \<and> dev_ok d' \<and>
     (\<forall>q. q div 512 < sector_count i \<longrightarrow>
        byte_at d' i q = (if p \<le> q \<and> q < p + length bs then bs ! (q - p) else byte_at d i q)) \<and>
     (\<forall>k. k \<notin> data_sectors i \<longrightarrow> sectors d' k = sectors d k)"

lemma written_refl: "dev_ok d \<Longrightarrow> sectors d' = sectors d \<Longrightarrow> type_of d' = type_of d \<Longrightarrow> dev_size d' = dev_size d \<Longrightarrow>
    written d d' i p []"
  by (auto simp: written_def dev_ok_def byte_at_def)

lemma written_trans:
  assumes "written d d1 i p as" and "written d1 d2 i (p + length as) bs"
  shows "written d d2 i p (as @ bs)"
proof -
  have "byte_at d2 i q = (if p \<le> q \<and> q < p + length (as @ bs) then (as @ bs) ! (q - p) else byte_at d i q)"
    if q: "q div 512 < sector_count i" for q
  proof -
    have "byte_at d1 i q = (if p \<le> q \<and> q < p + length as then as ! (q - p) else byte_at d i q)"
      "byte_at d2 i q = (if p + length as \<le> q \<and> q < p + length as + length bs
         then bs ! (q - (p + length as)) else byte_at d1 i q)"
      using assms q by (simp_all add: written_def)
    then show ?thesis by (auto simp: nth_append)
  qed
  then show ?thesis using assms by (simp add: written_def)
qed

lemma nth_splice:
  assumes "m + length bs \<le> length base" and "j < length base"
  shows "(take m base @ bs @ drop (m + length bs) base) ! j =
    (if m \<le> j \<and> j < m + length bs then bs ! (j - m) else base ! j)"
proof -
  consider "j < m" | "m \<le> j" "j < m + length bs" | "m + length bs \<le> j" by linarith
  then show ?thesis
  proof cases
    case 2
    then have "j - m < length bs" by linarith
    then show ?thesis using 2 assms by (simp add: nth_append)
  next
    case 3
    then have "\<not> j - m < length bs" by linarith
    then show ?thesis using 3 assms by (simp add: nth_append)
  qed (use assms in \<open>simp add: nth_append\<close>)
qed

lemma written_sector:
  assumes d: "dev_ok d" "inode_ok d i" and p: "p < nat (ilength (data i))" and c: "length bs \<le> 512 - p mod 512"
    and d': "type_of d' = type_of d" "dev_size d' = dev_size d"
      "sectors d' = (sectors d)(data_sector i (p div 512) :=
         take (p mod 512) (sectors d (data_sector i (p div 512))) @ bs @
         drop (p mod 512 + length bs) (sectors d (data_sector i (p div 512))))"
  shows "written d d' i p bs"
proof -
  let ?k = "data_sector i (p div 512)" and ?m = "p mod 512"
  have m: "?m < 512" by simp
  have len: "length (sectors d ?k) = 512" using d byte_to_sector_ok(2) [OF d(2) p] by (simp add: dev_ok_def)
  then have len': "length (sectors d' ?k) = 512" using c m by (simp add: d'(3))
  have 1: "dev_ok d'" using d(1) d' len' by (auto simp: dev_ok_def)
  have 2: "sectors d' k = sectors d k" if "k \<notin> data_sectors i" for k
    using that div_sector_count [OF p] by (auto simp: d'(3) data_sectors_def)
  have 3: "byte_at d' i q = (if p \<le> q \<and> q < p + length bs then bs ! (q - p) else byte_at d i q)"
    if q: "q div 512 < sector_count i" for q
  proof (cases "q div 512 = p div 512")
    case True
    have pq: "p = ?m + 512 * (p div 512)" "q = q mod 512 + 512 * (p div 512)"
      using mod_mult_div_eq [of q 512] True by simp_all
    then have "p \<le> q \<longleftrightarrow> ?m \<le> q mod 512" "q < p + length bs \<longleftrightarrow> q mod 512 < ?m + length bs" "q - p = q mod 512 - ?m"
      by linarith+
    moreover have "q mod 512 < 512" by simp
    moreover have "?m + length bs \<le> length (sectors d ?k)" using c m len by linarith
    ultimately show ?thesis
      using True len nth_splice [of ?m bs "sectors d ?k" "q mod 512"] by (simp add: byte_at_def d'(3))
  next
    case False
    have "\<not> (p \<le> q \<and> q < p + length bs)"
    proof
      assume "p \<le> q \<and> q < p + length bs"
      then have "q = p + (q - p)" "q - p < 512 - ?m" using c by linarith+
      with chunk_index(1) [of "q - p" p] False show False by simp
    qed
    moreover have "data_sector i (q div 512) \<noteq> ?k"
      using data_sector_inj [OF d(2) q div_sector_count [OF p]] False by simp
    ultimately show ?thesis by (auto simp: byte_at_def d'(3))
  qed
  show ?thesis using d' 1 2 3 by (simp add: written_def)
qed

definition wrote :: "fs \<Rightarrow> fs \<Rightarrow> inode \<Rightarrow> nat \<Rightarrow> u8 list \<Rightarrow> bool" where
  "wrote s s' i p bs \<longleftrightarrow> (\<exists>d' bk. s' = s\<lparr>fs_device := d', brk := bk\<rparr> \<and> brk s \<le> bk \<and>
     written (fs_device s) d' i p bs)"

lemma wroteD:
  assumes "wrote s s' i p bs"
  shows "inodes s' = inodes s" "files s' = files s" "dirs s' = dirs s" "open_inodes s' = open_inodes s"
    "free_map s' = free_map s" "free_map_file s' = free_map_file s"
    "mem_ok s \<Longrightarrow> mem_ok s'" "dev_ok (fs_device s')" "inode_ok (fs_device s') = inode_ok (fs_device s)"
    "written (fs_device s) (fs_device s') i p bs"
  using assms by (auto simp: wrote_def written_def mem_ok_def inode_ok_def fun_eq_iff NULL_def)

lemma wrote_trans: "wrote s s1 i p as \<Longrightarrow> wrote s1 s2 i (p + length as) bs \<Longrightarrow> wrote s s2 i p (as @ bs)"
  unfolding wrote_def using written_trans by fastforce

lemma wrote_sector:
  assumes d: "dev_ok (fs_device s)" "inode_ok (fs_device s) i" and p: "p < nat (ilength (data i))"
    and c: "length bs \<le> 512 - p mod 512" and r: "only_read s s1"
  defines "k \<equiv> data_sector i (p div 512)"
  shows "\<exists>s2. fs_write k (take (p mod 512) (sectors (fs_device s) k) @ bs @
      drop (p mod 512 + length bs) (sectors (fs_device s) k)) s1 = Some s2 \<and> wrote s s2 i p bs"
proof -
  let ?d = "fs_device s" and ?d1 = "fs_device s1"
  let ?bs = "take (p mod 512) (sectors ?d k) @ bs @ drop (p mod 512 + length bs) (sectors ?d k)"
  let ?d2 = "?d1\<lparr>sectors := (sectors ?d1)(k := ?bs), write_cnt := write_cnt ?d1 + 1\<rparr>"
  have "k < dev_size ?d" using byte_to_sector_ok(2) [OF d(2) p] by (simp add: k_def)
  then have "fs_write k ?bs s1 = Some (s1\<lparr>fs_device := ?d2\<rparr>)"
    using d(1) by (simp add: fs_write_def block_write_def check_sector_def only_readD [OF r] dev_ok_def)
  moreover have "written ?d ?d2 i p bs"
    by (rule written_sector [OF d p c]) (simp_all add: only_readD [OF r] k_def)
  moreover obtain rc bk where s1: "s1 = s\<lparr>fs_device := (fs_device s)\<lparr>read_cnt := rc\<rparr>, brk := bk\<rparr>" "brk s \<le> bk"
    using r unfolding only_read_def by blast
  moreover have "s1\<lparr>fs_device := ?d2\<rparr> = s\<lparr>fs_device := ?d2, brk := bk\<rparr>" by (simp add: s1(1))
  ultimately show ?thesis unfolding wrote_def by blast
qed

lemma inode_write_loop_ok:
  assumes "dev_ok (fs_device s)" "inodes s ip = Some i" "inode_ok (fs_device s) i" "mem_ok s" "p < 2 ^ 31"
    and "w + z \<le> length buf"
  shows "\<exists>s'. inode_write_loop ip buf (int z) (int p) (int w) b s =
      Some (int (w + min z (nat (ilength (data i)) - p)), s') \<and>
    wrote s s' i p (take (min z (nat (ilength (data i)) - p)) (drop w buf))"
  using assms
proof (induction z arbitrary: p w b s rule: less_induct)
  case (less z)
  let ?L = "nat (ilength (data i))" and ?d = "fs_device s"
  note ok = less.prems
  show ?case
  proof (cases "0 < z \<and> p < ?L")
    case False
    then have e: "min z (?L - p) = 0" by auto
    have w: "wrote s s i p []"
      unfolding wrote_def by (intro exI [of _ ?d] exI [of _ "brk s"]) (simp add: written_refl ok(1))
    show ?thesis
    proof (cases "z = 0")
      case True
      then show ?thesis using w by (subst inode_write_loop.simps) auto
    next
      case z: False
      then have "snd (snd (chunk i (int z) (int p))) \<le> 0" using False chunk_outside [OF ok(3,5)] by auto
      then show ?thesis using z e ok(2) w
        by (subst inode_write_loop.simps) (auto simp: Let_def split: prod.splits)
    qed
  next
    case True
    define c where "c = min z (min (?L - p) (512 - p mod 512))"
    note ch = chunk_inside [OF ok(3), of p z, folded c_def]
    have c: "chunk i (int z) (int p) = (int (p mod 512), int (512 - p mod 512), int c)" "c \<le> z" "p + c \<le> ?L"
      "c \<le> 512 - p mod 512" "0 < c" using ch True by auto
    let ?k = "data_sector i (p div 512)" and ?bs = "take c (drop w buf)"
    have k: "byte_to_sector i (int p) = ?k" "?k < dev_size ?d"
      using byte_to_sector_ok [OF ok(3)] True by auto
    have lb: "length ?bs = c" using ok(6) c(2) by simp
    have z: "int z - int c = int (z - c)" "int p + int c = int (p + c)" "int w + int c = int (w + c)"
      "z - c < z" "p + c < 2 ^ 31" "w + c + (z - c) \<le> length buf"
      using c inode_ok_length [OF ok(3)] ok(6) by auto
    let ?n = "min (z - c) (?L - (p + c))"
    have n: "w + c + ?n = w + min z (?L - p)"
      "?bs @ take ?n (drop (w + c) buf) = take (min z (?L - p)) (drop w buf)"
    proof -
      have "c + ?n = min z (?L - p)" using c(2,3) by auto
      then show "w + c + ?n = w + min z (?L - p)" by simp
      show "?bs @ take ?n (drop (w + c) buf) = take (min z (?L - p)) (drop w buf)"
        unfolding \<open>c + ?n = min z (?L - p)\<close> [symmetric] take_add drop_drop by (simp add: add.commute)
    qed
    have step: "\<exists>s''. inode_write_loop ip buf (int z - int c) (int p + int c) (int w + int c) b' s' =
        Some (int (w + min z (?L - p)), s'') \<and> wrote s s'' i p (take (min z (?L - p)) (drop w buf))"
      if s': "wrote s s' i p ?bs" for s' b'
    proof -
      have "\<exists>s''. inode_write_loop ip buf (int (z - c)) (int (p + c)) (int (w + c)) b' s' =
          Some (int (w + c + ?n), s'') \<and> wrote s' s'' i (p + c) (take ?n (drop (w + c) buf))"
        using ok z by (intro less.IH) (simp_all add: wroteD [OF s'])
      then obtain s'' where s'': "inode_write_loop ip buf (int (z - c)) (int (p + c)) (int (w + c)) b' s' =
          Some (int (w + c + ?n), s'')" "wrote s' s'' i (p + c) (take ?n (drop (w + c) buf))" by blast
      have "wrote s s'' i p (?bs @ take ?n (drop (w + c) buf))"
        using wrote_trans [OF s'] s''(2) lb by simp
      then show ?thesis using s''(1) unfolding z(1-3) n by (intro exI [of _ s''] conjI)
    qed
    show ?thesis
    proof (cases "p mod 512 = 0 \<and> c = 512")
      case True
      have "length (sectors ?d ?k) = 512" using ok(1) k(2) by (simp add: dev_ok_def)
      then obtain s1 where s1: "fs_write ?k ?bs s = Some s1" "wrote s s1 i p ?bs"
        using wrote_sector [OF ok(1,3) _ _ only_read_refl, of p ?bs] \<open>0 < z \<and> p < ?L\<close> True lb by auto
      from step [OF s1(2), of b] obtain s2 where s2:
        "inode_write_loop ip buf (int z - int c) (int p + int c) (int w + int c) b s1 =
          Some (int (w + min z (?L - p)), s2)" "wrote s s2 i p (take (min z (?L - p)) (drop w buf))" by (elim exE conjE)
      have "inode_write_loop ip buf (int z) (int p) (int w) b s =
          inode_write_loop ip buf (int z - int c) (int p + int c) (int w + int c) b s1"
        using True c(1,2,5) k(1) ok(2) s1(1) by (subst inode_write_loop.simps) simp
      then show ?thesis using s2 by (intro exI [of _ s2] conjI) simp_all
    next
      case False
      obtain s0 where s0: "get_bounce b s = (True, s0)" "only_read s s0" using get_bounce_ok [OF ok(4)] by blast
      obtain s1 where s1: "fs_read ?k s0 = Some (sectors ?d ?k, s1)" "only_read s0 s1"
        using fs_read_ok [of ?k s0] k(2) by (auto simp: only_readD [OF s0(2)])
      obtain s2 where s2: "fs_write ?k (take (p mod 512) (sectors ?d ?k) @ ?bs @ drop (p mod 512 + c) (sectors ?d ?k)) s1 = Some s2"
        "wrote s s2 i p ?bs"
        using wrote_sector [OF ok(1,3) _ _ only_read_trans [OF s0(2) s1(2)], of p ?bs] \<open>0 < z \<and> p < ?L\<close> c(4) lb by auto
      from step [OF s2(2), of True] obtain s3 where s3:
        "inode_write_loop ip buf (int z - int c) (int p + int c) (int w + int c) True s2 =
          Some (int (w + min z (?L - p)), s3)" "wrote s s3 i p (take (min z (?L - p)) (drop w buf))" by (elim exE conjE)
      have old: "\<not> (p mod 512 = 0 \<and> \<not> c < 512 - p mod 512)" using False c(4) by auto
      have "inode_write_loop ip buf (int z) (int p) (int w) b s =
          inode_write_loop ip buf (int z - int c) (int p + int c) (int w + int c) True s2"
        using c(1,2,5) k(1) ok(2) s0(1) s1(1) s2(1)
        by (subst inode_write_loop.simps) (simp add: False Let_def del: of_nat_diff, use old in blast)
      then show ?thesis using s3 by (intro exI [of _ s3] conjI) simp_all
    qed
  qed
qed

lemma inode_write_at_ok:
  assumes "dev_ok (fs_device s)" "inodes s ip = Some i" "inode_ok (fs_device s) i" "mem_ok s" "p < 2 ^ 31"
    and "z \<le> length buf" and "deny_write_cnt i = 0"
  shows "\<exists>s'. inode_write_at ip buf (int z) (int p) s = Some (int (min z (nat (ilength (data i)) - p)), s') \<and>
    wrote s s' i p (take (min z (nat (ilength (data i)) - p)) buf)"
  using inode_write_loop_ok [OF assms(1-5), of 0 z buf False] assms(2,6,7) by (simp add: inode_write_at_def)

text \<open>What a write means for the contents of the inode itself and of inodes with other sectors.\<close>

lemma written_contents:
  assumes "written d d' i p bs" and "p + length bs \<le> nat (ilength (data i))"
  shows "contents d' i = take p (contents d i) @ bs @ drop (p + length bs) (contents d i)"
proof (rule nth_equalityI)
  let ?L = "nat (ilength (data i))"
  show "length (contents d' i) = length (take p (contents d i) @ bs @ drop (p + length bs) (contents d i))"
    using assms(2) by simp
  fix q
  assume "q < length (contents d' i)"
  then have q: "q < ?L" by simp
  then have "contents d' i ! q = (if p \<le> q \<and> q < p + length bs then bs ! (q - p) else contents d i ! q)"
    using assms(1) div_sector_count [OF q] by (simp add: contents_def written_def)
  also have "\<dots> = (take p (contents d i) @ bs @ drop (p + length bs) (contents d i)) ! q"
    using nth_splice [of p bs "contents d i" q] assms(2) q by simp
  finally show "contents d' i ! q = (take p (contents d i) @ bs @ drop (p + length bs) (contents d i)) ! q" .
qed

lemma written_other:
  assumes "written d d' i p bs" and "data_sectors j \<inter> data_sectors i = {}"
  shows "contents d' j = contents d j"
proof -
  have "byte_at d' j q = byte_at d j q" if "q < nat (ilength (data j))" for q
  proof -
    have "data_sector j (q div 512) \<in> data_sectors j"
      using div_sector_count [OF that] by (simp add: data_sectors_def)
    then show ?thesis using assms by (auto simp: byte_at_def written_def)
  qed
  then show ?thesis by (simp add: contents_def)
qed

lemma wrote_contents:
  assumes "wrote s s' i p (take (min z (nat (ilength (data i)) - p)) buf)" and "z \<le> length buf"
  shows "contents (fs_device s') i = take p (contents (fs_device s) i) @
    take (min z (nat (ilength (data i)) - p)) buf @
    drop (p + min z (nat (ilength (data i)) - p)) (contents (fs_device s) i)"
proof (cases "p \<le> nat (ilength (data i))")
  case True
  let ?bs = "take (min z (nat (ilength (data i)) - p)) buf"
  have "length ?bs = min z (nat (ilength (data i)) - p)" using assms(2) by simp
  moreover have "p + min z (nat (ilength (data i)) - p) \<le> nat (ilength (data i))" using True by simp
  ultimately show ?thesis using written_contents [OF wroteD(10) [OF assms(1)]] by simp
next
  case False
  then have "written (fs_device s) (fs_device s') i p []" using wroteD(10) [OF assms(1)] by simp
  then have "contents (fs_device s') i = contents (fs_device s) i"
    by (auto simp: contents_def written_def div_sector_count)
  then show ?thesis using False by simp
qed

section \<open>A device\<close>

definition sample_dev :: block where
  "sample_dev = \<lparr>type_of = BLOCK_FILESYS, dev_size = 64, sectors = (\<lambda>_. replicate 512 0), read_cnt = 0, write_cnt = 0\<rparr>"

definition sample_inode :: inode where
  "sample_inode = \<lparr>sector = 3, open_cnt = 1, removed = False, deny_write_cnt = 0,
     data = \<lparr>start = 10, ilength = 600, magic = INODE_MAGIC\<rparr>\<rparr>"

definition sample_fs :: fs where
  "sample_fs = \<lparr>fs_device = sample_dev, inodes = [100 \<mapsto> sample_inode], open_inodes = [100], files = Map.empty,
     dirs = Map.empty, free_map = \<lparr>bit_cnt = 64, bits = [0, 0]\<rparr>, free_map_file = NULL, oom = [], brk = 200\<rparr>"

lemma sample_ok:
  "dev_ok (fs_device sample_fs)" "inodes sample_fs 100 = Some sample_inode"
  "inode_ok (fs_device sample_fs) sample_inode" "mem_ok sample_fs"
  by (simp_all add: sample_fs_def sample_dev_def sample_inode_def dev_ok_def inode_ok_def sector_count_def
      mem_ok_def NULL_def)

lemma sample_contents: "contents (fs_device sample_fs) sample_inode = replicate 600 0"
proof -
  have "byte_at sample_dev sample_inode = (\<lambda>q. 0)" by (simp add: byte_at_def sample_dev_def fun_eq_iff)
  moreover have "nat (ilength (data sample_inode)) = 600" by (simp add: sample_inode_def)
  ultimately show ?thesis by (simp add: contents_def sample_fs_def map_replicate_const)
qed

section \<open>Properties\<close>

text \<open>C8: an inode is an array of bytes. A write at any offset puts as many bytes of the buffer there as fit in
  front of the end of the file, returns their number, and changes nothing else of the file; while writes are denied it
  writes nothing. A read then returns the bytes of the file as they are after the write, as many as there are. Files
  whose sectors are others are not changed. Sectors are read and written whole or through a buffer as the code does.\<close>

theorem inode_write_read:
  assumes "dev_ok (fs_device s)" "inodes s ip = Some i" "inode_ok (fs_device s) i" "mem_ok s" "p < 2 ^ 31"
    and "z \<le> length buf"
  defines "n \<equiv> (if deny_write_cnt i \<noteq> 0 then 0 else min z (nat (ilength (data i)) - p))"
  shows "\<exists>s'. inode_write_at ip buf (int z) (int p) s = Some (int n, s') \<and>
    contents (fs_device s') i =
      take p (contents (fs_device s) i) @ take n buf @ drop (p + n) (contents (fs_device s) i) \<and>
    (\<forall>q<2 ^ 31. \<forall>k. \<exists>s''. inode_read_at ip (int k) (int q) s' =
       Some (take k (drop q (contents (fs_device s') i)), s'') \<and> contents (fs_device s'') = contents (fs_device s')) \<and>
    (\<forall>j. data_sectors j \<inter> data_sectors i = {} \<longrightarrow> contents (fs_device s') j = contents (fs_device s) j)"
proof -
  have reads: "\<forall>q<2 ^ 31. \<forall>k. \<exists>s''. inode_read_at ip (int k) (int q) s' =
      Some (take k (drop q (contents (fs_device s') i)), s'') \<and> contents (fs_device s'') = contents (fs_device s')"
    if "dev_ok (fs_device s')" "inodes s' ip = Some i" "inode_ok (fs_device s') i" "mem_ok s'" for s'
    using inode_read_at_ok [OF that] only_readD(12) by meson
  show ?thesis
  proof (cases "deny_write_cnt i = 0")
    case True
    then have n: "n = min z (nat (ilength (data i)) - p)" by (simp add: n_def)
    obtain s' where s': "inode_write_at ip buf (int z) (int p) s = Some (int n, s')" "wrote s s' i p (take n buf)"
      using inode_write_at_ok [OF assms(1-6) True] n by blast
    note w = wroteD [OF s'(2)]
    have "contents (fs_device s') i =
        take p (contents (fs_device s) i) @ take n buf @ drop (p + n) (contents (fs_device s) i)"
      using wrote_contents [of s s' i p z buf] s'(2) assms(6) n by simp
    moreover have "\<forall>j. data_sectors j \<inter> data_sectors i = {} \<longrightarrow> contents (fs_device s') j = contents (fs_device s) j"
      using written_other [OF w(10)] by blast
    moreover note reads [of s'] 
    ultimately show ?thesis using s'(1) w assms(2,3,4) by (intro exI [of _ s'] conjI) simp_all
  next
    case False
    then have "inode_write_at ip buf (int z) (int p) s = Some (int n, s)"
      using assms(2) by (simp add: inode_write_at_def n_def)
    then show ?thesis using reads [OF assms(1-4)] False by (intro exI [of _ s] conjI) (simp_all add: n_def)
  qed
qed

theorem inode_write_read_witness:
  "\<exists>s' s''. inode_write_at 100 [1, 2, 3] 3 511 sample_fs = Some (3, s') \<and>
     inode_read_at 100 5 510 s' = Some ([0, 1, 2, 3, 0], s'')"
proof -
  have 511: "(511::nat) < 2 ^ 31" "3 \<le> length [1, 2, 3::u8]" by simp_all
  have n: "(if deny_write_cnt sample_inode \<noteq> 0 then 0 else min 3 (nat (ilength (data sample_inode)) - 511)) = 3"
    by (simp add: sample_inode_def)
  obtain s' where s': "inode_write_at 100 [1, 2, 3] (int 3) (int 511) sample_fs = Some (int 3, s')"
    "contents (fs_device s') sample_inode =
      take 511 (replicate 600 0) @ take 3 [1, 2, 3] @ drop (511 + 3) (replicate 600 0)"
    and rd: "\<forall>q<2 ^ 31. \<forall>k. \<exists>s''. inode_read_at 100 (int k) (int q) s' =
      Some (take k (drop q (contents (fs_device s') sample_inode)), s'') \<and>
      contents (fs_device s'') = contents (fs_device s')"
    using inode_write_read [OF sample_ok 511, unfolded n sample_contents] by (elim exE conjE)
  have c: "contents (fs_device s') sample_inode = replicate 511 0 @ [1, 2, 3] @ replicate 86 0"
    unfolding s'(2) by simp
  obtain s'' where rd: "inode_read_at 100 (int 5) (int 510) s' =
      Some (take 5 (drop 510 (contents (fs_device s') sample_inode)), s'')"
    using rd [rule_format, of 510 5] by auto
  have "drop 510 (replicate 511 0 @ [1, 2, 3] @ replicate 86 (0::u8)) = replicate 1 0 @ [1, 2, 3] @ replicate 86 0"
    by (simp add: drop_append)
  then have "take 5 (drop 510 (contents (fs_device s') sample_inode)) = [0, 1, 2, 3, 0]"
    unfolding c by simp
  then show ?thesis using s'(1) rd by (intro exI [of _ s'] exI [of _ s'']) simp
qed

end
