(* ===== verification/Kdir_Props.thy ===== *)
theory Kdir_Props
  imports Kdir Kfile_Props
begin

text \<open>
  A directory implements a map from names to the sectors of inodes: what \<open>lookup\<close>, \<open>dir_add\<close> and \<open>dir_remove\<close> do
  to that map, on top of the bytes of the directory's inode.
\<close>

section \<open>Bytes of structures\<close>

lemma of_le32_le32 [simp]: "of_le32 (le32 w @ bs) = w"
proof -
  have "of_le32 (le32 w @ bs) = (ucast (ucast w :: u8) :: u32) OR push_bit 8 (ucast (ucast (drop_bit 8 w) :: u8)) OR
     push_bit 16 (ucast (ucast (drop_bit 16 w) :: u8)) OR push_bit 24 (ucast (ucast (drop_bit 24 w) :: u8))"
    by (simp add: of_le32_def le32_def)
  also have "\<dots> = w"
  proof (rule bit_word_eqI)
    fix n
    assume n: "n < LENGTH(32)"
    then consider "n < 8" | "8 \<le> n" "n < 16" | "16 \<le> n" "n < 24" | "24 \<le> n" "n < 32" by fastforce
    then show "bit ((ucast (ucast w :: u8) :: u32) OR push_bit 8 (ucast (ucast (drop_bit 8 w) :: u8)) OR
     push_bit 16 (ucast (ucast (drop_bit 16 w) :: u8)) OR push_bit 24 (ucast (ucast (drop_bit 24 w) :: u8))) n = bit w n"
      by cases (auto simp: bit_simps)
  qed
  finally show ?thesis .
qed

lemma length_le32 [simp]: "length (le32 w) = 4"
  by (simp add: le32_def)

lemma entry_bytes_roundtrip:
  "length (entry_name e) = 15 \<Longrightarrow> entry_of (entry_bytes e) = e"
  by (simp add: entry_of_def entry_bytes_def nth_append)

lemma length_entry_bytes: "length (entry_name e) = 15 \<Longrightarrow> length (entry_bytes e) = 20"
  by (simp add: entry_bytes_def)

lemma set_name_ok:
  assumes "length nm \<le> 14" and "length old = 15" and "0 \<notin> set nm"
  shows "length (set_name nm old) = 15" "cstr (set_name nm old) = nm"
proof -
  show "length (set_name nm old) = 15" using assms by (simp add: set_name_def)
  have "takeWhile (\<lambda>b. b \<noteq> 0) (nm @ 0 # xs) = nm" for xs
    using assms(3) by (subst takeWhile_append2) auto
  then show "cstr (set_name nm old) = nm" using assms(1) by (simp add: set_name_def cstr_def)
qed

section \<open>The entries of a directory\<close>

definition entries :: "u8 list \<Rightarrow> dir_entry list" where
  "entries c = map (\<lambda>j. entry_of (take 20 (drop (20 * j) c))) [0..<length c div 20]"

definition holds :: "u8 list \<Rightarrow> dir_entry \<Rightarrow> bool" where
  "holds nm e \<longleftrightarrow> in_use e \<and> nm = cstr (entry_name e)"

definition dir_map :: "u8 list \<Rightarrow> u8 list \<Rightarrow> u32 option" where
  "dir_map c nm = map_option inode_sector (find (holds nm) (entries c))"

definition names_unique :: "u8 list \<Rightarrow> bool" where
  "names_unique c \<longleftrightarrow>
     (\<forall>j<length (entries c). \<forall>k<length (entries c). in_use (entries c ! j) \<and> in_use (entries c ! k) \<and>
        cstr (entry_name (entries c ! j)) = cstr (entry_name (entries c ! k)) \<longrightarrow> j = k)"

lemma length_entries [simp]: "length (entries c) = length c div 20"
  by (simp add: entries_def)

lemma nth_entries [simp]: "j < length c div 20 \<Longrightarrow> entries c ! j = entry_of (take 20 (drop (20 * j) c))"
  by (simp add: entries_def)

text \<open>Writing the bytes of an entry.\<close>

lemma entries_update:
  assumes k: "k < length c div 20" and e: "length (entry_name e) = 15"
  shows "entries (take (20 * k) c @ entry_bytes e @ drop (20 * k + 20) c) = (entries c)[k := e]"
proof -
  define c' where "c' = take (20 * k) c @ entry_bytes e @ drop (20 * k + 20) c"
  have lb: "length (entry_bytes e) = 20" using e by (rule length_entry_bytes)
  have k20: "20 * k + 20 \<le> length c" using k by linarith
  have l: "length c' = length c" using lb k20 by (simp add: c'_def)
  have nth: "c' ! q = (if 20 * k \<le> q \<and> q < 20 * k + 20 then entry_bytes e ! (q - 20 * k) else c ! q)"
    if "q < length c" for q
    using nth_splice [of "20 * k" "entry_bytes e" c q] lb k20 that by (simp add: c'_def)
  have slot: "take 20 (drop (20 * j) c') = (if j = k then entry_bytes e else take 20 (drop (20 * j) c))"
    if j: "20 * j + 20 \<le> length c" for j
  proof (rule nth_equalityI)
    show "length (take 20 (drop (20 * j) c')) = length (if j = k then entry_bytes e else take 20 (drop (20 * j) c))"
      using l lb j by simp
    fix m
    assume "m < length (take 20 (drop (20 * j) c'))"
    then have m: "m < 20" by simp
    then have "(20 * k \<le> 20 * j + m \<and> 20 * j + m < 20 * k + 20) = (j = k)" by auto
    with nth [of "20 * j + m"] show "take 20 (drop (20 * j) c') ! m =
        (if j = k then entry_bytes e else take 20 (drop (20 * j) c)) ! m"
      using m j l lb by auto
  qed
  have "entries c' = (entries c)[k := e]"
  proof (rule nth_equalityI)
    show "length (entries c') = length ((entries c)[k := e])" using l by simp
    fix j
    assume "j < length (entries c')"
    then have j: "j < length c div 20" using l by simp
    then have "20 * j + 20 \<le> length c" by linarith
    from slot [OF this] show "entries c' ! j = (entries c)[k := e] ! j"
      using j l entry_bytes_roundtrip [OF e] k by (simp add: nth_list_update)
  qed
  then show ?thesis by (simp add: c'_def)
qed

section \<open>Searching a directory\<close>

definition dir_ok :: "fs \<Rightarrow> ptr \<Rightarrow> inode \<Rightarrow> bool" where
  "dir_ok s ip i \<longleftrightarrow> dev_ok (fs_device s) \<and> inodes s ip = Some i \<and> inode_ok (fs_device s) i \<and> mem_ok s \<and>
     20 dvd nat (ilength (data i))"

lemma dir_ok_read: "only_read s s' \<Longrightarrow> dir_ok s ip i \<Longrightarrow> dir_ok s' ip i"
  by (simp add: dir_ok_def only_readD)

lemma read_entry:
  assumes ok: "dir_ok s ip i" and j: "j \<le> nat (ilength (data i)) div 20"
  shows "\<exists>s'. inode_read_at ip 20 (int (20 * j)) s =
      Some (if j < nat (ilength (data i)) div 20 then take 20 (drop (20 * j) (contents (fs_device s) i)) else [], s') \<and>
    only_read s s'"
proof -
  let ?L = "nat (ilength (data i))"
  have "20 * j \<le> ?L" using j by linarith
  then have "20 * j < 2 ^ 31" using inode_ok_length [of "fs_device s" i] ok by (simp add: dir_ok_def)
  then obtain s' where s': "inode_read_at ip (int 20) (int (20 * j)) s =
      Some (take 20 (drop (20 * j) (contents (fs_device s) i)), s')" "only_read s s'"
    using inode_read_at_ok [of s ip i "20 * j" 20] ok by (auto simp: dir_ok_def)
  have "drop (20 * j) (contents (fs_device s) i) = []" if "\<not> j < ?L div 20"
  proof -
    have "j = ?L div 20" using that j by simp
    then have "?L = 20 * j" using ok by (simp add: dir_ok_def)
    then show ?thesis by simp
  qed
  then show ?thesis using s' by (cases "j < ?L div 20") auto
qed

text \<open>The result of the search from entry \<open>j\<close> on.\<close>

definition found :: "u8 list \<Rightarrow> u8 list \<Rightarrow> nat \<Rightarrow> (dir_entry \<times> u32) option \<Rightarrow> bool" where
  "found c nm j r \<longleftrightarrow> (case r of
     None \<Rightarrow> \<forall>m. j \<le> m \<and> m < length (entries c) \<longrightarrow> \<not> holds nm (entries c ! m)
   | Some (e, ofs) \<Rightarrow> \<exists>k. j \<le> k \<and> k < length (entries c) \<and> e = entries c ! k \<and> ofs = of_nat (20 * k) \<and>
       holds nm e \<and> (\<forall>m. j \<le> m \<and> m < k \<longrightarrow> \<not> holds nm (entries c ! m)))"

lemma found_step:
  assumes "\<not> holds nm (entries c ! j)" and "found c nm (Suc j) r"
  shows "found c nm j r"
proof -
  have m: "Suc j \<le> m" if "j \<le> m" "holds nm (entries c ! m)" for m
    using assms(1) that by (cases "m = j") auto
  show ?thesis
  proof (cases r)
    case None
    then show ?thesis using assms(2) m unfolding found_def by (simp only: option.case) blast
  next
    case (Some a)
    obtain e ofs where a: "a = (e, ofs)" by (cases a)
    then obtain k where k: "Suc j \<le> k" "k < length (entries c)" "e = entries c ! k" "ofs = of_nat (20 * k)"
      "holds nm e" "\<forall>m. Suc j \<le> m \<and> m < k \<longrightarrow> \<not> holds nm (entries c ! m)"
      using assms(2) Some unfolding found_def by auto
    then have "\<forall>m. j \<le> m \<and> m < k \<longrightarrow> \<not> holds nm (entries c ! m)" using m by blast
    then show ?thesis using Some a k unfolding found_def by (auto intro!: exI [of _ k])
  qed
qed

lemma lookup_loop_holds:
  "lookup_loop ip nm ofs s = do {
     (bs, s) \<leftarrow> inode_read_at ip 20 (sint ofs) s;
     if length bs = 20 then
       if holds nm (entry_of bs) then Some (Some (entry_of bs, ofs), s) else lookup_loop ip nm (ofs + 20) s
     else Some (None, s)
   }"
  by (subst lookup_loop.simps) (simp only: holds_def Let_def)

lemma lookup_loop_ok:
  assumes "dir_ok s ip i" and "j \<le> nat (ilength (data i)) div 20"
  shows "\<exists>r s'. lookup_loop ip nm (of_nat (20 * j)) s = Some (r, s') \<and> only_read s s' \<and>
    found (contents (fs_device s) i) nm j r"
  using assms
proof (induction "nat (ilength (data i)) div 20 - j" arbitrary: j s rule: less_induct)
  case less
  let ?L = "nat (ilength (data i))" and ?c = "contents (fs_device s) i"
  have "20 * j \<le> ?L" using less.prems(2) by linarith
  then have "20 * j < 2 ^ 31" using inode_ok_length [of "fs_device s" i] less.prems(1) by (simp add: dir_ok_def)
  then have sj: "sint (of_nat (20 * j) :: u32) = int (20 * j)" by (intro sint_of_nat_small) simp
  obtain s1 where s1: "inode_read_at ip 20 (int (20 * j)) s =
      Some (if j < ?L div 20 then take 20 (drop (20 * j) ?c) else [], s1)" "only_read s s1"
    using read_entry [OF less.prems] by blast
  show ?case
  proof (cases "j < ?L div 20")
    case False
    then have "lookup_loop ip nm (of_nat (20 * j)) s = Some (None, s1)"
      using s1(1) sj by (subst lookup_loop_holds) simp
    then show ?thesis using s1(2) False by (auto simp: found_def)
  next
    case True
    let ?bs = "take 20 (drop (20 * j) ?c)"
    have j1: "Suc j \<le> ?L div 20" and dec: "?L div 20 - Suc j < ?L div 20 - j" using True by simp_all
    have bs: "length ?bs = 20" using True by simp
    have e: "entries ?c ! j = entry_of ?bs" using True by simp
    show ?thesis
    proof (cases "holds nm (entry_of ?bs)")
      case h: True
      then have "lookup_loop ip nm (of_nat (20 * j)) s = Some (Some (entry_of ?bs, of_nat (20 * j)), s1)"
        using s1(1) sj True bs by (subst lookup_loop_holds) simp
      moreover have "found ?c nm j (Some (entry_of ?bs, of_nat (20 * j)))"
        using h e True by (auto simp: found_def intro!: exI [of _ j])
      ultimately show ?thesis using s1(2) by blast
    next
      case h: False
      have "(of_nat (20 * j) :: u32) + 20 = of_nat (20 * Suc j)" by simp
      moreover have "lookup_loop ip nm (of_nat (20 * j)) s = lookup_loop ip nm (of_nat (20 * j) + 20) s1"
        using s1(1) sj True bs h by (subst lookup_loop_holds) simp
      ultimately have "lookup_loop ip nm (of_nat (20 * j)) s = lookup_loop ip nm (of_nat (20 * Suc j)) s1"
        by (simp only:)
      moreover obtain r s2 where "lookup_loop ip nm (of_nat (20 * Suc j)) s1 = Some (r, s2)" "only_read s1 s2"
        "found ?c nm (Suc j) r"
        using less.hyps [OF dec dir_ok_read [OF s1(2) less.prems(1)] j1]
        unfolding only_readD(12) [OF s1(2)] by blast
      moreover have "\<not> holds nm (entries ?c ! j)" using h unfolding e .
      ultimately show ?thesis using only_read_trans [OF s1(2)] found_step [of nm ?c j] by metis
    qed
  qed
qed

lemma lookup_ok:
  assumes "dir_ok s (dir_inode dr) i" and "dp \<noteq> NULL" and "dirs s dp = Some dr"
  shows "\<exists>r s'. lookup dp nm s = Some (r, s') \<and> only_read s s' \<and> found (contents (fs_device s) i) nm 0 r"
  using lookup_loop_ok [OF assms(1), of 0 nm] assms(2,3) by (simp add: lookup_def)

lemma found_dir_map:
  assumes "found c nm 0 r"
  shows "dir_map c nm = map_option (\<lambda>(e, _). inode_sector e) r"
proof (cases r)
  case None
  then have "find (holds nm) (entries c) = None"
    using assms by (auto simp: found_def find_None_iff in_set_conv_nth)
  then show ?thesis using None by (simp add: dir_map_def)
next
  case (Some a)
  obtain e ofs where a: "a = (e, ofs)" by (cases a)
  then have "find (holds nm) (entries c) = Some e"
    using assms Some unfolding found_def find_Some_iff by auto
  then show ?thesis using Some a by (simp add: dir_map_def)
qed

section \<open>Adding a name\<close>

text \<open>The slot that \<open>dir_add\<close> writes: the first free one, or the end of the directory.\<close>

definition slot :: "u8 list \<Rightarrow> nat \<Rightarrow> int \<Rightarrow> u8 list \<Rightarrow> bool" where
  "slot c j ofs e \<longleftrightarrow> length e = 20 \<and>
     ((\<exists>k. j \<le> k \<and> k < length (entries c) \<and> ofs = int (20 * k) \<and> \<not> in_use (entries c ! k)) \<or>
      ofs = int (length c) \<and> (\<forall>m. j \<le> m \<and> m < length (entries c) \<longrightarrow> in_use (entries c ! m)))"

lemma slot_step:
  assumes u: "in_use (entries c ! j)" and sl: "slot c (Suc j) ofs e"
  shows "slot c j ofs e"
proof -
  have "in_use (entries c ! m)" if "Suc j \<le> m \<longrightarrow> in_use (entries c ! m)" "j \<le> m" for m
    using u that by (cases "m = j") auto
  then have "(\<forall>m. Suc j \<le> m \<and> m < length (entries c) \<longrightarrow> in_use (entries c ! m)) \<Longrightarrow>
      \<forall>m. j \<le> m \<and> m < length (entries c) \<longrightarrow> in_use (entries c ! m)" by blast
  moreover have "(\<exists>k. Suc j \<le> k \<and> k < length (entries c) \<and> ofs = int (20 * k) \<and> \<not> in_use (entries c ! k)) \<Longrightarrow>
      \<exists>k. j \<le> k \<and> k < length (entries c) \<and> ofs = int (20 * k) \<and> \<not> in_use (entries c ! k)"
    using Suc_leD by blast
  ultimately show ?thesis using sl unfolding slot_def by argo
qed

lemma free_slot_loop_ok:
  assumes "dir_ok s ip i" and "j \<le> nat (ilength (data i)) div 20" and "length e = 20"
  shows "\<exists>ofs e' s'. free_slot_loop ip e (int (20 * j)) s = Some (ofs, e', s') \<and> only_read s s' \<and>
    slot (contents (fs_device s) i) j ofs e'"
  using assms
proof (induction "nat (ilength (data i)) div 20 - j" arbitrary: j s e rule: less_induct)
  case less
  let ?L = "nat (ilength (data i))" and ?c = "contents (fs_device s) i"
  obtain s1 where s1: "inode_read_at ip 20 (int (20 * j)) s =
      Some (if j < ?L div 20 then take 20 (drop (20 * j) ?c) else [], s1)" "only_read s s1"
    using read_entry [OF less.prems(1,2)] by blast
  show ?case
  proof (cases "j < ?L div 20")
    case False
    then have "j = ?L div 20" using less.prems(2) by simp
    then have "?L = 20 * j" using less.prems(1) by (simp add: dir_ok_def)
    then have "slot ?c j (int (20 * j)) e" using less.prems(3) False by (auto simp: slot_def)
    moreover have "free_slot_loop ip e (int (20 * j)) s = Some (int (20 * j), e, s1)"
      using s1(1) False by (subst free_slot_loop.simps) simp
    ultimately show ?thesis using s1(2) by blast
  next
    case True
    let ?bs = "take 20 (drop (20 * j) ?c)"
    have j1: "Suc j \<le> ?L div 20" and dec: "?L div 20 - Suc j < ?L div 20 - j" using True by simp_all
    have bs: "length ?bs = 20" using True by simp
    have e: "entries ?c ! j = entry_of ?bs" using True by simp
    have app: "?bs @ drop (length ?bs) e = ?bs" using bs less.prems(3) by simp
    show ?thesis
    proof (cases "in_use (entry_of ?bs)")
      case u: True
      have "20 * Suc j \<le> ?L" using j1 less_eq_div_iff_mult_less_eq [of 20 "Suc j" ?L] by simp
      then have "20 * Suc j < 2 ^ 31" using inode_ok_length [of "fs_device s" i] less.prems(1) by (simp add: dir_ok_def)
      then have "off_t (int (20 * j) + 20) = int (20 * Suc j)"
        using off_t_small [of "int (20 * Suc j)"] by (simp add: add.commute)
      then have "free_slot_loop ip e (int (20 * j)) s = free_slot_loop ip ?bs (int (20 * Suc j)) s1"
        using s1(1) True bs u app by (subst free_slot_loop.simps) simp
      moreover obtain ofs e' s2 where "free_slot_loop ip ?bs (int (20 * Suc j)) s1 = Some (ofs, e', s2)"
        "only_read s1 s2" "slot ?c (Suc j) ofs e'"
        using less.hyps [OF dec dir_ok_read [OF s1(2) less.prems(1)] j1 bs]
        unfolding only_readD(12) [OF s1(2)] by blast
      moreover have "in_use (entries ?c ! j)" using u unfolding e .
      ultimately show ?thesis using only_read_trans [OF s1(2)] slot_step [of ?c j] by metis
    next
      case u: False
      then have "free_slot_loop ip e (int (20 * j)) s = Some (int (20 * j), ?bs, s1)"
        using s1(1) True bs app by (subst free_slot_loop.simps) simp
      moreover have "slot ?c j (int (20 * j)) ?bs"
        unfolding slot_def using bs u True e by (metis length_contents length_entries order_refl)
      ultimately show ?thesis using s1(2) by blast
    qed
  qed
qed

text \<open>The map after an entry is replaced.\<close>

lemma dir_map_update:
  assumes k: "k < length (entries c)" and c': "entries c' = (entries c)[k := e]"
    and nm: "\<not> holds nm (entries c ! k)" "\<not> holds nm e"
  shows "dir_map c' nm = dir_map c nm"
proof -
  have "find P (xs[k := y]) = find P xs" if "k < length xs" "\<not> P (xs ! k)" "\<not> P y"
    for P y and xs :: "dir_entry list" using that
    by (induction xs arbitrary: k) (auto split: nat.splits)
  then show ?thesis using assms by (simp add: dir_map_def del: length_entries nth_entries)
qed

lemma dir_map_new:
  assumes k: "k < length (entries c)" and c': "entries c' = (entries c)[k := e]"
    and nm: "dir_map c nm = None" "holds nm e"
  shows "dir_map c' nm = Some (inode_sector e)"
proof -
  have "find P (xs[k := y]) = Some y" if "k < length xs" "find P xs = None" "P y"
    for P y and xs :: "dir_entry list" using that
    by (induction xs arbitrary: k) (auto split: nat.splits if_splits)
  then show ?thesis using assms by (simp add: dir_map_def del: length_entries nth_entries)
qed

lemma dir_map_none: "dir_map c nm = None \<longleftrightarrow> (\<forall>m<length (entries c). \<not> holds nm (entries c ! m))"
  by (simp add: dir_map_def find_None_iff in_set_conv_nth del: length_entries nth_entries) metis

text \<open>Writing one entry of a directory.\<close>

lemma write_entry:
  assumes ok: "dir_ok s ip i" and dw: "deny_write_cnt i = 0" and k: "k < nat (ilength (data i)) div 20"
    and e: "length (entry_name e) = 15"
  shows "\<exists>s'. inode_write_at ip (entry_bytes e) 20 (int (20 * k)) s = Some (20, s') \<and>
    wrote s s' i (20 * k) (entry_bytes e) \<and>
    entries (contents (fs_device s') i) = (entries (contents (fs_device s) i))[k := e]"
proof -
  let ?L = "nat (ilength (data i))"
  have k20: "20 * k + 20 \<le> ?L" using k by linarith
  then have "20 * k < 2 ^ 31" using inode_ok_length [of "fs_device s" i] ok by (simp add: dir_ok_def)
  moreover have lb: "length (entry_bytes e) = 20" using e by (rule length_entry_bytes)
  moreover have "min 20 (?L - 20 * k) = 20" using k20 by simp
  ultimately obtain s' where s': "inode_write_at ip (entry_bytes e) (int 20) (int (20 * k)) s = Some (int 20, s')"
    "wrote s s' i (20 * k) (entry_bytes e)"
    using inode_write_at_ok [of s ip i "20 * k" 20 "entry_bytes e"] ok dw by (auto simp: dir_ok_def)
  have "contents (fs_device s') i = take (20 * k) (contents (fs_device s) i) @ entry_bytes e @
      drop (20 * k + 20) (contents (fs_device s) i)"
    using written_contents [OF wroteD(10) [OF s'(2)]] lb k20 by simp
  then have "entries (contents (fs_device s') i) = (entries (contents (fs_device s) i))[k := e]"
    using entries_update [of k "contents (fs_device s) i" e] k e by simp
  with s' show ?thesis by auto
qed

lemma names_unique_update:
  assumes u: "names_unique c" and k: "k < length (entries c)" and c': "entries c' = (entries c)[k := e]"
    and e: "in_use e \<Longrightarrow> dir_map c (cstr (entry_name e)) = None"
  shows "names_unique c'"
proof -
  have len: "length (entries c') = length (entries c)" by (simp add: c' del: length_entries)
  have other: "\<not> (in_use (entries c ! m) \<and> cstr (entry_name (entries c ! m)) = cstr (entry_name e))"
    if "in_use e" "m < length (entries c)" for m
    using e [OF that(1)] that(2) unfolding dir_map_none holds_def by metis
  show ?thesis
    unfolding names_unique_def
  proof (intro allI impI)
    fix a b
    assume ab: "a < length (entries c')" "b < length (entries c')" and
      same: "in_use (entries c' ! a) \<and> in_use (entries c' ! b) \<and>
        cstr (entry_name (entries c' ! a)) = cstr (entry_name (entries c' ! b))"
    have nth: "entries c' ! m = (if m = k then e else entries c ! m)" if "m < length (entries c)" for m
      using that unfolding c' by (simp add: nth_list_update del: nth_entries length_entries)
    note ab' = ab [unfolded len]
    consider "a = b" | "a = k" "b \<noteq> k" | "a \<noteq> k" "b = k" | "a \<noteq> k" "b \<noteq> k" by blast
    then show "a = b"
    proof cases
      case 2
      then have "in_use e" "in_use (entries c ! b)" "cstr (entry_name (entries c ! b)) = cstr (entry_name e)"
        using same unfolding nth [OF ab'(1)] nth [OF ab'(2)] by simp_all
      then show ?thesis using other [OF _ ab'(2)] by blast
    next
      case 3
      then have "in_use e" "in_use (entries c ! a)" "cstr (entry_name (entries c ! a)) = cstr (entry_name e)"
        using same unfolding nth [OF ab'(1)] nth [OF ab'(2)] by simp_all
      then show ?thesis using other [OF _ ab'(1)] by blast
    next
      case 4
      then show ?thesis
        using same u ab' unfolding nth [OF ab'(1)] nth [OF ab'(2)] names_unique_def by simp
    qed
  qed
qed

lemma length_entry_name: "length e = 20 \<Longrightarrow> length (entry_name (entry_of e)) = 15"
  by (simp add: entry_of_def)

lemma length_nth_entries: "k < length (entries c) \<Longrightarrow> length (entry_name (entries c ! k)) = 15"
  by (simp add: length_entry_name)

lemma dir_add_ok:
  assumes ok: "dir_ok s (dir_inode dr) i" and dp: "dp \<noteq> NULL" "dirs s dp = Some dr" and dw: "deny_write_cnt i = 0"
    and nm: "nm \<noteq> []" "length nm \<le> NAME_MAX" "0 \<notin> set nm" and e: "length e = 20"
    and u: "names_unique (contents (fs_device s) i)"
  defines "c \<equiv> contents (fs_device s) i"
  shows "\<exists>added s'. dir_add e dp nm sec s = Some (added, s') \<and> dir_ok s' (dir_inode dr) i \<and>
    (added \<longleftrightarrow> dir_map c nm = None \<and> (\<exists>k<length (entries c). \<not> in_use (entries c ! k))) \<and>
    dir_map (contents (fs_device s') i) = (if added then (dir_map c)(nm \<mapsto> sec) else dir_map c) \<and>
    names_unique (contents (fs_device s') i)"
proof -
  obtain r s1 where s1: "lookup dp nm s = Some (r, s1)" "only_read s s1" "found c nm 0 r"
    using lookup_ok [OF ok dp] unfolding c_def by blast
  note dm = found_dir_map [OF s1(3)]
  show ?thesis
  proof (cases "r = None")
    case False
    then have "dir_add e dp nm sec s = Some (False, s1)" using s1(1) dp(1) nm by (simp add: dir_add_def)
    moreover have "dir_map c nm \<noteq> None" using dm False by auto
    ultimately show ?thesis using u dir_ok_read [OF s1(2) ok]
      by (intro exI [of _ False] exI [of _ s1]) (auto simp: only_readD [OF s1(2)] c_def)
  next
    case True
    then have none: "dir_map c nm = None" using dm by simp
    have "free_slot_loop (dir_inode dr) e (int (20 * 0)) s1 = free_slot_loop (dir_inode dr) e 0 s1" by simp
    then obtain ofs e' s2 where s2: "free_slot_loop (dir_inode dr) e 0 s1 = Some (ofs, e', s2)" "only_read s1 s2"
      "slot c 0 ofs e'"
      using free_slot_loop_ok [OF dir_ok_read [OF s1(2) ok], of 0 e] e
      unfolding only_readD(12) [OF s1(2)] c_def by auto
    note r2 = only_read_trans [OF s1(2) s2(2)]
    let ?e = "\<lparr>inode_sector = sec, entry_name = set_name nm (entry_name (entry_of e')), in_use = True\<rparr>"
    have le: "length (entry_name (entry_of e')) = 15" using s2(3) by (simp add: slot_def length_entry_name)
    have ne: "length (entry_name ?e) = 15" "holds nm ?e"
      using set_name_ok [OF _ le nm(3)] nm(2) by (simp_all add: holds_def NAME_MAX_def)
    have add: "dir_add e dp nm sec s = inode_write_at (dir_inode dr) (entry_bytes ?e) 20 ofs s2 \<bind>
        (\<lambda>(n, s). Some (n = 20, s))"
      using s1(1) s2(1) True dp nm by (simp add: dir_add_def only_readD [OF s1(2)] Let_def)
    note ok2 = dir_ok_read [OF r2 ok]
    have c2: "contents (fs_device s2) i = c" by (simp add: only_readD [OF r2] c_def)
    from s2(3) consider k where "k < length (entries c)" "ofs = int (20 * k)" "\<not> in_use (entries c ! k)"
      | "ofs = int (length c)" "\<forall>m<length (entries c). in_use (entries c ! m)"
      unfolding slot_def by blast
    then show ?thesis
    proof cases
      case 1
      have kL: "k < nat (ilength (data i)) div 20" using 1(1) by (simp add: c_def)
      obtain s3 where s3: "inode_write_at (dir_inode dr) (entry_bytes ?e) 20 (int (20 * k)) s2 = Some (20, s3)"
        "wrote s2 s3 i (20 * k) (entry_bytes ?e)" "entries (contents (fs_device s3) i) = (entries c)[k := ?e]"
        using write_entry [OF ok2 dw kL ne(1)] unfolding c2 by blast
      have "dir_map (contents (fs_device s3) i) m = ((dir_map c)(nm \<mapsto> sec)) m" for m
      proof (cases "m = nm")
        case True
        then show ?thesis using dir_map_new [OF 1(1) s3(3) none ne(2)] by simp
      next
        case False
        then have "\<not> holds m ?e" "\<not> holds m (entries c ! k)" using ne(2) 1(3) by (auto simp: holds_def)
        then show ?thesis using dir_map_update [OF 1(1) s3(3)] False by simp
      qed
      moreover have "names_unique (contents (fs_device s3) i)"
        using names_unique_update [OF u [folded c_def] 1(1) s3(3)] ne(2) none by (simp add: holds_def)
      moreover have "dir_ok s3 (dir_inode dr) i" using ok2 by (simp add: dir_ok_def wroteD [OF s3(2)])
      moreover have "dir_add e dp nm sec s = Some (True, s3)" using add s3(1) 1(2) by simp
      ultimately show ?thesis using none 1(1,3) by (intro exI [of _ True] exI [of _ s3]) (auto simp: fun_eq_iff)
    next
      case 2
      let ?L = "nat (ilength (data i))"
      have "?L < 2 ^ 31" using inode_ok_length [of "fs_device s" i] ok by (simp add: dir_ok_def)
      then obtain s3 where s3: "inode_write_at (dir_inode dr) (entry_bytes ?e) (int 20) (int ?L) s2 = Some (int 0, s3)"
        "wrote s2 s3 i ?L []"
        using inode_write_at_ok [of s2 "dir_inode dr" i ?L 20 "entry_bytes ?e"] ok2 dw length_entry_bytes [OF ne(1)]
        by (auto simp: dir_ok_def)
      have "contents (fs_device s3) i = c"
        using written_contents [OF wroteD(10) [OF s3(2)]] c2 by simp
      moreover have "dir_ok s3 (dir_inode dr) i" using ok2 by (simp add: dir_ok_def wroteD [OF s3(2)])
      moreover have "dir_add e dp nm sec s = Some (False, s3)" using add s3(1) 2(1) by (simp add: c_def)
      ultimately show ?thesis using 2(2) u [folded c_def] by (intro exI [of _ False] exI [of _ s3]) auto
    qed
  qed
qed

section \<open>Removing a name\<close>

lemma find_open_cong: "inodes s' = inodes s \<Longrightarrow> find_open sec ips s' = find_open sec ips s"
  by (induction ips) (simp_all cong: if_cong)

lemma dir_remove_none:
  assumes "dir_ok s (dir_inode dr) i" and "dp \<noteq> NULL" "dirs s dp = Some dr"
    and "dir_map (contents (fs_device s) i) nm = None"
  shows "\<exists>s'. dir_remove dp nm s = Some (False, s') \<and> only_read s s'"
proof -
  obtain r s1 where s1: "lookup dp nm s = Some (r, s1)" "only_read s s1" "found (contents (fs_device s) i) nm 0 r"
    using lookup_ok [OF assms(1-3)] by blast
  have "r = None" using found_dir_map [OF s1(3)] assms(4) by auto
  then show ?thesis using s1(1,2) assms(2) by (simp add: dir_remove_def)
qed

text \<open>The map after the entry of a name is given up.\<close>

lemma clear_entry:
  assumes u: "names_unique c" and k: "k < length (entries c)" "e = entries c ! k" "holds nm e"
    and c': "entries c' = (entries c)[k := e\<lparr>in_use := False\<rparr>]"
  shows "dir_map c' = (dir_map c)(nm := None)" "names_unique c'"
proof -
  show "names_unique c'" using names_unique_update [OF u k(1) c'] by simp
  have "dir_map c' m = ((dir_map c)(nm := None)) m" for m
  proof (cases "m = nm")
    case True
    have "\<not> holds nm (entries c' ! j)" if j: "j < length (entries c)" for j
    proof (cases "j = k")
      case False
      then show ?thesis
        using u j k unfolding c' names_unique_def holds_def by (auto simp del: nth_entries length_entries)
    qed (use k(1) in \<open>simp add: c' holds_def del: nth_entries length_entries\<close>)
    moreover have "length (entries c') = length (entries c)" unfolding c' by (simp del: length_entries)
    ultimately show ?thesis using True dir_map_none [of c' nm] by simp
  next
    case False
    then have "\<not> holds m (e\<lparr>in_use := False\<rparr>)" "\<not> holds m (entries c ! k)" using k(2,3) by (auto simp: holds_def)
    then show ?thesis using dir_map_update [OF k(1) c'] False by simp
  qed
  then show "dir_map c' = (dir_map c)(nm := None)" by blast
qed

lemma dir_remove_ok:
  assumes ok: "dir_ok s (dir_inode dr) i" and dp: "dp \<noteq> NULL" "dirs s dp = Some dr" and dw: "deny_write_cnt i = 0"
    and u: "names_unique (contents (fs_device s) i)"
  defines "c \<equiv> contents (fs_device s) i"
  assumes nm: "dir_map c nm = Some sec"
    and f: "find_open sec (open_inodes s) s = Some (Some ip)" "ip \<noteq> NULL" "ip \<noteq> dir_inode dr"
      "inodes s ip = Some f" "0 < open_cnt f"
  shows "\<exists>s'. dir_remove dp nm s = Some (True, s') \<and> dir_ok s' (dir_inode dr) i \<and>
    dir_map (contents (fs_device s') i) = (dir_map c)(nm := None) \<and> names_unique (contents (fs_device s') i) \<and>
    inodes s' = (inodes s)(ip \<mapsto> f\<lparr>removed := True\<rparr>)"
proof -
  obtain r s1 where s1: "lookup dp nm s = Some (r, s1)" "only_read s s1" "found c nm 0 r"
    using lookup_ok [OF ok dp] unfolding c_def by blast
  obtain e ofs where r: "r = Some (e, ofs)" "inode_sector e = sec" using found_dir_map [OF s1(3)] nm by (cases r) auto
  obtain k where k: "k < length (entries c)" "e = entries c ! k" "ofs = of_nat (20 * k)" "holds nm e"
    using s1(3) unfolding found_def r(1) by auto
  define s2 where "s2 = s1\<lparr>inodes := (inodes s1)(ip \<mapsto> f\<lparr>open_cnt := open_cnt f + 1\<rparr>)\<rparr>"
  have op: "inode_open sec s1 = Some (ip, s2)"
    using f find_open_cong [of s1 s sec "open_inodes s"] only_readD(1,4) [OF s1(2)]
    by (simp add: inode_open_def inode_reopen_def s2_def)
  have ok2: "dir_ok s2 (dir_inode dr) i"
    using dir_ok_read [OF s1(2) ok] f(3) by (simp add: s2_def dir_ok_def mem_ok_def)
  have kL: "k < nat (ilength (data i)) div 20" using k(1) by (simp add: c_def)
  then have "20 * k + 20 \<le> nat (ilength (data i))" by linarith
  then have "20 * k < 2 ^ 31" using inode_ok_length [of "fs_device s" i] ok by (simp add: dir_ok_def)
  then have sk: "sint ofs = int (20 * k)" unfolding k(3) by (intro sint_of_nat_small) simp
  let ?e = "e\<lparr>in_use := False\<rparr>"
  have le: "length (entry_name ?e) = 15" using length_nth_entries [OF k(1)] k(2) by simp
  have c2: "contents (fs_device s2) i = c" by (simp add: s2_def only_readD [OF s1(2)] c_def)
  obtain s3 where s3: "inode_write_at (dir_inode dr) (entry_bytes ?e) 20 (int (20 * k)) s2 = Some (20, s3)"
    "wrote s2 s3 i (20 * k) (entry_bytes ?e)" "entries (contents (fs_device s3) i) = (entries c)[k := ?e]"
    using write_entry [OF ok2 dw kL le] unfolding c2 by blast
  define s4 where "s4 = s3\<lparr>inodes := (inodes s3)(ip \<mapsto> f\<lparr>removed := True\<rparr>)\<rparr>"
  have i3: "inodes s3 = (inodes s)(ip \<mapsto> f\<lparr>open_cnt := open_cnt f + 1\<rparr>)"
    by (simp add: wroteD [OF s3(2)] s2_def only_readD [OF s1(2)])
  have "dir_remove dp nm s = Some (True, s4)"
    using s1(1) r op s3(1) f dp sk i3
    by (simp add: dir_remove_def s2_def only_readD [OF s1(2)] inode_remove_def inode_close_def s4_def)
  moreover have "dir_ok s4 (dir_inode dr) i"
    using ok2 f(3) by (simp add: s4_def dir_ok_def wroteD [OF s3(2)] mem_ok_def) (use wroteD(7) [OF s3(2)] in \<open>auto simp: mem_ok_def\<close>)
  moreover note clear_entry [OF u [folded c_def] k(1,2,4) s3(3)]
  moreover have "inodes s4 = (inodes s)(ip \<mapsto> f\<lparr>removed := True\<rparr>)" "fs_device s4 = fs_device s3"
    by (simp_all add: s4_def i3)
  ultimately show ?thesis by (intro exI [of _ s4]) simp
qed

text \<open>Writing the free map back: what it has for a file does not matter to the map in memory.\<close>

lemma byte_cnt_bits:
  assumes "bm_wf b"
  shows "\<exists>z. sint (byte_cnt (bit_cnt b)) = int z \<and> z \<le> 4 * length (bits b)"
proof -
  let ?e = "unat (elem_cnt (bit_cnt b))"
  have "unat (31 + bit_cnt b) \<le> unat (bit_cnt b) + 31" by (simp add: unat_word_ariths)
  then have "?e \<le> (unat (bit_cnt b) + 31) div 32"
    by (simp add: elem_cnt_def DIV_ROUND_UP_def ELEM_BITS_def unat_div div_le_mono)
  also have "\<dots> \<le> length (bits b)" using assms by (simp add: bm_wf_def div_le_dividend)
  finally have e: "?e \<le> length (bits b)" .
  have "?e < 2 ^ 27" using unsigned_less [of "31 + bit_cnt b", where ?'a = nat]
    by (simp add: elem_cnt_def DIV_ROUND_UP_def ELEM_BITS_def unat_div)
  then have "byte_cnt (bit_cnt b) = of_nat (4 * ?e)" "4 * ?e < 2 ^ 31" by (simp_all add: byte_cnt_def)
  then show ?thesis using e sint_of_nat_small [of "4 * ?e", where 'a = 32] by (intro exI [of _ "4 * ?e"]) simp
qed

lemma length_map_bytes: "length (concat (map le32 xs)) = 4 * length xs"
  by (induction xs) simp_all

definition free_map_ok :: "fs \<Rightarrow> inode \<Rightarrow> bool" where
  "free_map_ok s fi \<longleftrightarrow> bm_wf (free_map s) \<and> inode_ok (fs_device s) fi \<and>
     (\<exists>f. files s (free_map_file s) = Some f \<and> inodes s (file_inode f) = Some fi)"

lemma free_map_release_ok:
  assumes fm: "free_map_ok s fi" and s: "dev_ok (fs_device s)" "mem_ok s"
    and r: "all_range (unat sec) (unat cnt) True (bm_bits (free_map s))"
  shows "\<exists>b bs s'. free_map_release sec cnt s = Some s' \<and> free_map_ok s' fi \<and> wrote (s\<lparr>free_map := b\<rparr>) s' fi 0 bs \<and>
    bm_bits b = set_range (unat sec) (unat cnt) False (bm_bits (free_map s))"
proof -
  obtain f where f: "bm_wf (free_map s)" "inode_ok (fs_device s) fi" "files s (free_map_file s) = Some f"
    "inodes s (file_inode f) = Some fi" using fm by (auto simp: free_map_ok_def)
  have rg: "unat sec + unat cnt \<le> unat (bit_cnt (free_map s))" using r by (simp add: all_range_def)
  obtain b where b: "bitmap_set_multiple (free_map s) sec cnt False = Some b" "bm_wf b"
    "bm_bits b = set_range (unat sec) (unat cnt) False (bm_bits (free_map s))"
    using bitmap_set_multiple_bits [OF f(1) rg] by blast
  let ?s = "s\<lparr>free_map := b\<rparr>"
  obtain z where z: "sint (byte_cnt (bit_cnt b)) = int z" "z \<le> 4 * length (bits b)" using byte_cnt_bits [OF b(2)] by blast
  have "\<exists>n bs s'. inode_write_at (file_inode f) (concat (map le32 (bits b))) (int z) 0 ?s = Some (n, s') \<and> wrote ?s s' fi 0 bs"
  proof (cases "deny_write_cnt fi = 0")
    case True
    then show ?thesis
      using inode_write_at_ok [of ?s "file_inode f" fi 0 z "concat (map le32 (bits b))"] f s z(2)
      by (auto simp: mem_ok_def length_map_bytes)
  next
    case False
    have "wrote ?s ?s fi 0 []" unfolding wrote_def
      using written_refl [of "fs_device s" "fs_device s"] s(1) by (intro exI [of _ "fs_device s"] exI [of _ "brk s"]) simp
    then show ?thesis using False f by (auto simp: inode_write_at_def)
  qed
  then obtain n bs s' where w: "inode_write_at (file_inode f) (concat (map le32 (bits b))) (int z) 0 ?s = Some (n, s')"
    "wrote ?s s' fi 0 bs" by blast
  have "free_map_release sec cnt s = Some s'"
    using bitmap_all_bits [OF f(1) rg] r b(1) w(1) f(3) z(1) by (simp add: free_map_release_def bitmap_write_def file_write_at_def)
  moreover have "free_map_ok s' fi"
    using f b(2) wroteD [OF w(2)] by (simp add: free_map_ok_def)
  ultimately show ?thesis using w(2) b(3) by blast
qed

text \<open>A file that is not open: its inode is on the device, and the inode and the data are marked as in use, at different
  places. Addresses from \<open>brk\<close> on have not been used.\<close>

definition closed_file :: "fs \<Rightarrow> u32 \<Rightarrow> inode_disk \<Rightarrow> bool" where
  "closed_file s sec di \<longleftrightarrow> find_open sec (open_inodes s) s = Some None \<and> (\<forall>a\<ge>brk s. inodes s a = None) \<and>
     sec < dev_size (fs_device s) \<and> di = inode_disk_of (sectors (fs_device s) sec) \<and>
     all_range (unat sec) 1 True (bm_bits (free_map s)) \<and>
     all_range (unat (start di)) (unat (bytes_to_sectors (ilength di))) True (bm_bits (free_map s)) \<and>
     \<not> (unat (start di) \<le> unat sec \<and> unat sec < unat (start di) + unat (bytes_to_sectors (ilength di)))"

text \<open>Closing an inode that was opened once and is to be removed.\<close>

lemma close_removed:
  assumes fm: "free_map_ok s fi" and s: "dev_ok (fs_device s)" "mem_ok s"
    and ip: "ip \<noteq> NULL" "inodes s ip = Some \<lparr>sector = sec, open_cnt = 1, removed = True, deny_write_cnt = w, data = di\<rparr>"
      "open_inodes s = ip # ips" "\<And>f. files s (free_map_file s) = Some f \<Longrightarrow> file_inode f \<noteq> ip"
    and r: "all_range (unat sec) 1 True (bm_bits (free_map s))"
      "all_range (unat (start di)) (unat (bytes_to_sectors (ilength di))) True (bm_bits (free_map s))"
      "\<not> (unat (start di) \<le> unat sec \<and> unat sec < unat (start di) + unat (bytes_to_sectors (ilength di)))"
    and dj: "data_sectors i \<inter> data_sectors fi = {}"
  shows "\<exists>s'. inode_close ip s = Some s' \<and> inodes s' = (inodes s)(ip := None) \<and> open_inodes s' = ips \<and> dirs s' = dirs s \<and>
    mem_ok s' \<and> dev_ok (fs_device s') \<and> inode_ok (fs_device s') = inode_ok (fs_device s) \<and>
    contents (fs_device s') i = contents (fs_device s) i \<and>
    bm_bits (free_map s') = set_range (unat (start di)) (unat (bytes_to_sectors (ilength di))) False
      (set_range (unat sec) 1 False (bm_bits (free_map s)))"
proof -
  let ?n = "bytes_to_sectors (ilength di)"
  define s0 where "s0 = s\<lparr>inodes := (inodes s)(ip \<mapsto> \<lparr>sector = sec, open_cnt = 0, removed = True, deny_write_cnt = w, data = di\<rparr>),
    open_inodes := ips\<rparr>"
  have s0: "free_map_ok s0 fi" "dev_ok (fs_device s0)" "mem_ok s0"
    using fm s ip(4) by (auto simp: s0_def free_map_ok_def mem_ok_def)
  have "unat (1 :: u32) = 1" by simp
  then obtain b1 bs1 s1 where s1: "free_map_release sec 1 s0 = Some s1" "free_map_ok s1 fi" "wrote (s0\<lparr>free_map := b1\<rparr>) s1 fi 0 bs1"
    "bm_bits b1 = set_range (unat sec) 1 False (bm_bits (free_map s))"
    using free_map_release_ok [OF s0, of sec 1] r(1) by (auto simp: s0_def)
  note w1 = wroteD [OF s1(3)]
  have "all_range (unat (start di)) (unat ?n) True (bm_bits (free_map s1))"
    using r(2,3) unfolding w1(5) by (auto simp: s1(4) all_range_def nth_set_range)
  moreover have "dev_ok (fs_device s1)" "mem_ok s1" using w1(7,8) s0(3) by (simp_all add: mem_ok_def)
  ultimately obtain b2 bs2 s2 where s2: "free_map_release (start di) ?n s1 = Some s2" "wrote (s1\<lparr>free_map := b2\<rparr>) s2 fi 0 bs2"
    "bm_bits b2 = set_range (unat (start di)) (unat ?n) False (bm_bits (free_map s1))"
    using free_map_release_ok [OF s1(2)] by blast
  note w2 = wroteD [OF s2(2)]
  have "inode_close ip s = Some (s2\<lparr>inodes := (inodes s2)(ip := None)\<rparr>)"
    using ip(1-3) s1(1) s2(1) by (simp add: inode_close_def s0_def Let_def)
  moreover have "contents (fs_device s2) i = contents (fs_device s) i"
    using written_other [OF w2(10) dj] written_other [OF w1(10) dj] by (simp add: s0_def)
  moreover have "mem_ok s2" using w2(7) \<open>mem_ok s1\<close> by (simp add: mem_ok_def)
  ultimately show ?thesis
    using w1 w2 s1(4) s2(3) by (intro exI [of _ "s2\<lparr>inodes := (inodes s2)(ip := None)\<rparr>"]) (simp add: s0_def mem_ok_def)
qed

lemma dir_remove_closed:
  assumes ok: "dir_ok s (dir_inode dr) i" and dp: "dp \<noteq> NULL" "dirs s dp = Some dr" and dw: "deny_write_cnt i = 0"
    and u: "names_unique (contents (fs_device s) i)"
  defines "c \<equiv> contents (fs_device s) i"
  assumes nm: "dir_map c nm = Some sec" and cf: "closed_file s sec di" and fm: "free_map_ok s fi"
    and dj: "data_sectors i \<inter> data_sectors fi = {}"
  shows "\<exists>s'. dir_remove dp nm s = Some (True, s') \<and> dir_ok s' (dir_inode dr) i \<and>
    dir_map (contents (fs_device s') i) = (dir_map c)(nm := None) \<and> names_unique (contents (fs_device s') i) \<and>
    inodes s' = inodes s \<and> open_inodes s' = open_inodes s \<and>
    bm_bits (free_map s') = set_range (unat (start di)) (unat (bytes_to_sectors (ilength di))) False
      (set_range (unat sec) 1 False (bm_bits (free_map s)))"
proof -
  note cl = cf [unfolded closed_file_def]
  obtain r s1 where s1: "lookup dp nm s = Some (r, s1)" "only_read s s1" "found c nm 0 r"
    using lookup_ok [OF ok dp] unfolding c_def by blast
  obtain e ofs where r: "r = Some (e, ofs)" "inode_sector e = sec" using found_dir_map [OF s1(3)] nm by (cases r) auto
  obtain k where k: "k < length (entries c)" "e = entries c ! k" "ofs = of_nat (20 * k)" "holds nm e"
    using s1(3) unfolding found_def r(1) by auto
  note r1 = only_readD [OF s1(2)]
  obtain rc bk where s1eq: "s1 = s\<lparr>fs_device := (fs_device s)\<lparr>read_cnt := rc\<rparr>, brk := bk\<rparr>" "brk s \<le> bk"
    using s1(2) by (auto simp: only_read_def)
  have m1: "oom s1 = []" "bk \<noteq> NULL" using r1(8) ok by (auto simp: dir_ok_def mem_ok_def s1eq)
  have fresh: "inodes s bk = None" using cl s1eq(2) by simp
  let ?f = "\<lparr>sector = sec, open_cnt = 1, removed = False, deny_write_cnt = 0, data = di\<rparr>"
  define s2 where "s2 = s\<lparr>fs_device := (fs_device s)\<lparr>read_cnt := rc + 1\<rparr>, brk := bk + 1, open_inodes := bk # open_inodes s,
    inodes := (inodes s)(bk \<mapsto> ?f)\<rparr>"
  have op: "inode_open sec s1 = Some (bk, s2)"
    using cl m1 find_open_cong [of s1 s sec "open_inodes s"]
    by (simp add: inode_open_def s1eq fs_malloc_def fs_read_def block_read_def check_sector_def s2_def)
  have ne: "bk \<noteq> dir_inode dr" using fresh ok by (auto simp: dir_ok_def)
  have dev2: "sectors (fs_device s2) = sectors (fs_device s)" "type_of (fs_device s2) = type_of (fs_device s)"
    "dev_size (fs_device s2) = dev_size (fs_device s)" by (simp_all add: s2_def)
  have ok2: "dir_ok s2 (dir_inode dr) i"
    using ok ne m1 dev2 by (simp add: dir_ok_def dev_ok_def inode_ok_def mem_ok_def) (simp add: s2_def NULL_def s1eq)
  have kL: "k < nat (ilength (data i)) div 20" using k(1) by (simp add: c_def)
  then have "20 * k + 20 \<le> nat (ilength (data i))" by linarith
  then have "20 * k < 2 ^ 31" using inode_ok_length [of "fs_device s" i] ok by (simp add: dir_ok_def)
  then have sk: "sint ofs = int (20 * k)" unfolding k(3) by (intro sint_of_nat_small) simp
  let ?e = "e\<lparr>in_use := False\<rparr>"
  have le: "length (entry_name ?e) = 15" using length_nth_entries [OF k(1)] k(2) by simp
  have c2: "contents (fs_device s2) i = c" by (simp add: c_def contents_def byte_at_def dev2 fun_eq_iff cong: map_cong)
  obtain s3 where s3: "inode_write_at (dir_inode dr) (entry_bytes ?e) 20 (int (20 * k)) s2 = Some (20, s3)"
    "wrote s2 s3 i (20 * k) (entry_bytes ?e)" "entries (contents (fs_device s3) i) = (entries c)[k := ?e]"
    using write_entry [OF ok2 dw kL le] unfolding c2 by blast
  note w3 = wroteD [OF s3(2)]
  define s4 where "s4 = s3\<lparr>inodes := (inodes s3)(bk \<mapsto> ?f\<lparr>removed := True\<rparr>)\<rparr>"
  have i4: "inodes s4 = (inodes s)(bk \<mapsto> ?f\<lparr>removed := True\<rparr>)" by (simp add: s4_def w3 s2_def)
  have f4: "files s4 = files s" "free_map_file s4 = free_map_file s" "free_map s4 = free_map s" "open_inodes s4 = bk # open_inodes s"
    "dirs s4 = dirs s" "fs_device s4 = fs_device s3" by (simp_all add: s4_def w3 s2_def)
  have io: "inode_ok (fs_device s3) = inode_ok (fs_device s)" unfolding w3(9) by (simp add: inode_ok_def dev2 fun_eq_iff)
  obtain ff where ff: "files s (free_map_file s) = Some ff" "inodes s (file_inode ff) = Some fi" using fm by (auto simp: free_map_ok_def)
  have nf: "file_inode ff \<noteq> bk" using ff(2) fresh by auto
  have fm4: "free_map_ok s4 fi" using fm nf ff by (simp add: free_map_ok_def f4 i4 io)
  have m4: "mem_ok s4" "dev_ok (fs_device s4)" using w3(7,8) ok2 by (simp_all add: s4_def mem_ok_def dir_ok_def)
  obtain s5 where s5: "inode_close bk s4 = Some s5" "inodes s5 = (inodes s4)(bk := None)" "open_inodes s5 = open_inodes s"
    "dirs s5 = dirs s4" "mem_ok s5" "dev_ok (fs_device s5)" "inode_ok (fs_device s5) = inode_ok (fs_device s4)"
    "contents (fs_device s5) i = contents (fs_device s4) i"
    "bm_bits (free_map s5) = set_range (unat (start di)) (unat (bytes_to_sectors (ilength di))) False
      (set_range (unat sec) 1 False (bm_bits (free_map s4)))"
    using close_removed [OF fm4 m4(2,1) m1(2), of sec 0 di "open_inodes s" i] cl nf ff dj by (auto simp: f4 i4)
  have i5: "inodes s5 = inodes s" using fresh by (simp add: s5(2) i4 fun_eq_iff)
  have "dir_remove dp nm s = Some (True, s5)"
    using s1(1) r op s3(1) dp sk m1(2) s5(1)
    by (simp add: dir_remove_def s2_def inode_remove_def s4_def) (simp add: w3 s2_def)
  moreover have "dir_ok s5 (dir_inode dr) i" using ok s5(5-7) by (simp add: dir_ok_def i5 f4(6) io)
  moreover note clear_entry [OF u [folded c_def] k(1,2,4) s3(3)]
  ultimately show ?thesis using i5 s5(3,8,9) by (intro exI [of _ s5]) (simp add: f4)
qed

section \<open>Properties\<close>

text \<open>C7: a directory is a map from names to sectors of inodes, while memory is available. A search finds what the map says;
  \<open>dir_add\<close> succeeds exactly when the name is new and there is a free slot, and then extends the map by it, otherwise it changes
  nothing. \<open>dir_remove\<close> takes the name out of the map: of a file that some process has open it marks the inode to be deleted
  when it is closed, of a file that is not open it frees exactly the sector of the inode and those of the data in the free map and
  leaves the open inodes as they were, and of a name that is not there it changes nothing. Names stay unique.\<close>

theorem dir_refines_map:
  assumes "dir_ok s (dir_inode dr) i" and "dp \<noteq> NULL" "dirs s dp = Some dr" and "deny_write_cnt i = 0"
    and "names_unique (contents (fs_device s) i)"
  defines "m \<equiv> dir_map (contents (fs_device s) i)"
  shows "(\<forall>nm. \<exists>r s'. lookup dp nm s = Some (r, s') \<and> map_option (\<lambda>(e, _). inode_sector e) r = m nm \<and>
      only_read s s') \<and>
    (\<forall>nm sec e. nm \<noteq> [] \<and> length nm \<le> NAME_MAX \<and> 0 \<notin> set nm \<and> length e = 20 \<longrightarrow>
      (\<exists>added s'. dir_add e dp nm sec s = Some (added, s') \<and> dir_ok s' (dir_inode dr) i \<and>
        (added \<longleftrightarrow> m nm = None \<and> (\<exists>k<length (entries (contents (fs_device s) i)).
           \<not> in_use (entries (contents (fs_device s) i) ! k))) \<and>
        dir_map (contents (fs_device s') i) = (if added then m(nm \<mapsto> sec) else m) \<and>
        names_unique (contents (fs_device s') i))) \<and>
    (\<forall>nm sec ip f. m nm = Some sec \<and> find_open sec (open_inodes s) s = Some (Some ip) \<and> ip \<noteq> NULL \<and>
      ip \<noteq> dir_inode dr \<and> inodes s ip = Some f \<and> 0 < open_cnt f \<longrightarrow>
      (\<exists>s'. dir_remove dp nm s = Some (True, s') \<and> dir_ok s' (dir_inode dr) i \<and>
        dir_map (contents (fs_device s') i) = m(nm := None) \<and> names_unique (contents (fs_device s') i) \<and>
        inodes s' = (inodes s)(ip \<mapsto> f\<lparr>removed := True\<rparr>))) \<and>
    (\<forall>nm sec di fi. m nm = Some sec \<and> closed_file s sec di \<and> free_map_ok s fi \<and> data_sectors i \<inter> data_sectors fi = {} \<longrightarrow>
      (\<exists>s'. dir_remove dp nm s = Some (True, s') \<and> dir_ok s' (dir_inode dr) i \<and>
        dir_map (contents (fs_device s') i) = m(nm := None) \<and> names_unique (contents (fs_device s') i) \<and>
        inodes s' = inodes s \<and> open_inodes s' = open_inodes s \<and>
        bm_bits (free_map s') = set_range (unat (start di)) (unat (bytes_to_sectors (ilength di))) False
          (set_range (unat sec) 1 False (bm_bits (free_map s))))) \<and>
    (\<forall>nm. m nm = None \<longrightarrow> (\<exists>s'. dir_remove dp nm s = Some (False, s') \<and> only_read s s'))"
proof (intro conjI allI impI)
  fix nm
  show "\<exists>r s'. lookup dp nm s = Some (r, s') \<and> map_option (\<lambda>(e, _). inode_sector e) r = m nm \<and> only_read s s'"
    using lookup_ok [OF assms(1-3)] found_dir_map unfolding m_def by metis
qed (use dir_add_ok [OF assms(1-4) _ _ _ _ assms(5)] dir_remove_ok [OF assms(1-5)] dir_remove_closed [OF assms(1-5)]
      dir_remove_none [OF assms(1-3)]
      in \<open>(simp only: m_def; blast)+\<close>)

definition sample_dir_inode :: inode where
  "sample_dir_inode = sample_inode\<lparr>data := \<lparr>start = 20, ilength = 320, magic = INODE_MAGIC\<rparr>\<rparr>"

definition sample_dir_fs :: fs where
  "sample_dir_fs = sample_fs\<lparr>inodes := [100 \<mapsto> sample_dir_inode], dirs := [300 \<mapsto> \<lparr>dir_inode = 100, dir_pos = 0\<rparr>]\<rparr>"

lemma sample_dir_contents: "contents (fs_device sample_dir_fs) sample_dir_inode = replicate 320 0"
proof -
  have "byte_at sample_dev sample_dir_inode = (\<lambda>q. 0)" by (simp add: byte_at_def sample_dev_def fun_eq_iff)
  moreover have "nat (ilength (data sample_dir_inode)) = 320" by (simp add: sample_dir_inode_def)
  ultimately show ?thesis by (simp add: contents_def sample_dir_fs_def sample_fs_def map_replicate_const)
qed

lemma sample_dir_free: "k < 16 \<Longrightarrow> \<not> in_use (entries (replicate 320 0) ! k)"
  by (simp add: entry_of_def)

lemma sample_dir_ok:
  "dir_ok sample_dir_fs 100 sample_dir_inode" "names_unique (contents (fs_device sample_dir_fs) sample_dir_inode)"
proof -
  show "dir_ok sample_dir_fs 100 sample_dir_inode"
    by (simp add: dir_ok_def sample_dir_fs_def sample_dir_inode_def sample_fs_def sample_dev_def dev_ok_def
        inode_ok_def sector_count_def mem_ok_def NULL_def)
  show "names_unique (contents (fs_device sample_dir_fs) sample_dir_inode)"
    unfolding sample_dir_contents names_unique_def using sample_dir_free by (simp del: nth_entries)
qed

text \<open>A directory with one file, which is not open: its inode is in sector 7 and its data in sector 30.\<close>

definition sample_entry :: dir_entry where
  "sample_entry = \<lparr>inode_sector = 7, entry_name = [65, 66] @ replicate 13 0, in_use = True\<rparr>"

definition used_dev :: block where
  "used_dev = sample_dev\<lparr>sectors := (\<lambda>_. replicate 512 0)(20 := entry_bytes sample_entry @ replicate 492 0,
     7 := inode_disk_bytes \<lparr>start = 30, ilength = 512, magic = INODE_MAGIC\<rparr>)\<rparr>"

definition map_inode :: inode where
  "map_inode = sample_inode\<lparr>data := \<lparr>start = 2, ilength = 8, magic = INODE_MAGIC\<rparr>\<rparr>"

definition used_fs :: fs where
  "used_fs = sample_dir_fs\<lparr>fs_device := used_dev, inodes := [100 \<mapsto> sample_dir_inode, 101 \<mapsto> map_inode], open_inodes := [100, 101],
     files := [301 \<mapsto> \<lparr>file_inode = 101, pos = 0, deny_write = False\<rparr>], free_map := \<lparr>bit_cnt = 64, bits = [0x40000080, 0]\<rparr>,
     free_map_file := 301, brk := 400\<rparr>"

lemma used_contents: "contents (fs_device used_fs) sample_dir_inode = entry_bytes sample_entry @ replicate 300 0"
  by code_simp

lemma used_entries: "entries (contents (fs_device used_fs) sample_dir_inode) =
    sample_entry # replicate 15 \<lparr>inode_sector = 0, entry_name = replicate 15 0, in_use = False\<rparr>"
  unfolding used_contents by code_simp

lemma used_map: "dir_map (contents (fs_device used_fs) sample_dir_inode) [65, 66] = Some 7"
  unfolding dir_map_def used_entries by (simp add: holds_def sample_entry_def cstr_def)

lemma used_unique: "names_unique (contents (fs_device used_fs) sample_dir_inode)"
  unfolding names_unique_def used_entries by (auto simp: nth_Cons split: nat.splits)

lemma used_closed: "closed_file used_fs 7 \<lparr>start = 30, ilength = 512, magic = INODE_MAGIC\<rparr>"
proof -
  have "inodes used_fs a = None" if "brk used_fs \<le> a" for a using that by (auto simp: used_fs_def sample_dir_fs_def)
  moreover have "find_open 7 (open_inodes used_fs) used_fs = Some None" "7 < dev_size (fs_device used_fs)"
    "inode_disk_of (sectors (fs_device used_fs) 7) = \<lparr>start = 30, ilength = 512, magic = INODE_MAGIC\<rparr>"
    "all_range (unat (7 :: u32)) 1 True (bm_bits (free_map used_fs))"
    "all_range (unat (30 :: u32)) (unat (bytes_to_sectors 512)) True (bm_bits (free_map used_fs))" by code_simp+
  ultimately show ?thesis unfolding closed_file_def by simp
qed

lemma used_free_map: "free_map_ok used_fs map_inode" "data_sectors sample_dir_inode \<inter> data_sectors map_inode = {}"
proof -
  show "free_map_ok used_fs map_inode"
    by (simp add: free_map_ok_def used_fs_def sample_dir_fs_def used_dev_def sample_dev_def map_inode_def bm_wf_def inode_ok_def sector_count_def)
  show "data_sectors sample_dir_inode \<inter> data_sectors map_inode = {}"
    by (simp add: data_sectors_def sector_count_def sample_dir_inode_def map_inode_def data_sector_def lessThan_Suc)
qed

lemma used_ok: "dir_ok used_fs 100 sample_dir_inode"
proof -
  have "length (sectors used_dev k) = 512" for k
    by (simp add: used_dev_def sample_entry_def entry_bytes_def inode_disk_bytes_def)
  then show ?thesis
    by (simp add: dir_ok_def used_fs_def sample_dir_fs_def sample_dir_inode_def sample_fs_def dev_ok_def
        inode_ok_def sector_count_def mem_ok_def NULL_def) (simp add: used_dev_def sample_dev_def)
qed

theorem dir_refines_map_witness:
  "(\<exists>s'. dir_add (replicate 20 0) 300 [65, 66] 7 sample_dir_fs = Some (True, s') \<and>
     dir_map (contents (fs_device s') sample_dir_inode) [65, 66] = Some 7) \<and>
   (\<exists>s'. dir_remove 300 [65, 66] used_fs = Some (True, s') \<and>
     dir_map (contents (fs_device s') sample_dir_inode) [65, 66] = None \<and>
     bm_bits (free_map s') = replicate 64 False)"
proof
  let ?d = "\<lparr>dir_inode = 100, dir_pos = 0\<rparr>"
  have p: "(300::ptr) \<noteq> NULL" "dirs sample_dir_fs 300 = Some ?d" "deny_write_cnt sample_dir_inode = 0" "dirs used_fs 300 = Some ?d"
    by (simp_all add: NULL_def used_fs_def sample_dir_fs_def sample_dir_inode_def sample_inode_def)
  have ok: "dir_ok sample_dir_fs (dir_inode ?d) sample_dir_inode" "dir_ok used_fs (dir_inode ?d) sample_dir_inode"
    using sample_dir_ok(1) used_ok by simp_all
  have free: "\<exists>k<length (entries (replicate 320 0)). \<not> in_use (entries (replicate 320 0) ! k)"
    using sample_dir_free [of 0] by (intro exI [of _ 0]) (simp del: nth_entries)
  have none: "dir_map (replicate 320 0) [65, 66] = None"
    unfolding dir_map_none holds_def using sample_dir_free by (simp del: nth_entries)
  note add = dir_refines_map [OF ok(1) p(1-3) sample_dir_ok(2), THEN conjunct2, THEN conjunct1, rule_format,
      of "[65, 66]" "replicate 20 0" 7, unfolded sample_dir_contents]
  have "[65, 66::u8] \<noteq> [] \<and> length [65, 66::u8] \<le> NAME_MAX \<and> 0 \<notin> set [65, 66::u8] \<and> length (replicate 20 (0::u8)) = 20"
    by (simp add: NAME_MAX_def)
  from add [OF this] none free show "\<exists>s'. dir_add (replicate 20 0) 300 [65, 66] 7 sample_dir_fs = Some (True, s') \<and>
     dir_map (contents (fs_device s') sample_dir_inode) [65, 66] = Some 7" by (elim exE conjE) auto
  note rem = dir_refines_map [OF ok(2) p(1,4,3) used_unique, THEN conjunct2, THEN conjunct2, THEN conjunct2, THEN conjunct1, rule_format,
      OF conjI [OF used_map conjI [OF used_closed conjI [OF used_free_map]]]]
  have "set_range 30 (unat (bytes_to_sectors 512)) False (set_range 7 1 False (bm_bits (free_map used_fs))) = replicate 64 False"
    by code_simp
  with rem show "\<exists>s'. dir_remove 300 [65, 66] used_fs = Some (True, s') \<and>
     dir_map (contents (fs_device s') sample_dir_inode) [65, 66] = None \<and> bm_bits (free_map s') = replicate 64 False"
    by (elim exE conjE) simp
qed

end
