(* ===== verification/Kload_Props.thy ===== *)
theory Kload_Props
  imports Kload Kdir_Props
begin

text \<open>
  The first stack of a process: where \<open>setup_stack\<close> puts the arguments, the array of their addresses and the
  arguments of \<open>_start\<close>, and the command lines for which its check against overflow comes too late. Segments that
  \<open>validate_segment\<close> accepts lie in the user part of the address space and pass the assertions of \<open>load_segment\<close>.
\<close>

unbundle bit_operations_syntax

section \<open>Words in memory\<close>

definition word_at :: "mem \<Rightarrow> ptr \<Rightarrow> u32" where
  "word_at m a = of_le32 (map m [a..<a + 4])"

lemma upt_4: "[a..<a + 4] = [a, a + 1, a + 2, a + 3]"
  by (simp add: upt_rec)

lemma word_at_cong: "(\<And>b. a \<le> b \<Longrightarrow> b < a + 4 \<Longrightarrow> m' b = m b) \<Longrightarrow> word_at m' a = word_at m a"
  by (simp add: word_at_def upt_4)

lemma word_at_stored: "word_at (stored m a (le32 w)) a = w"
proof -
  have "map (stored m a (le32 w)) [a..<a + 4] = le32 w"
    by (simp add: upt_4 stored_def le32_def)
  then show ?thesis using of_le32_le32 [of w "[]"] by (simp add: word_at_def)
qed

lemma stored_outside: "b < a \<or> a + length bs \<le> b \<Longrightarrow> stored m a bs b = m b"
  by (auto simp: stored_def)

lemma three_words:
  fixes m e x y w
  defines "m' \<equiv> stored (stored (stored m (e + 8) (le32 x)) (e + 4) (le32 y)) e (le32 w)"
  shows "word_at m' e = w" "word_at m' (e + 4) = y" "word_at m' (e + 8) = x" "\<And>a. a < e \<or> e + 12 \<le> a \<Longrightarrow> m' a = m a"
proof -
  show "word_at m' e = w" by (simp add: m'_def word_at_stored)
  have "word_at m' (e + 4) = word_at (stored (stored m (e + 8) (le32 x)) (e + 4) (le32 y)) (e + 4)"
    by (rule word_at_cong) (simp add: m'_def stored_outside)
  then show "word_at m' (e + 4) = y" by (simp add: word_at_stored)
  have "word_at m' (e + 8) = word_at (stored m (e + 8) (le32 x)) (e + 8)"
    by (rule word_at_cong) (simp add: m'_def stored_outside)
  then show "word_at m' (e + 8) = x" by (simp add: word_at_stored)
  show "m' a = m a" if "a < e \<or> e + 12 \<le> a" for a using that by (auto simp: m'_def stored_outside)
qed

section \<open>The page of the stack\<close>

lemma PHYS_BASE_nat: "unat PHYS_BASE = 3221225472" "unat (PHYS_BASE - PGSIZE32) = 3221221376"
  "unat (PHYS_BASE - PGSIZE32 + 12) = 3221221388"
  by (simp_all add: PHYS_BASE_def PGSIZE32_def)

lemma pg_round_down_no: "pg_round_down va = push_bit 12 (pg_no va)"
proof -
  have m: "PGMASK = mask 12" by (simp add: PGMASK_def mask_eq_exp_minus_1)
  show ?thesis unfolding pg_round_down_def pg_no_def m
    by (rule bit_eqI) (auto simp: bit_simps)
qed

lemma pg_no_of_nat: "b < 2 ^ 32 \<Longrightarrow> pg_no (of_nat b) = of_nat (b div 4096)"
  by (simp add: word_unat_eq_iff unat_pg_no unat_of_nat)

lemma round_down_of_nat: "b < 2 ^ 32 \<Longrightarrow> pg_round_down (of_nat b) = push_bit 12 (of_nat (b div 4096))"
  by (simp add: pg_round_down_no pg_no_of_nat)

lemma user_ok_stack:
  assumes "writable_page s (PHYS_BASE - PGSIZE32)" "3221221376 \<le> a" "a + n \<le> 3221225472"
  shows "user_ok s a n"
proof -
  have "pg_round_down (of_nat b) = PHYS_BASE - PGSIZE32" if "a \<le> b" "b < a + n" for b
  proof -
    have "b div 4096 = 786431" using that assms by (simp add: div_eq_dividend_iff div_nat_eqI)
    then show ?thesis using that assms by (simp add: round_down_of_nat push_bit_eq_mult PHYS_BASE_def PGSIZE32_def)
  qed
  then show ?thesis using assms(1) by (simp add: user_ok_def list_all_iff)
qed

lemma put_user_stack:
  assumes "writable_page s (PHYS_BASE - PGSIZE32)" "3221221376 \<le> a" "a + 4 \<le> 3221225472"
  shows "put_user s a w m = Some (stored m a (le32 w))"
  using user_ok_stack [OF assms] by (simp add: put_user_def)

section \<open>The arguments\<close>

lemma strlcpy_whole:
  assumes "cstring m src cs" "dst \<noteq> NULL" "dst + length cs < src"
  shows "\<exists>m'. strlcpy m dst src (length cs + 1) = Some (length cs, m') \<and> cstring m' dst cs \<and>
    (\<forall>a. a < dst \<or> dst + length cs < a \<longrightarrow> m' a = m a)"
proof -
  have n: "src \<noteq> NULL" using assms(3) by (simp add: NULL_def)
  define m' where "m' = (moved m dst src (length cs))(dst + length cs := 0)"
  have "memcpy m dst src (length cs) = Some (dst, moved m dst src (length cs))"
    using assms n by (intro memcpy_moved) auto
  then have "strlcpy m dst src (length cs + 1) = Some (length cs, m')"
    using assms n strlen_length [OF assms(1) n] by (simp add: strlcpy_def m'_def Let_def)
  moreover have "cstring m' dst cs" unfolding m'_def by (rule moved_cstring [OF assms(1)]) simp_all
  moreover have "m' a = m a" if "a < dst \<or> dst + length cs < a" for a
    using that by (auto simp: m'_def moved_def)
  ultimately show ?thesis by blast
qed

definition args_size :: "u8 list list \<Rightarrow> nat" where
  "args_size args = sum_list (map (\<lambda>cs. length cs + 1) args)"

lemma args_size_simps [simp]:
  "args_size [] = 0" "args_size (cs # args) = length cs + 1 + args_size args"
  "args_size (rev args) = args_size args"
  by (simp_all add: args_size_def rev_map [symmetric])

abbreviation kernel_strings :: "mem \<Rightarrow> ptr list \<Rightarrow> u8 list list \<Rightarrow> bool" where
  "kernel_strings m argv args \<equiv> list_all2 (\<lambda>a cs. unat PHYS_BASE \<le> a \<and> cstring m a cs) argv args"

lemma push_args_ok:
  assumes "writable_page s (PHYS_BASE - PGSIZE32)" "kernel_strings m argv args"
    "3221221376 + args_size args \<le> esp" "esp \<le> 3221225472"
  shows "\<exists>ps m'. push_args argv esp s m = Some (ps, esp - args_size args, m') \<and>
    list_all2 (\<lambda>p cs. esp - args_size args \<le> p \<and> p < esp \<and> cstring m' p cs) ps args \<and>
    (\<forall>a. a < esp - args_size args \<or> esp \<le> a \<longrightarrow> m' a = m a)"
  using assms(2-4)
proof (induction args arbitrary: argv esp m rule: list.induct)
  case (Cons cs args)
  obtain a as where argv: "argv = a # as" "unat PHYS_BASE \<le> a" "cstring m a cs" "kernel_strings m as args"
    using Cons.prems(1) by (auto simp: list_all2_Cons2)
  define e where "e = esp - (length cs + 1)"
  have e: "e + length cs + 1 = esp" "3221221376 + args_size args \<le> e" "e \<noteq> NULL" "esp - args_size (cs # args) = e - args_size args"
    using Cons.prems by (auto simp: e_def NULL_def)
  have a: "a \<noteq> NULL" "cstring m a cs" "3221225472 \<le> a" using argv(2,3) by (auto simp: NULL_def PHYS_BASE_nat)
  obtain m1 where m1: "strlcpy m e a (length cs + 1) = Some (length cs, m1)" "cstring m1 e cs"
      "\<And>b. b < e \<or> e + length cs < b \<Longrightarrow> m1 b = m b"
    using strlcpy_whole [OF a(2) e(3)] a(3) e(1) Cons.prems(3) by auto
  have "kernel_strings m1 as args"
    using argv(4)
  proof (rule list_all2_mono)
    fix b ds assume b: "unat PHYS_BASE \<le> b \<and> cstring m b ds"
    have "cstring m1 b ds = cstring m b ds"
      by (rule cstring_cong) (use b e(1) Cons.prems(3) in \<open>auto intro!: m1(3) simp: PHYS_BASE_nat\<close>)
    then show "unat PHYS_BASE \<le> b \<and> cstring m1 b ds" using b by simp
  qed
  then obtain ps m2 where m2: "push_args as e s m1 = Some (ps, e - args_size args, m2)"
      "list_all2 (\<lambda>p cs. e - args_size args \<le> p \<and> p < e \<and> cstring m2 p cs) ps args"
      "\<And>b. b < e - args_size args \<or> e \<le> b \<Longrightarrow> m2 b = m1 b"
    using Cons.IH [of m1 as e] e(1,2) Cons.prems(3) by (elim meta_impE exE conjE) auto
  have "size_of_char_arg m a = Some (length cs + 1)"
    using strlen_length [OF a(2,1)] by (simp add: size_of_char_arg_def)
  moreover have "user_ok s e (length cs + 1)"
    by (rule user_ok_stack [OF assms(1)]) (use e Cons.prems(3) in auto)
  ultimately have "push_args argv esp s m = Some (e # ps, e - args_size args, m2)"
    using m1(1) m2(1) by (simp add: argv(1) e_def Let_def del: add_Suc_right Suc_eq_plus1 One_nat_def)
  moreover have "cstring m2 e cs"
    using m1(2) cstring_cong [of e cs m2 m1] m2(3) by auto
  moreover have "list_all2 (\<lambda>p cs. e - args_size args \<le> p \<and> p < esp \<and> cstring m2 p cs) ps args"
    using m2(2) by (rule list_all2_mono) (use e(1) in auto)
  moreover have "m2 b = m b" if "b < e - args_size args \<or> esp \<le> b" for b
  proof -
    have "b < e - args_size args \<or> e \<le> b" "b < e \<or> e + length cs < b" using that e(1) by auto
    then show ?thesis using m2(3) m1(3) by simp
  qed
  ultimately show ?case unfolding e(4) using e(1) by (intro exI conjI) auto
qed simp

lemma push_pointers_ok:
  assumes "writable_page s (PHYS_BASE - PGSIZE32)" "3221221376 + 4 * length ps + 8 \<le> esp" "esp \<le> 3221225472"
  shows "\<exists>m'. push_pointers ps esp s m = Some (True, esp - 4 * length ps, m') \<and>
    (\<forall>i<length ps. word_at m' (esp - 4 * (i + 1)) = of_nat (ps ! i)) \<and>
    (\<forall>a. a < esp - 4 * length ps \<or> esp \<le> a \<longrightarrow> m' a = m a)"
  using assms(2,3)
proof (induction ps arbitrary: esp m)
  case (Cons p ps)
  let ?m = "stored m (esp - 4) (le32 (of_nat p))"
  obtain m' where m': "push_pointers ps (esp - 4) s ?m = Some (True, esp - 4 - 4 * length ps, m')"
      "\<And>i. i < length ps \<Longrightarrow> word_at m' (esp - 4 - 4 * (i + 1)) = of_nat (ps ! i)"
      "\<And>a. a < esp - 4 - 4 * length ps \<or> esp - 4 \<le> a \<Longrightarrow> m' a = ?m a"
    using Cons.IH [of "esp - 4" ?m] Cons.prems by (elim meta_impE exE conjE) auto
  have "push_pointers (p # ps) esp s m = Some (True, esp - 4 * length (p # ps), m')"
    using m'(1) put_user_stack [OF assms(1), of "esp - 4"] Cons.prems by (simp add: PHYS_BASE_nat)
  moreover have "word_at m' (esp - 4 * (i + 1)) = of_nat ((p # ps) ! i)" if "i < length (p # ps)" for i
  proof (cases i)
    case 0
    have "word_at m' (esp - 4) = word_at ?m (esp - 4)" by (rule word_at_cong) (simp add: m'(3))
    then show ?thesis using 0 by (simp add: word_at_stored)
  next
    case (Suc j)
    then show ?thesis using m'(2) [of j] that by (simp add: algebra_simps)
  qed
  moreover have "m' a = m a" if "a < esp - 4 * length (p # ps) \<or> esp \<le> a" for a
  proof -
    have "a < esp - 4 - 4 * length ps \<or> esp - 4 \<le> a" "a < esp - 4 \<or> esp - 4 + 4 \<le> a"
      using that Cons.prems by auto
    then show ?thesis using m'(3) by (simp add: stored_outside)
  qed
  ultimately show ?case by blast
qed simp


section \<open>The whole stack\<close>

lemma round_down_diff:
  fixes t k :: nat
  assumes "t \<le> 4 * k"
  shows "(4 * k - t) div 4 * 4 = 4 * k - 4 * ((t + 3) div 4)"
proof -
  define q where "q = (t + 3) div 4"
  define r where "r = 3 - (t + 3) mod 4"
  have "t + 3 = 4 * q + (t + 3) mod 4" "(t + 3) mod 4 < 4" by (simp_all add: q_def)
  then have r: "t + r = 4 * q" "r < 4" unfolding r_def by linarith+
  have "4 * k - t = 4 * (k - q) + r" using r assms by linarith
  then have "(4 * k - t) div 4 = k - q" using r(2) by simp
  then show ?thesis by (simp add: q_def diff_mult_distrib)
qed

lemma word_align_top:
  assumes "t \<le> 3221225472"
  shows "word_align (3221225472 - t) 4 = 3221225472 - 4 * ((t + 3) div 4)"
proof -
  have k: "4 * 805306368 = (3221225472 :: nat)" by simp
  show ?thesis using round_down_diff [of t 805306368] assms unfolding word_align_def k by (simp only:)
qed

lemma memset_page: "memset m 3221221376 0 4096 = Some (3221221376, memset_loop 4096 m 3221221376 0)"
  by (simp add: memset_def NULL_def)

text \<open>The memory when the arguments, the null pointer behind the array and the array are on the stack.\<close>

lemma stack_arrays:
  assumes w: "writable_page s (PHYS_BASE - PGSIZE32)" and k: "kernel_strings m argv args"
    and zd: "z = 3221225472 - 4 * ((args_size args + 3) div 4) - 4" "3221221376 + 4 * length args + 8 \<le> z"
      "4 * ((args_size args + 3) div 4) \<le> 4096"
  shows "\<exists>ps m1 m2. push_args (rev argv) 3221225472 s m = Some (ps, 3221225472 - args_size args, m1) \<and>
    put_user s z 0 m1 = Some (stored m1 z (le32 0)) \<and>
    push_pointers ps z s (stored m1 z (le32 0)) = Some (True, z - 4 * length args, m2) \<and>
    (\<forall>j<length args. \<exists>p. word_at m2 (z - 4 * length args + 4 * j) = of_nat p \<and> z + 4 \<le> p \<and>
       p < 3221225472 \<and> cstring m2 p (args ! j)) \<and>
    word_at m2 z = 0 \<and> (\<forall>a. a < z - 4 * length args \<or> 3221225472 \<le> a \<longrightarrow> m2 a = m a)"
proof -
  let ?n = "length args"
  have k': "kernel_strings m (rev argv) (rev args)" using k by simp
  have sz: "args_size args \<le> 4 * ((args_size args + 3) div 4)" by simp
  then have t: "z + 4 \<le> 3221225472 - args_size args" "3221221376 + args_size (rev args) \<le> 3221225472"
    using zd by auto
  obtain ps m1 where m1: "push_args (rev argv) 3221225472 s m = Some (ps, 3221225472 - args_size args, m1)"
      "list_all2 (\<lambda>p cs. 3221225472 - args_size args \<le> p \<and> p < 3221225472 \<and> cstring m1 p cs) ps (rev args)"
      "\<And>a. a < 3221225472 - args_size args \<or> 3221225472 \<le> a \<Longrightarrow> m1 a = m a"
    using push_args_ok [OF w k' t(2)] by auto
  have n: "length ps = ?n" using list_all2_lengthD [OF m1(2)] by simp
  let ?m = "stored m1 z (le32 0)"
  have z: "3221221376 + 4 * length ps + 8 \<le> z" "z \<le> 3221225472" using zd(2) t n by auto
  obtain m2 where m2: "push_pointers ps z s ?m = Some (True, z - 4 * ?n, m2)"
      "\<And>i. i < ?n \<Longrightarrow> word_at m2 (z - 4 * (i + 1)) = of_nat (ps ! i)"
      "\<And>a. a < z - 4 * ?n \<or> z \<le> a \<Longrightarrow> m2 a = ?m a"
    using push_pointers_ok [OF w z, of ?m] n by auto
  have "put_user s z 0 m1 = Some ?m" by (rule put_user_stack [OF w]) (use zd t in auto)
  moreover have "word_at m2 z = 0"
    using word_at_cong [of z m2 ?m] m2(3) word_at_stored by simp
  moreover have "m2 a = m a" if "a < z - 4 * ?n \<or> 3221225472 \<le> a" for a
  proof -
    have "a < z - 4 * ?n \<or> z \<le> a" "a < z \<or> z + 4 \<le> a" "a < 3221225472 - args_size args \<or> 3221225472 \<le> a"
      using that t by auto
    then show ?thesis using m2(3) m1(3) by (simp add: stored_outside)
  qed
  moreover have "\<exists>p. word_at m2 (z - 4 * ?n + 4 * j) = of_nat p \<and> z + 4 \<le> p \<and> p < 3221225472 \<and> cstring m2 p (args ! j)"
    if j: "j < ?n" for j
  proof -
    define i where "i = ?n - 1 - j"
    have i: "i < ?n" "rev args ! i = args ! j" "z - 4 * (i + 1) = z - 4 * ?n + 4 * j"
      using j zd(2) by (auto simp: i_def rev_nth)
    have p: "3221225472 - args_size args \<le> ps ! i" "ps ! i < 3221225472" "cstring m1 (ps ! i) (args ! j)"
      using list_all2_nthD2 [OF m1(2), of i] i by auto
    have "cstring m2 (ps ! i) (args ! j) = cstring m1 (ps ! i) (args ! j)"
      by (rule cstring_cong) (use p(1) t(1) m2(3) in \<open>auto simp: stored_outside\<close>)
    then show ?thesis using m2(2) [OF i(1)] i(3) p t(1) by (intro exI [of _ "ps ! i"]) auto
  qed
  ultimately show ?thesis using m1(1) m2(1) by blast
qed


text \<open>\<open>setup_stack\<close> once the page is there.\<close>

lemma setup_stack_steps:
  assumes p: "palloc_page {PAL_USER, PAL_ZERO} (PHYS_BASE - PGSIZE32) True s = Some (kp, s')" "kp \<noteq> 0"
    and w: "writable_page s' (PHYS_BASE - PGSIZE32)" and k: "kernel_strings m argv args" and len: "length argv \<le> 50"
    and z: "z = 3221225472 - 4 * ((args_size args + 3) div 4) - 4" "3221221376 + 4 * length args + 8 \<le> z"
      "4 * ((args_size args + 3) div 4) \<le> 4096"
  shows "\<exists>m2. setup_stack argv esp m s = do {
      m \<leftarrow> put_user s' (z - 4 * length args - 4) (of_nat (z - 4 * length args)) m2;
      m \<leftarrow> put_user s' (z - 4 * length args - 8) (of_nat (length args)) m;
      m \<leftarrow> put_user s' (z - 4 * length args - 12) 0 m;
      Some (True, z - 4 * length args - 12, m, s') } \<and>
    (\<forall>j<length args. \<exists>p. word_at m2 (z - 4 * length args + 4 * j) = of_nat p \<and> z + 4 \<le> p \<and>
       p < 3221225472 \<and> cstring m2 p (args ! j)) \<and>
    word_at m2 z = 0 \<and> (\<forall>a. a < 3221221376 \<or> 3221225472 \<le> a \<longrightarrow> m2 a = m a)"
proof -
  let ?m = "memset_loop 4096 m 3221221376 0"
  have same: "?m a = m a" if "a < 3221221376 \<or> 3221225472 \<le> a" for a
    using that by (auto simp: memset_loop_apply simp del: memset_loop.simps)
  have "kernel_strings ?m argv args"
    using k
  proof (rule list_all2_mono)
    fix b ds assume b: "unat PHYS_BASE \<le> b \<and> cstring m b ds"
    have "cstring ?m b ds = cstring m b ds" by (rule cstring_cong) (use b same in \<open>auto simp: PHYS_BASE_nat\<close>)
    then show "unat PHYS_BASE \<le> b \<and> cstring ?m b ds" using b by simp
  qed
  from stack_arrays [OF w this z] obtain ps m1 m2
    where push: "push_args (rev argv) 3221225472 s' ?m = Some (ps, 3221225472 - args_size args, m1)"
      "put_user s' z 0 m1 = Some (stored m1 z (le32 0))"
      "push_pointers ps z s' (stored m1 z (le32 0)) = Some (True, z - 4 * length args, m2)"
      and m2: "\<forall>j<length args. \<exists>p. word_at m2 (z - 4 * length args + 4 * j) = of_nat p \<and> z + 4 \<le> p \<and>
        p < 3221225472 \<and> cstring m2 p (args ! j)" "word_at m2 z = 0"
      "\<forall>a. a < z - 4 * length args \<or> 3221225472 \<le> a \<longrightarrow> m2 a = ?m a"
    by blast
  have "args_size args \<le> 4 * ((args_size args + 3) div 4)" by simp
  then have "word_align (3221225472 - args_size args) 4 - 4 = z"
    using word_align_top [of "args_size args"] z by simp
  then have "setup_stack argv esp m s = do {
      m \<leftarrow> put_user s' (z - 4 * length args - 4) (of_nat (z - 4 * length args)) m2;
      m \<leftarrow> put_user s' (z - 4 * length args - 8) (of_nat (length args)) m;
      m \<leftarrow> put_user s' (z - 4 * length args - 12) 0 m;
      Some (True, z - 4 * length args - 12, m, s') }"
    using push p len list_all2_lengthD [OF k]
    by (simp add: setup_stack_def PHYS_BASE_nat memset_page Let_def del: memset_loop.simps)
  moreover have "m2 a = m a" if "a < 3221221376 \<or> 3221225472 \<le> a" for a
    using that m2(3) same z(2) by auto
  ultimately show ?thesis using m2(1,2) by (intro exI [of _ m2]) blast
qed


lemma put_user_first: "put_user s a w m = Some m' \<Longrightarrow> writable_page s (pg_round_down (of_nat a))"
  by (auto simp: put_user_def user_ok_def list_all_iff bind_eq_Some_conv)

text \<open>When room is one word short, the check against overflow lets the pointers pass, and the return address goes
  to the page below.\<close>

lemma setup_stack_overflow:
  assumes p: "palloc_page {PAL_USER, PAL_ZERO} (PHYS_BASE - PGSIZE32) True s = Some (kp, s')" "kp \<noteq> 0"
    and w: "writable_page s' (PHYS_BASE - PGSIZE32)" "\<not> writable_page s' (PHYS_BASE - PGSIZE32 - PGSIZE32)"
    and k: "kernel_strings m argv args" and len: "length argv \<le> 50"
    and room: "4 * ((args_size args + 3) div 4) + 4 * length args + 16 = 4100"
  shows "setup_stack argv esp m s = None"
proof -
  define z where "z = 3221225472 - 4 * ((args_size args + 3) div 4) - 4"
  have z: "3221221376 + 4 * length args + 8 \<le> z" "4 * ((args_size args + 3) div 4) \<le> 4096"
    "z - 4 * length args - 12 = 3221221372"
    unfolding z_def using room by simp_all
  obtain m2 where "setup_stack argv esp m s = do {
      m \<leftarrow> put_user s' (z - 4 * length args - 4) (of_nat (z - 4 * length args)) m2;
      m \<leftarrow> put_user s' (z - 4 * length args - 8) (of_nat (length args)) m;
      m \<leftarrow> put_user s' (z - 4 * length args - 12) 0 m;
      Some (True, z - 4 * length args - 12, m, s') }"
    using setup_stack_steps [OF p w(1) k len z_def z(1,2), of esp] by blast
  moreover have "pg_round_down 3221221372 = PHYS_BASE - PGSIZE32 - PGSIZE32"
    by (simp add: pg_round_down_def PGMASK_def PHYS_BASE_def PGSIZE32_def)
  then have "put_user s' 3221221372 0 m = None" for m
    using w(2) put_user_first [of s' 3221221372 0 m] by (cases "put_user s' 3221221372 0 m") auto
  ultimately show ?thesis unfolding z(3) by (simp add: bind_eq_None_conv)
qed

section \<open>Segments\<close>

lemma unat_round_down: "unat (pg_round_down va) = 4096 * (unat va div 4096)"
proof -
  have "4096 * (unat va div 4096) < 4294967296" using unat_lt_32 [of va] by linarith
  then show ?thesis by (simp add: pg_round_down_no push_bit_eq_mult unat_word_ariths unat_pg_no mult.commute)
qed

lemma validate_segmentD:
  assumes "validate_segment p fp f = Some True"
  shows "unat (p_filesz p) \<le> unat (p_memsz p)" "unat (p_vaddr p) + unat (p_memsz p) < 3221225472"
    "4096 \<le> unat (p_vaddr p)" "pg_ofs (p_offset p) = pg_ofs (p_vaddr p)"
proof -
  from assms have c: "\<not> p_memsz p < p_filesz p" "is_user_vaddr (p_vaddr p + p_memsz p)"
      "\<not> p_vaddr p + p_memsz p < p_vaddr p" "\<not> p_vaddr p < PGSIZE32" "p_offset p AND PGMASK = p_vaddr p AND PGMASK"
    by (auto simp: validate_segment_def bind_eq_Some_conv split: if_splits)
  show "unat (p_filesz p) \<le> unat (p_memsz p)" using c(1) by (simp add: not_less word_le_nat_alt)
  show "4096 \<le> unat (p_vaddr p)" using c(4) by (simp add: not_less word_le_nat_alt PGSIZE32_def)
  show "pg_ofs (p_offset p) = pg_ofs (p_vaddr p)" using c(5) by (simp add: pg_ofs_def)
  have "unat (p_vaddr p + p_memsz p) < 3221225472"
    using c(2) by (simp add: is_user_vaddr_def PHYS_BASE_def word_less_nat_alt)
  moreover have "p_vaddr p \<le> p_vaddr p + p_memsz p" using c(3) by (simp add: not_less)
  then have "unat (p_vaddr p + p_memsz p) = unat (p_vaddr p) + unat (p_memsz p)" by (rule unat_plus_simple [THEN iffD1])
  ultimately show "unat (p_vaddr p) + unat (p_memsz p) < 3221225472" by (simp only:)
qed


text \<open>The numbers of bytes for an accepted segment: no addition wraps around, so that the assertion of \<open>load_segment\<close>
  on their sum holds, and the pages from the first on lie above page 0 and below the kernel.\<close>

lemma unat_round_up:
  assumes "unat x < 4294963200"
  shows "unat (DIV_ROUND_UP x PGSIZE32 * PGSIZE32) = 4096 * ((unat x + 4095) div 4096)"
proof -
  have s: "unat (x + PGSIZE32 - 1) = unat x + 4095"
    using assms by (simp add: PGSIZE32_def unat_word_ariths add.assoc [symmetric] del: add.assoc)
  have "unat (DIV_ROUND_UP x PGSIZE32) = (unat x + 4095) div 4096"
    unfolding DIV_ROUND_UP_def unat_div s by (simp add: PGSIZE32_def)
  moreover have "4096 * ((unat x + 4095) div 4096) < 4294967296" using assms by linarith
  ultimately show ?thesis by (simp add: unat_word_ariths PGSIZE32_def mult.commute)
qed

lemma accepted_segment:
  assumes v: "validate_segment p fp f = Some True" and sb: "segment_bytes p = (rb, zb)"
  shows "unat rb + unat zb = 4096 * ((unat (p_vaddr p) mod 4096 + unat (p_memsz p) + 4095) div 4096)"
    "(rb + zb) mod PGSIZE32 = 0" "4096 \<le> unat (pg_round_down (p_vaddr p))"
    "unat (pg_round_down (p_vaddr p)) + (unat rb + unat zb) \<le> 3221225472"
proof -
  let ?v = "unat (p_vaddr p)" and ?k = "unat (p_memsz p)"
  define t where "t = 4096 * ((?v mod 4096 + ?k + 4095) div 4096)"
  note V = validate_segmentD [OF v]
  have o: "unat (p_vaddr p AND PGMASK) = ?v mod 4096" using unat_pg_ofs [of "p_vaddr p"] by (simp add: pg_ofs_def)
  have le: "?v mod 4096 \<le> ?v" by simp
  have x: "unat ((p_vaddr p AND PGMASK) + w) = ?v mod 4096 + unat w" if "unat w \<le> ?k" for w
    using that o V(2) le by (simp add: unat_word_ariths)
  define total where "total = DIV_ROUND_UP ((p_vaddr p AND PGMASK) + p_memsz p) PGSIZE32 * PGSIZE32"
  have tot: "unat total = t"
    unfolding total_def t_def using x [of "p_memsz p"] unat_round_up V(2) le by simp
  have low: "?v mod 4096 + ?k \<le> t" unfolding t_def by linarith
  have "rb + zb = total \<and> unat rb \<le> t"
    using sb low V(1) x [OF V(1)] tot by (auto simp: segment_bytes_def Let_def total_def [symmetric] split: if_splits)
  then have rz: "rb + zb = total" "zb = total - rb" "unat rb \<le> t" by auto
  then have sum: "unat rb + unat zb = t" using tot by (simp add: unat_sub word_le_nat_alt)
  then show "unat rb + unat zb = 4096 * ((?v mod 4096 + ?k + 4095) div 4096)" by (simp add: t_def)
  have "unat (total mod PGSIZE32) = 0" by (simp add: unat_mod tot PGSIZE32_def t_def)
  then show "(rb + zb) mod PGSIZE32 = 0" using rz(1) by (simp add: unat_eq_0)
  show "4096 \<le> unat (pg_round_down (p_vaddr p))" using div_le_mono [OF V(3), of 4096] unfolding unat_round_down by simp
  have "unat (pg_round_down (p_vaddr p)) + t \<le> 3221225472"
  proof -
    have "?v mod 4096 + ?k + 4095 + 4096 * (?v div 4096) = ?v + ?k + 4095" by simp
    then have "?v div 4096 + (?v mod 4096 + ?k + 4095) div 4096 = (?v + ?k + 4095) div 4096"
      using div_mult_self2 [of 4096 "?v mod 4096 + ?k + 4095" "?v div 4096"] by simp
    moreover have "(?v + ?k + 4095) div 4096 < 786433" using V(2) by (intro less_mult_imp_div_less) simp
    ultimately show ?thesis unfolding unat_round_down t_def by linarith
  qed
  then show "unat (pg_round_down (p_vaddr p)) + (unat rb + unat zb) \<le> 3221225472" using sum by simp
qed


section \<open>Properties\<close>

text \<open>C9: for a command line whose arguments fit in the page of the stack, \<open>setup_stack\<close> succeeds and leaves the stack
  that a program expects: at the stack pointer a null return address, then the number of arguments and the address of
  an array, which follows; its elements point to copies of the arguments, in order, and a null pointer ends it. The
  stack pointer is a multiple of 4 in the page of the stack, and no byte outside that page changes.\<close>

theorem setup_stack_layout:
  assumes p: "palloc_page {PAL_USER, PAL_ZERO} (PHYS_BASE - PGSIZE32) True s = Some (kp, s')" "kp \<noteq> 0"
    and w: "writable_page s' (PHYS_BASE - PGSIZE32)" and k: "kernel_strings m argv args" and len: "length argv \<le> 50"
    and room: "4 * ((args_size args + 3) div 4) + 4 * length args + 16 \<le> 4096"
  shows "\<exists>esp m'. setup_stack argv esp0 m s = Some (True, esp, m', s') \<and> 4 dvd esp \<and> unat (PHYS_BASE - PGSIZE32) \<le> esp \<and>
    word_at m' esp = 0 \<and> word_at m' (esp + 4) = of_nat (length args) \<and> word_at m' (esp + 8) = of_nat (esp + 12) \<and>
    (\<forall>j<length args. \<exists>q. word_at m' (esp + 12 + 4 * j) = of_nat q \<and> esp < q \<and> q < unat PHYS_BASE \<and> cstring m' q (args ! j)) \<and>
    word_at m' (esp + 12 + 4 * length args) = 0 \<and>
    (\<forall>a. a \<notin> {unat (PHYS_BASE - PGSIZE32)..<unat PHYS_BASE} \<longrightarrow> m' a = m a)"
proof -
  let ?n = "length args"
  define z where "z = 3221225472 - 4 * ((args_size args + 3) div 4) - 4"
  define e where "e = z - 4 * ?n - 12"
  have z: "3221221376 + 4 * ?n + 8 \<le> z" "4 * ((args_size args + 3) div 4) \<le> 4096"
    unfolding z_def using room by simp_all
  have e: "z - 4 * ?n = e + 12" "3221221376 \<le> e" "z = e + 12 + 4 * ?n" "z \<le> 3221225468"
    unfolding e_def z_def using room by simp_all
  have d: "e + 12 - 4 = e + 8" "e + 12 - 8 = e + 4" "e + 12 - 12 = e" by simp_all
  have dvd: "4 dvd e" unfolding e_def z_def by (intro dvd_diff_nat) simp_all
  obtain m2 where S: "setup_stack argv esp0 m s = do {
      m \<leftarrow> put_user s' (e + 8) (of_nat (e + 12)) m2;
      m \<leftarrow> put_user s' (e + 4) (of_nat ?n) m;
      m \<leftarrow> put_user s' e 0 m;
      Some (True, e, m, s') }"
    and m2: "\<And>j. j < ?n \<Longrightarrow> \<exists>p. word_at m2 (e + 12 + 4 * j) = of_nat p \<and> z + 4 \<le> p \<and> p < 3221225472 \<and> cstring m2 p (args ! j)"
      "word_at m2 z = 0" "\<And>a. a < 3221221376 \<or> 3221225472 \<le> a \<Longrightarrow> m2 a = m a"
    using setup_stack_steps [OF p w k len z_def z, of esp0, unfolded e(1) d] by blast
  define m' where "m' = stored (stored (stored m2 (e + 8) (le32 (of_nat (e + 12)))) (e + 4) (le32 (of_nat ?n))) e (le32 0)"
  note words = three_words [where m = m2 and e = e and x = "of_nat (e + 12)" and y = "of_nat ?n" and w = 0, folded m'_def]
  note high = words(4)
  have "setup_stack argv esp0 m s = Some (True, e, m', s')"
    unfolding S m'_def using put_user_stack [OF w] e(2,3,4) by simp
  moreover have "\<exists>q. word_at m' (e + 12 + 4 * j) = of_nat q \<and> e < q \<and> q < unat PHYS_BASE \<and> cstring m' q (args ! j)" if j: "j < ?n" for j
  proof -
    obtain q where q: "word_at m2 (e + 12 + 4 * j) = of_nat q" "z + 4 \<le> q" "q < 3221225472" "cstring m2 q (args ! j)"
      using m2(1) [OF j] by blast
    have "word_at m' (e + 12 + 4 * j) = word_at m2 (e + 12 + 4 * j)" by (rule word_at_cong) (simp add: high)
    moreover have "cstring m' q (args ! j) = cstring m2 q (args ! j)"
      by (rule cstring_cong) (use q(2) e(3) high in auto)
    ultimately show ?thesis using q e(3) by (intro exI [of _ q]) (simp add: PHYS_BASE_nat)
  qed
  moreover have "word_at m' (e + 12 + 4 * ?n) = 0"
    using m2(2) word_at_cong [of z m' m2] high e(3) by simp
  moreover have "m' a = m a" if "a \<notin> {unat (PHYS_BASE - PGSIZE32)..<unat PHYS_BASE}" for a
  proof -
    have "a < 3221221376 \<or> 3221225472 \<le> a" using that by (auto simp: PHYS_BASE_nat)
    moreover then have "a < e \<or> e + 12 \<le> a" using e(2,3,4) by auto
    ultimately show ?thesis using high m2(3) by simp
  qed
  moreover have "unat (PHYS_BASE - PGSIZE32) \<le> e" using e(2) by (simp add: PHYS_BASE_nat)
  ultimately show ?thesis using dvd words(1-3) by (intro exI [of _ e] exI [of _ m'] conjI) blast+
qed

text \<open>A machine with one free frame and a page table for the top of the user part of the address space, and a memory
  with the arguments \<open>ls\<close> and \<open>-a\<close>.\<close>

definition demo_vm_stack :: vm where
  "demo_vm_stack = demo_vm\<lparr>words := (\<lambda>_. 0)(0xc0100bfc := 0x101007),
     frame_pool := \<lparr>used_map = \<lparr>bit_cnt = 1, bits = [0]\<rparr>, base = 0xc0300000\<rparr>,
     frame_list := [\<lparr>pid = - 1, page_num = - 1, reference = False, dirty = False, resident = False, kpage = 0xc0300000\<rparr>]\<rparr>"

definition demo_args :: mem where
  "demo_args = stored (\<lambda>_. 0) 3222000000 [108, 115, 0, 45, 97, 0]"

lemma demo_stack_page:
  "(case palloc_page {PAL_USER, PAL_ZERO} (PHYS_BASE - PGSIZE32) True demo_vm_stack of None \<Rightarrow> False
    | Some (kp, s') \<Rightarrow> kp \<noteq> 0 \<and> writable_page s' (PHYS_BASE - PGSIZE32))"
  by code_simp


theorem setup_stack_layout_witness:
  "\<exists>esp m' s'. setup_stack [3222000000, 3222000003] 0 demo_args demo_vm_stack = Some (True, esp, m', s') \<and>
     word_at m' (esp + 4) = 2 \<and> (\<exists>q. word_at m' (esp + 16) = of_nat q \<and> cstring m' q [45, 97])"
proof -
  obtain kp s' where p: "palloc_page {PAL_USER, PAL_ZERO} (PHYS_BASE - PGSIZE32) True demo_vm_stack = Some (kp, s')" "kp \<noteq> 0"
      "writable_page s' (PHYS_BASE - PGSIZE32)"
    using demo_stack_page by (auto split: option.splits)
  have "kernel_strings demo_args [3222000000, 3222000003] [[108, 115], [45, 97]]"
    by (simp add: demo_args_def stored_def PHYS_BASE_nat)
  from setup_stack_layout [OF p this, of 0] obtain esp m'
    where S: "setup_stack [3222000000, 3222000003] 0 demo_args demo_vm_stack = Some (True, esp, m', s')"
      "word_at m' (esp + 4) = of_nat (length [[108, 115 :: u8], [45, 97]])"
      "\<forall>j<length [[108, 115 :: u8], [45, 97]]. \<exists>q. word_at m' (esp + 12 + 4 * j) = of_nat q \<and> esp < q \<and> q < unat PHYS_BASE \<and>
         cstring m' q ([[108, 115], [45, 97]] ! j)"
    by auto
  have "\<exists>q. word_at m' (esp + 16) = of_nat q \<and> cstring m' q [45, 97]" using S(3) [rule_format, of 1] by (auto simp: add.commute)
  then show ?thesis using S(1,2) by auto
qed

end
