(* ===== verification/Spec2Isabelle.thy ===== *)
theory Spec2Isabelle
  imports Klist_Sort Bitmap Lexer_Real Kstring Arith64 Kstdlib Kernel_Props Kpaging_Props Khash Kload_Props
begin

text \<open>
  A verification library of a repository with two programs in C: a scanner for Pascal, written by hand (the files in
  the top directory of the sources), and the kernel of a teaching operating system with threads, processes, paging,
  a file system and its C library (\<open>threads\<close>, \<open>userprog\<close>, \<open>vm\<close>, \<open>filesys\<close>, \<open>devices\<close>, \<open>lib\<close>).

  \<^bold>\<open>How the code is represented.\<close> Each C function is one definition with the name it has in the source, and each
  \<open>struct\<close> one record. Kernel code is in the option monad: \<^const>\<open>None\<close> stands for a failed \<open>ASSERT\<close>, a \<open>PANIC\<close>, an access
  through a null or freed pointer or outside an array, and a loop that does not end. So every theorem that an operation
  succeeds is an equation with \<^const>\<open>Some\<close>. State is passed along explicitly. Integers of the machine are words
  (\<open>u8\<close>, \<open>u32\<close>, \<open>u64\<close> of \<open>Prelude\<close>) where the code can wrap around, and integers or natural numbers with the wrap-around
  written out (\<open>off_t\<close>, \<open>c_int\<close>) elsewhere; addresses are natural numbers, or 32-bit words in the paging code. A loop is
  a separate definition named after its function: structural where the count is known, a \<open>partial_function\<close> where it
  may run forever. No definition has fuel: the theorems prove that the loops end on well-formed data. The
  result of \<open>malloc\<close> is an argument or part of the state (\<open>oom\<close>), so that failures of allocation are ordinary cases.

  \<^bold>\<open>The kernel library.\<close>
  \<^item> \<open>Klist\<close>, \<open>Klist_Sort\<close>: the doubly linked lists of \<open>lib/kernel/list.c\<close> on a heap of links. \<open>dlist\<close> relates a heap to
    the sequence of its elements; insertion, removal, splicing and reversal act on sequences and write only to cells of the
    lists concerned. The ordered operations take a comparison function under the contract \<open>list_less\<close>, a strict weak
    order, interpreted for the comparison function of the list test; the natural merge sort ends, sorts and is stable.
  \<^item> \<open>Khash\<close>: the hash table of \<open>lib/kernel/hash.c\<close> over these lists. The contract \<open>hash_functions\<close> extends \<open>list_less\<close>; a
    table implements a set with one element of each key, rehashing included.
  \<^item> \<open>Bitmap\<close>: the bit map of \<open>lib/kernel/bitmap.c\<close>. It implements an array of booleans, and scanning finds the first
    group. \<open>bit_allocator\<close> is the contract of allocation by scanning.
  \<^item> \<open>Kstring\<close>, \<open>Kstdlib\<close>, \<open>Kstdio\<close>, \<open>Arith64\<close>: \<open>lib/string.c\<close>, \<open>lib/ctype.h\<close>, \<open>lib/stdlib.c\<close>, \<open>lib/stdio.c\<close> and
    \<open>lib/arithmetic.c\<close> on a memory of bytes. Strings are related to lists by \<open>cstring\<close>; heap sort and binary search
    rest on the contracts \<open>comparator\<close> and \<open>byte_comparator\<close>; numbers printed by \<open>snprintf\<close> are read back by \<open>atoi\<close>; 64-bit
    division is exact, while the remainder routines are right only for remainders of 32 bits.

  \<^bold>\<open>Threads and processes.\<close>
  \<^item> \<open>Kthread\<close>, \<open>Ksynch\<close>, \<open>Kprocess\<close>: \<open>threads/thread.c\<close>, the interrupt flag and the handling of interrupts of
    \<open>threads/interrupt.c\<close>, the ticks of \<open>devices/timer.c\<close>, \<open>threads/synch.c\<close>, and the life of processes in
    \<open>userprog/process.c\<close>. A function that can lose the processor is split there; the rest is a frame on the stack of its
    thread.
  \<^item> \<open>Kernel\<close>: the step relation of the running system. The running thread executes its innermost frame or makes
    any call; between two such steps an interrupt may arrive if interrupts are on. What a call does between two points
    where it is split is one step, and interrupts inside it are not modelled.
  \<^item> \<open>Kernel_Inv\<close>, \<open>Kernel_Steps\<close>, \<open>Kernel_Reach\<close>: every step keeps the invariant, so it holds in every reachable state.
    \<open>Kernel_Props\<close> draws the conclusions: the run queue, the wait lists, exclusive locks, round-robin scheduling, and
    what a parent learns of a child that it waits for.

  \<^bold>\<open>Memory and executables.\<close>
  \<^item> \<open>Kpaging\<close>, \<open>Kpaging_Props\<close>: \<open>threads/vaddr.h\<close>, \<open>threads/pte.h\<close>, \<open>threads/old_palloc.c\<close>, \<open>threads/palloc.c\<close>,
    \<open>vm/frame.c\<close> and \<open>userprog/pagedir.c\<close>. A page directory is a map from user pages to frames, extended as long as there is a kernel page for
    a page table; \<open>entry_store\<close> is the
    contract of its entries, interpreted on page tables in kernel memory.
  \<^item> \<open>Kload\<close>, \<open>Kload_Props\<close>: the loader in \<open>userprog/process.c\<close>, on top of the paging code, the file system and the
    string functions: headers, segments and the first stack of a process. The stack is as a program expects it;
    segments that are accepted stay between page 0 and the kernel; and the check against overflow of the stack
    comes one word too late (\<open>setup_stack_overflow\<close>).

  \<^bold>\<open>The file system.\<close>
  \<^item> \<open>Kfile\<close>, \<open>Kfile_Props\<close>: \<open>devices/block.c\<close>, \<open>filesys/inode.c\<close>, \<open>filesys/file.c\<close>, \<open>filesys/free-map.c\<close>. An inode is an
    array of bytes of fixed length under reads and writes at any offset.
  \<^item> \<open>Kdir\<close>, \<open>Kdir_Props\<close>: \<open>filesys/directory.c\<close>, \<open>filesys/filesys.c\<close>. A directory is a map from names to sectors, and
    removing a file that is not open gives its sectors back to the free map.

  \<^bold>\<open>The scanner.\<close>
  \<^item> \<open>Lexer\<close>, \<open>Lexer_Props\<close>: \<open>scanner.c\<close>, \<open>lexanc.c\<close>, \<open>printtoken.c\<close>, \<open>lexandr.c\<close>, \<open>token.h\<close> and \<open>lexan.h\<close>. The input is
    the list of characters still to be read, at whose front the code looks ahead by up to two; arithmetic on \<open>double\<close> is
    a parameter. The driver reads all of its input and stops; identifiers, reserved words, operators, integers,
    strings and comments are recognised as the tables and the grammar of the code say. Where the code deviates from what it
    means to do, in the fields of reserved words and in one form of comment, the theorems state what it does.
  \<^item> \<open>Lexer_Real\<close>: real literals. The value of a literal is exact up to at most 500 roundings, for every arithmetic
    under the standard model of rounding (\<open>fp_rounds\<close>).

  \<^bold>\<open>Bounds.\<close> The length of a list is below \<open>2 ^ 32\<close> where the code counts in a \<open>size_t\<close>. An array that is sorted
  has fewer than \<open>2 ^ 31\<close> elements, so that twice an index does not wrap around. Digit runs
  in the scanner are below the size of the tables of powers, behind which the code reads outside its arrays. The
  arguments of a process fit in one page, less the words that follow them. Thread identifiers and counters of statistics
  do not wrap around.

  \<^bold>\<open>Helpers of the C language.\<close> A few definitions spell out what the language does and translate no function of
  their own: the bytes of integers and structures in memory (\<open>le32\<close>, \<open>of_le32\<close>, \<open>inode_disk_of\<close>, \<open>entry_of\<close>, \<open>ehdr_of\<close>,
  \<open>phdr_of\<close>), arguments on the stack of a variadic call (\<open>va_arg32\<close>, \<open>va_arg64\<close>), arithmetic of type \<open>int\<close> (\<open>c_int\<close>), the
  addresses of members of a structure (\<open>head_of\<close>, \<open>tail_of\<close>, \<open>lock_sema\<close>), and the page lookup of the processor
  (\<open>writable_page\<close>).

  \<^bold>\<open>Not modelled.\<close> Drivers of devices (disk, partitions, keyboard, serial port, display, clocks) and the boot and switch
  code in assembly are accesses to ports and registers. The dispatcher of system calls (\<open>userprog/syscall.c\<close>)
  depends on the memory of a running user program; the operations it calls are modelled. The allocator
  \<open>threads/malloc.c\<close> is represented by its results. The queue between interrupt handlers and readers (\<open>devices/intq.c\<close>),
  the random numbers, the archives and the console have no caller among the modelled parts. Programs that run in user
  mode, tests, scripts and superseded copies of files are not part of the system; the comparison functions of two tests
  serve as instances of the contracts.
\<close>

end
